(* ===== verification/Qb_Prelude.thy ===== *)
theory Qb_Prelude
  imports Main "HOL-Library.Word" "HOL-Library.Monad_Syntax"
begin

text \<open>
  Shared types and generic lemmas: the C integer types as words, little-endian reads and
  writes of byte buffers (\<open>memcpy\<close> between a byte pointer and an integer on x86), a fold
  over an operation that may fault, and facts on lists and words.

  Throughout the development \<open>None\<close> is the result of an execution whose behaviour C does
  not define: a read or write outside an object, a shift by the width or more, a loop that
  never ends. Sizes that the program computes from a caller's number are 64-bit words and
  wrap; a counter that runs over a buffer in memory is a \<open>nat\<close>, since a buffer is shorter
  than the address space.
\<close>

unbundle bit_operations_syntax

type_synonym u8 = "8 word"
type_synonym u32 = "32 word"
type_synonym u64 = "64 word"
type_synonym u128 = "128 word"
type_synonym size_t = "64 word"

named_theorems rd_simps \<open>equations for reads of byte buffers\<close>
named_theorems bit_lemmas \<open>bitwise readings of composed words\<close>

section \<open>Little-endian encoding\<close>

fun le_word :: "u8 list \<Rightarrow> 'a::len word" where
  "le_word [] = 0"
| "le_word (b # bs) = ucast b OR push_bit 8 (le_word bs)"

fun le_bytes :: "nat \<Rightarrow> 'a::len word \<Rightarrow> u8 list" where
  "le_bytes 0 w = []"
| "le_bytes (Suc n) w = ucast w # le_bytes n (drop_bit 8 w)"

lemma length_le_bytes [simp]: "length (le_bytes n w) = n"
  by (induction n arbitrary: w) auto

lemma bit_le_word [bit_lemmas]:
  "bit (le_word bs :: 'a::len word) j \<longleftrightarrow>
     j < LENGTH('a) \<and> j div 8 < length bs \<and> bit (bs ! (j div 8)) (j mod 8)"
proof (induction bs arbitrary: j)
  case Nil
  then show ?case by simp
next
  case (Cons b bs)
  show ?case
  proof (cases "j < 8")
    case True
    then show ?thesis by (auto simp: bit_simps)
  next
    case False
    then have "j div 8 = Suc ((j - 8) div 8)" and "j mod 8 = (j - 8) mod 8"
      by (simp_all add: le_div_geq le_mod_geq not_less)
    with False show ?thesis
      using Cons.IH [of "j - 8"] by (auto simp: bit_simps dest: bit_imp_le_length)
  qed
qed

lemma nth_le_bytes:
  "i < n \<Longrightarrow> le_bytes n w ! i = ucast (drop_bit (8 * i) w)"
proof (induction n arbitrary: i w)
  case (Suc n)
  then show ?case by (cases i) (auto simp: algebra_simps)
qed simp

lemma le_word_le_bytes:
  "le_word (le_bytes n w) = take_bit (8 * n) (w :: 'a::len word)"
proof (rule bit_word_eqI)
  fix j assume "j < LENGTH('a)"
  have "j div 8 < n \<longleftrightarrow> j < 8 * n"
    by (simp add: less_mult_imp_div_less div_less_iff_less_mult mult.commute)
  moreover have "8 * (j div 8) + j mod 8 = j"
    by simp
  ultimately show "bit (le_word (le_bytes n w) :: 'a word) j \<longleftrightarrow> bit (take_bit (8 * n) w) j"
    using \<open>j < LENGTH('a)\<close> by (auto simp: bit_le_word nth_le_bytes bit_simps)
qed

lemma le_bytes_le_word:
  assumes "length bs = n" and "8 * n \<le> LENGTH('a)"
  shows "le_bytes n (le_word bs :: 'a::len word) = bs"
proof (rule nth_equalityI)
  fix i assume "i < length (le_bytes n (le_word bs :: 'a word))"
  then have i: "i < n" by simp
  have "bit (ucast (drop_bit (8 * i) (le_word bs :: 'a word)) :: u8) j \<longleftrightarrow> bit (bs ! i) j"
    if "j < 8" for j
  proof -
    from that have "(8 * i + j) div 8 = i" and "(8 * i + j) mod 8 = j" by simp_all
    moreover from i that assms(2) have "8 * i + j < LENGTH('a)" by linarith
    ultimately show ?thesis
      using that i assms(1) by (simp add: bit_simps bit_le_word)
  qed
  then have "(ucast (drop_bit (8 * i) (le_word bs :: 'a word)) :: u8) = bs ! i"
    by (intro bit_word_eqI) simp
  with i show "le_bytes n (le_word bs :: 'a word) ! i = bs ! i"
    by (simp add: nth_le_bytes)
qed (use assms in simp)

section \<open>Reads of a byte buffer\<close>

text \<open>
  \<open>rd_le n bs off\<close> is \<open>memcpy(&v, bs + off, n)\<close> into an integer; \<open>rd_at\<close> is
  \<open>bs[off]\<close>.
\<close>

definition rd_le :: "nat \<Rightarrow> u8 list \<Rightarrow> nat \<Rightarrow> 'a::len word option" where
  "rd_le n bs off = (if off + n \<le> length bs then Some (le_word (take n (drop off bs))) else None)"

definition rd_at :: "'a list \<Rightarrow> nat \<Rightarrow> 'a option" where
  "rd_at bs off = (if off < length bs then Some (bs ! off) else None)"

lemma rd_le_Some [rd_simps]:
  "off + n \<le> length bs \<Longrightarrow> rd_le n bs off = Some (le_word (take n (drop off bs)))"
  by (simp add: rd_le_def)

lemma rd_at_Some [rd_simps]: "off < length bs \<Longrightarrow> rd_at bs off = Some (bs ! off)"
  by (simp add: rd_at_def)

text \<open>\<open>p[off] = v\<close>.\<close>

definition wr_at :: "'a list \<Rightarrow> nat \<Rightarrow> 'a \<Rightarrow> 'a list option" where
  "wr_at xs off v = (if off < length xs then Some (xs[off := v]) else None)"

lemma wr_at_Some [rd_simps]: "off < length xs \<Longrightarrow> wr_at xs off v = Some (xs[off := v])"
  by (simp add: wr_at_def)

lemma rd_le_drop [rd_simps]:
  "k \<le> length bs \<Longrightarrow> rd_le n (drop k bs) off = rd_le n bs (k + off)"
  by (auto simp: rd_le_def add.commute)

section \<open>Folding an operation that may fault\<close>

fun foldM :: "('x \<Rightarrow> 's \<Rightarrow> 's option) \<Rightarrow> 'x list \<Rightarrow> 's \<Rightarrow> 's option" where
  "foldM f [] s = Some s"
| "foldM f (x # xs) s = Option.bind (f x s) (foldM f xs)"

lemma foldM_Nil_eq [simp]: "foldM f [] = Some"
  by (simp add: fun_eq_iff)

lemma foldM_Cons_eq: "foldM f (x # xs) = (\<lambda>s. Option.bind (f x s) (foldM f xs))"
  by (simp add: fun_eq_iff)

lemma foldM_append:
  "foldM f (xs @ ys) s = Option.bind (foldM f xs s) (foldM f ys)"
  by (induction xs arbitrary: s) (auto split: bind_split)

lemma foldM_map: "foldM f (map g xs) s = foldM (\<lambda>x. f (g x)) xs s"
  by (induction xs arbitrary: s) (auto split: bind_split)

lemma foldM_cong: "(\<And>x s. x \<in> set xs \<Longrightarrow> f x s = g x s) \<Longrightarrow> foldM f xs s = foldM g xs s"
  by (induction xs arbitrary: s) (auto intro!: Option.bind_cong)

lemma bind_None_const [simp]: "Option.bind x (\<lambda>_. None) = None"
  by (cases x) auto

lemma upt4: "[i..<i + 4] = [i, i + 1, i + 2, i + 3]"
  by (simp add: upt_conv_Cons eval_nat_numeral)

text \<open>Steps that first read their item: all reads can be done before the first action.\<close>

lemma those_append:
  "those (xs @ ys) = do { a \<leftarrow> those xs; b \<leftarrow> those ys; Some (a @ b) }"
  by (induction xs) (auto split: option.split bind_split)

lemma those_map_Some: "those (map (\<lambda>i. Some (g i)) is) = Some (map g is)"
  by (induction "is") auto

lemma length_those: "those xs = Some ys \<Longrightarrow> length ys = length xs"
  by (induction xs arbitrary: ys) (auto split: option.splits)

lemma foldM_reads:
  assumes "\<And>i s. step i s = Option.bind (rd i) (\<lambda>h. act h s)"
  shows "foldM step xs s = Option.bind (those (map rd xs)) (\<lambda>hs. foldM act hs s)"
proof (induction xs arbitrary: s)
  case (Cons x xs)
  then have IH: "foldM step xs = (\<lambda>s. Option.bind (those (map rd xs)) (\<lambda>hs. foldM act hs s))"
    by (simp add: fun_eq_iff)
  show ?case
    by (cases "rd x"; cases "those (map rd xs)") (simp_all add: assms [of x] IH foldM_Cons_eq)
qed simp

text \<open>A step that first reads its item, four times over.\<close>

lemma read4:
  assumes "\<And>i s. step i s = Option.bind (rd i) (\<lambda>h. act h s)"
  shows "foldM step [i0, i1, i2, i3] s = do {
    h0 \<leftarrow> rd i0; h1 \<leftarrow> rd i1; h2 \<leftarrow> rd i2; h3 \<leftarrow> rd i3; foldM act [h0, h1, h2, h3] s }"
proof (cases "rd i0 = None \<or> rd i1 = None \<or> rd i2 = None \<or> rd i3 = None")
  case True
  then show ?thesis by (auto simp: assms foldM_Cons_eq)
next
  case False
  then show ?thesis by (auto simp: assms foldM_Cons_eq)
qed

section \<open>Words\<close>

lemma unat_drop_bit_less:
  "unat (drop_bit n w :: 'a::len word) < 2 ^ (LENGTH('a) - n)"
proof (cases "n < LENGTH('a)")
  case True
  have "unat w < 2 ^ (LENGTH('a) - n) * 2 ^ n"
    using True unsigned_less [of w] by (simp flip: power_add)
  then show ?thesis
    by (simp add: unat_drop_bit_eq drop_bit_eq_div [where 'a = nat] less_mult_imp_div_less)
next
  case False
  then have "unat w < 2 ^ n"
    by (metis le_less_trans linorder_not_less one_le_numeral power_increasing unsigned_less
        order_less_le_trans)
  then show ?thesis
    by (simp add: unat_drop_bit_eq drop_bit_eq_div [where 'a = nat])
qed

lemma push_bit_one_neq_0 [simp]: "n < LENGTH('a) \<Longrightarrow> push_bit n (1 :: 'a::len word) \<noteq> 0"
  by (metis bit_push_bit_iff bit_1_iff bit_0_eq bot_apply bot_bool_def cancel_comm_monoid_add_class.diff_cancel
      le_refl possible_bit_word)

lemma unat_of_nat_small: "n < 2 ^ LENGTH('a) \<Longrightarrow> unat (of_nat n :: 'a::len word) = n"
  by (simp add: unsigned_of_nat take_bit_nat_eq_self)

lemma word_xor_eq_0_iff: "a XOR b = 0 \<longleftrightarrow> a = (b :: 'a::len word)"
  by (auto simp: bit_eq_iff bit_simps)

lemma or_absorb_iff: "(a :: 'a::len word) AND m = m \<longleftrightarrow> (\<forall>j. bit m j \<longrightarrow> bit a j)"
  by (auto simp: bit_eq_iff bit_simps dest: bit_imp_le_length)

end
