(* ===== verification/Qb_Machine.thy ===== *)
theory Qb_Machine
  imports Qb_Prelude
begin

text \<open>
  The machine under the C code: a heap of allocated blocks with the C library's
  \<open>malloc\<close>, \<open>posix_memalign\<close>, \<open>free\<close> and \<open>memset\<close>, and the AVX2 intrinsics that
  \<open>quickbloom.c\<close> uses, lane by lane as the instruction set defines them.

  A heap maps the base address of every live block to its contents. The allocator is not
  the program's: each call takes the address it hands out as an argument (\<open>0\<close> for a
  failed call), and theorems assume of that address only what the C library promises.
\<close>

section \<open>The heap\<close>

type_synonym addr = nat

abbreviation (input) NULL :: addr where
  "NULL \<equiv> 0"

datatype ('s, 'w) obj = Raw nat | Words "'w list" | Struct 's

type_synonym ('s, 'w) heap = "addr \<rightharpoonup> ('s, 'w) obj"

definition malloc :: "addr \<Rightarrow> nat \<Rightarrow> ('s, 'w) heap \<Rightarrow> addr \<times> ('s, 'w) heap" where
  "malloc ans nbytes h = (if ans = NULL then (NULL, h) else (ans, h(ans \<mapsto> Raw nbytes)))"

text \<open>The returned flag is \<open>posix_memalign(...) != 0\<close>.\<close>

definition posix_memalign ::
  "addr \<Rightarrow> nat \<Rightarrow> ('s, 'w) heap \<Rightarrow> bool \<times> addr \<times> ('s, 'w) heap" where
  "posix_memalign ans nbytes h =
     (if ans = NULL then (True, NULL, h) else (False, ans, h(ans \<mapsto> Raw nbytes)))"

definition free :: "addr \<Rightarrow> ('s, 'w) heap \<Rightarrow> ('s, 'w) heap option" where
  "free a h = (if a = NULL then Some h else if h a = None then None else Some (h(a := None)))"

text \<open>
  Initialising a fresh block in full with words of \<open>width\<close> bytes, zeros for \<open>memset\<close>
  or given ones for \<open>memcpy\<close>; a partly initialised block is not represented.
\<close>

definition init_block :: "nat \<Rightarrow> addr \<Rightarrow> 'w list \<Rightarrow> ('s, 'w) heap \<Rightarrow> ('s, 'w) heap option" where
  "init_block width a ws h =
     (case h a of
        Some (Raw nbytes) \<Rightarrow> if nbytes = width * length ws then Some (h(a \<mapsto> Words ws)) else None
      | _ \<Rightarrow> None)"

definition memset_zero :: "nat \<Rightarrow> addr \<Rightarrow> nat \<Rightarrow> ('s, 'w::zero) heap \<Rightarrow> ('s, 'w) heap option" where
  "memset_zero width a n h = init_block width a (replicate (n div width) 0) h"

definition write_struct :: "addr \<Rightarrow> 's \<Rightarrow> ('s, 'w) heap \<Rightarrow> ('s, 'w) heap option" where
  "write_struct a x h = (if h a = None then None else Some (h(a \<mapsto> Struct x)))"

definition read_struct :: "addr \<Rightarrow> ('s, 'w) heap \<Rightarrow> 's option" where
  "read_struct a h = (case h a of Some (Struct x) \<Rightarrow> Some x | _ \<Rightarrow> None)"

definition read_words :: "addr \<Rightarrow> ('s, 'w) heap \<Rightarrow> 'w list option" where
  "read_words a h = (case h a of Some (Words ws) \<Rightarrow> Some ws | _ \<Rightarrow> None)"

text \<open>What the C library promises of an address it returns: it is of no live block.\<close>

definition fresh :: "('s, 'w) heap \<Rightarrow> addr \<Rightarrow> bool" where
  "fresh h a \<longleftrightarrow> a = NULL \<or> h a = None"

lemma read_struct_Some [simp]: "h a = Some (Struct x) \<Longrightarrow> read_struct a h = Some x"
  by (simp add: read_struct_def)

lemma read_words_Some [simp]: "h a = Some (Words ws) \<Longrightarrow> read_words a h = Some ws"
  by (simp add: read_words_def)

lemma read_struct_eq: "read_struct a h = Some x \<longleftrightarrow> h a = Some (Struct x)"
  by (auto simp: read_struct_def split: option.splits obj.splits)

lemma read_words_eq: "read_words a h = Some ws \<longleftrightarrow> h a = Some (Words ws)"
  by (auto simp: read_words_def split: option.splits obj.splits)

text \<open>Reading and writing one word of a block, \<open>p[0]\<close> for a pointer \<open>p\<close> into it.\<close>

type_synonym wptr = "addr \<times> nat"

definition read_word :: "wptr \<Rightarrow> ('s, 'w) heap \<Rightarrow> 'w option" where
  "read_word p h = do { ws \<leftarrow> read_words (fst p) h; rd_at ws (snd p) }"

definition write_word :: "wptr \<Rightarrow> 'w \<Rightarrow> ('s, 'w) heap \<Rightarrow> ('s, 'w) heap option" where
  "write_word p w h = do {
     ws \<leftarrow> read_words (fst p) h;
     if snd p < length ws then Some (h(fst p \<mapsto> Words (ws[snd p := w]))) else None }"

lemma read_word_Some:
  "h a = Some (Words ws) \<Longrightarrow> i < length ws \<Longrightarrow> read_word (a, i) h = Some (ws ! i)"
  by (simp add: read_word_def rd_at_def)

lemma write_word_Some:
  "h a = Some (Words ws) \<Longrightarrow> i < length ws \<Longrightarrow> write_word (a, i) w h = Some (h(a \<mapsto> Words (ws[i := w])))"
  by (simp add: write_word_def)

section \<open>256-bit vectors\<close>

text \<open>
  A vector is the list of its eight 32-bit lanes, lane 0 (the least significant) first.
  A shift count above 31 gives a zero lane, as \<open>drop_bit\<close> and \<open>push_bit\<close> do on words.
\<close>

type_synonym m256i = "u32 list"

definition mm256_set_epi32 ::
  "u32 \<Rightarrow> u32 \<Rightarrow> u32 \<Rightarrow> u32 \<Rightarrow> u32 \<Rightarrow> u32 \<Rightarrow> u32 \<Rightarrow> u32 \<Rightarrow> m256i" where
  "mm256_set_epi32 e7 e6 e5 e4 e3 e2 e1 e0 = [e0, e1, e2, e3, e4, e5, e6, e7]"

definition mm256_set1_epi32 :: "u32 \<Rightarrow> m256i" where
  "mm256_set1_epi32 x = replicate 8 x"

definition mm256_mullo_epi32 :: "m256i \<Rightarrow> m256i \<Rightarrow> m256i" where
  "mm256_mullo_epi32 a b = map2 (*) a b"

definition mm256_srli_epi32 :: "m256i \<Rightarrow> nat \<Rightarrow> m256i" where
  "mm256_srli_epi32 a n = map (drop_bit n) a"

definition mm256_sllv_epi32 :: "m256i \<Rightarrow> m256i \<Rightarrow> m256i" where
  "mm256_sllv_epi32 a counts = map2 (\<lambda>x n. push_bit (unat n) x) a counts"

definition mm256_or_si256 :: "m256i \<Rightarrow> m256i \<Rightarrow> m256i" where
  "mm256_or_si256 a b = map2 (OR) a b"

text \<open>The carry flag of \<open>vptest\<close>: 1 when no bit of \<open>b\<close> is missing from \<open>a\<close>.\<close>

definition mm256_testc_si256 :: "m256i \<Rightarrow> m256i \<Rightarrow> nat" where
  "mm256_testc_si256 a b = (if list_all2 (\<lambda>x y. NOT x AND y = 0) a b then 1 else 0)"

text \<open>
  The aligned load and store take a pointer into a block of words: its base address and the
  offset in words. Both fault outside a live block and on an address that is not a multiple
  of 32 bytes.
\<close>

definition aligned32 :: "wptr \<Rightarrow> bool" where
  "aligned32 p \<longleftrightarrow> (fst p + 4 * snd p) mod 32 = 0"

definition mm256_load_si256 :: "wptr \<Rightarrow> ('s, u32) heap \<Rightarrow> m256i option" where
  "mm256_load_si256 p h = do {
     ws \<leftarrow> read_words (fst p) h;
     if aligned32 p \<and> snd p + 8 \<le> length ws then Some (take 8 (drop (snd p) ws)) else None }"

definition mm256_store_si256 :: "wptr \<Rightarrow> m256i \<Rightarrow> ('s, u32) heap \<Rightarrow> ('s, u32) heap option" where
  "mm256_store_si256 p v h = do {
     ws \<leftarrow> read_words (fst p) h;
     if aligned32 p \<and> snd p + 8 \<le> length ws
     then Some (h(fst p \<mapsto> Words (take (snd p) ws @ v @ drop (snd p + 8) ws))) else None }"

section \<open>The bits of a word array\<close>

text \<open>
  The abstract contents of a bit array: the set of its positions (word, bit) that are set.
  \<open>bits_at off m\<close> are the positions of the mask \<open>m\<close> laid over the words from \<open>off\<close> on,
  \<open>or_at off m ws\<close> is the array after that mask has been set in it.
\<close>

definition bitset :: "'a::len word list \<Rightarrow> (nat \<times> nat) set" where
  "bitset ws = {(i, j). i < length ws \<and> bit (ws ! i) j}"

definition bits_at :: "nat \<Rightarrow> 'a::len word list \<Rightarrow> (nat \<times> nat) set" where
  "bits_at off m = {(i, j). off \<le> i \<and> i < off + length m \<and> bit (m ! (i - off)) j}"

definition or_at :: "nat \<Rightarrow> 'a::len word list \<Rightarrow> 'a word list \<Rightarrow> 'a word list" where
  "or_at off m ws =
     take off ws @ map2 (OR) (take (length m) (drop off ws)) m @ drop (off + length m) ws"

definition covered_at :: "nat \<Rightarrow> 'a::len word list \<Rightarrow> 'a word list \<Rightarrow> bool" where
  "covered_at off m ws \<longleftrightarrow> bits_at off m \<subseteq> bitset ws"

lemma length_or_at [simp]: "off + length m \<le> length ws \<Longrightarrow> length (or_at off m ws) = length ws"
  by (simp add: or_at_def)

lemma nth_or_at:
  "off + length m \<le> length ws \<Longrightarrow> i < length ws \<Longrightarrow>
     or_at off m ws ! i =
       (if off \<le> i \<and> i < off + length m then ws ! i OR m ! (i - off) else ws ! i)"
  by (auto simp: or_at_def nth_append add.commute)

lemma bitset_or_at:
  "off + length m \<le> length ws \<Longrightarrow> bitset (or_at off m ws) = bitset ws \<union> bits_at off m"
  by (auto simp: bitset_def bits_at_def nth_or_at bit_simps split: if_splits)

lemma bitset_inj:
  assumes "length ws = length vs" and "bitset ws = bitset vs"
  shows "ws = vs"
proof (rule nth_equalityI)
  fix i assume "i < length ws"
  then have "bit (ws ! i) j \<longleftrightarrow> bit (vs ! i) j" for j
    using assms by (auto simp: bitset_def set_eq_iff)
  then show "ws ! i = vs ! i" by (simp add: bit_eq_iff)
qed (use assms in simp)

lemma bitset_replicate_0 [simp]: "bitset (replicate n 0) = {}"
  by (auto simp: bitset_def)

lemma covered_at_iff:
  assumes "off + length m \<le> length ws"
  shows "covered_at off m ws \<longleftrightarrow> (\<forall>i < length m. ws ! (off + i) AND m ! i = m ! i)"
proof
  assume *: "covered_at off m ws"
  show "\<forall>i < length m. ws ! (off + i) AND m ! i = m ! i"
  proof (intro allI impI)
    fix i assume "i < length m"
    with * have "bit (m ! i) j \<longrightarrow> bit (ws ! (off + i)) j" for j
      using assms by (auto simp: covered_at_def bits_at_def bitset_def dest!: subsetD [of _ _ "(off + i, j)"])
    then show "ws ! (off + i) AND m ! i = m ! i" by (simp add: or_absorb_iff)
  qed
next
  assume *: "\<forall>i < length m. ws ! (off + i) AND m ! i = m ! i"
  show "covered_at off m ws"
    unfolding covered_at_def
  proof
    fix x assume "x \<in> bits_at off m"
    then obtain i j where x: "x = (off + i, j)" and i: "i < length m" and b: "bit (m ! i) j"
      by (auto simp: bits_at_def) (metis add_diff_inverse_nat nat_add_left_cancel_less not_less)
    from * i have "bit m' j \<longrightarrow> bit (ws ! (off + i)) j" if "m' = m ! i" for m'
      using that or_absorb_iff by blast
    with x i b assms show "x \<in> bitset ws" by (auto simp: bitset_def)
  qed
qed

lemma testc_lane: "NOT x AND y = 0 \<longleftrightarrow> x AND y = (y :: 'a::len word)"
  by (auto simp: bit_eq_iff bit_simps)

lemma testc_eq:
  assumes "length m = 8" and "off + 8 \<le> length ws"
  shows "mm256_testc_si256 (take 8 (drop off ws)) m = (if covered_at off m ws then 1 else 0)"
  using assms
  by (simp add: mm256_testc_si256_def covered_at_iff list_all2_conv_all_nth testc_lane)

text \<open>Loading a block, OR-ing a mask and storing it back is \<open>or_at\<close>.\<close>

lemma load_or_store:
  assumes "h a = Some (Words ws)" and "aligned32 (a, off)" and "off + 8 \<le> length ws"
    and "length m = 8"
  shows "do { cur \<leftarrow> mm256_load_si256 (a, off) h; mm256_store_si256 (a, off) (mm256_or_si256 cur m) h }
         = Some (h(a \<mapsto> Words (or_at off m ws)))"
  using assms
  by (simp add: mm256_load_si256_def mm256_store_si256_def mm256_or_si256_def or_at_def)

end
