(* ===== verification/Qb_Hash.thy ===== *)
theory Qb_Hash
  imports Qb_Machine
begin

text \<open>
  The hash functions of \<open>quickbloom.c\<close>: \<open>hash16\<close>, \<open>fasthash64_var\<close> and the dispatch
  \<open>bloom_hash\<close>. A key is the list of bytes that can be read from its pointer; reading past
  it faults. The lemmas show that the block loop and the fall-through switch compute one fold
  over the key's zero-padded 64-bit words, which keys can be hashed, and where no two keys
  collide.
\<close>

section \<open>Definitions\<close>

definition hash16_product :: "u64 \<Rightarrow> u64 \<Rightarrow> u128" where
  "hash16_product a b =
     (let a = a XOR 0x736f6d6570736575; b = b XOR 0x646f72616e646f6d in ucast a * ucast b)"

definition hash16 :: "u8 list \<Rightarrow> u64 option" where
  "hash16 data = do {
     a \<leftarrow> rd_le 8 data 0;
     b \<leftarrow> rd_le 8 data 8;
     let r = hash16_product a b;
     Some (ucast r XOR ucast (drop_bit 64 r)) }"

definition fh_M :: u64 where
  "fh_M = 0x880355f21e6d1965"

text \<open>\<open>k *= M; k ^= k >> 23; k *= M\<close>, for a block and for the tail.\<close>

definition fh_mix :: "u64 \<Rightarrow> u64" where
  "fh_mix k = (let k = k * fh_M; k = k XOR drop_bit 23 k in k * fh_M)"

definition fh_step :: "u64 \<Rightarrow> u64 \<Rightarrow> u64" where
  "fh_step h k = (h XOR fh_mix k) * fh_M"

definition fh_final :: "u64 \<Rightarrow> u64" where
  "fh_final h =
     (let h = h XOR drop_bit 23 h; h = h * 0x2127599bf4325c37 in h XOR drop_bit 47 h)"

text \<open>The block loop, with the number of blocks left and the loop counter.\<close>

fun fh_blocks :: "u8 list \<Rightarrow> nat \<Rightarrow> nat \<Rightarrow> u64 \<Rightarrow> u64 option" where
  "fh_blocks p 0 i h = Some h"
| "fh_blocks p (Suc r) i h = do { k \<leftarrow> rd_le 8 p (i * 8); fh_blocks p r (Suc i) (fh_step h k) }"

text \<open>
  The switch over the tail: label \<open>Suc k\<close> xors in \<open>tail[k] << 8*k\<close> and falls through to
  label \<open>k\<close>.
\<close>

fun fh_tail :: "u8 list \<Rightarrow> nat \<Rightarrow> nat \<Rightarrow> u64 \<Rightarrow> u64 option" where
  "fh_tail p tail 0 t = Some t"
| "fh_tail p tail (Suc k) t = do {
     x \<leftarrow> rd_at p (tail + k);
     fh_tail p tail k (t XOR push_bit (8 * k) (ucast x)) }"

definition fasthash64_var :: "u8 list \<Rightarrow> nat \<Rightarrow> u64 option" where
  "fasthash64_var data len = do {
     let nblocks = len div 8;
     h \<leftarrow> fh_blocks data nblocks 0 (of_nat len * fh_M);
     h \<leftarrow> (if len mod 8 = 0 then Some h
           else do { t \<leftarrow> fh_tail data (nblocks * 8) (len mod 8) 0; Some (fh_step h t) });
     Some (fh_final h) }"

definition bloom_hash :: "u8 list \<Rightarrow> nat \<Rightarrow> u64 option" where
  "bloom_hash data len = (if len = 16 then hash16 data else fasthash64_var data len)"

section \<open>The hash as a function of the key's bytes\<close>

text \<open>A byte string as little-endian 64-bit words, the last one padded with zeros.\<close>

function words_of :: "u8 list \<Rightarrow> u64 list" where
  "words_of bs = (if bs = [] then [] else le_word (take 8 bs) # words_of (drop 8 bs))"
  by pat_completeness auto
termination
  by (relation "measure length") auto

declare words_of.simps [simp del]

lemma words_of_Nil [simp]: "words_of [] = []"
  by (simp add: words_of.simps)

lemma words_of_short: "bs \<noteq> [] \<Longrightarrow> length bs \<le> 8 \<Longrightarrow> words_of bs = [le_word bs]"
  by (simp add: words_of.simps [of bs])

lemma words_of_append:
  "length xs = 8 * n \<Longrightarrow> words_of (xs @ ys) = words_of xs @ words_of ys"
proof (induction n arbitrary: xs)
  case (Suc n)
  then have "xs \<noteq> []" and "length (drop 8 xs) = 8 * n" by auto
  with Suc show ?case
    by (simp add: words_of.simps [of "xs @ ys"] words_of.simps [of xs])
qed simp

definition fasthash_spec :: "u8 list \<Rightarrow> u64" where
  "fasthash_spec key = fh_final (foldl fh_step (of_nat (length key) * fh_M) (words_of key))"

definition hash16_spec :: "u8 list \<Rightarrow> u64" where
  "hash16_spec key =
     (let r = hash16_product (le_word (take 8 key)) (le_word (drop 8 key))
      in ucast r XOR ucast (drop_bit 64 r))"

lemma fh_blocks_eq:
  "8 * (i + r) \<le> length p \<Longrightarrow>
     fh_blocks p r i h = Some (foldl fh_step h (words_of (take (8 * r) (drop (8 * i) p))))"
proof (induction r arbitrary: i h)
  case (Suc r)
  let ?q = "drop (8 * i) p"
  have split: "take (8 * Suc r) ?q = take 8 ?q @ take (8 * r) (drop (8 * Suc i) p)"
    using Suc.prems by (simp add: take_add add.commute)
  have "words_of (take 8 ?q) = [le_word (take 8 ?q)]"
    using Suc.prems by (intro words_of_short) auto
  moreover have "length (take 8 ?q) = 8 * 1" using Suc.prems by simp
  ultimately have "words_of (take (8 * Suc r) ?q)
      = le_word (take 8 ?q) # words_of (take (8 * r) (drop (8 * Suc i) p))"
    unfolding split by (subst words_of_append [where n = 1]) simp_all
  then show ?case
    using Suc by (simp add: rd_le_Some mult.commute [of i])
qed simp

lemma le_word_snoc:
  "(le_word (xs @ [x]) :: 'a::len word) = push_bit (8 * length xs) (ucast x) XOR le_word xs"
proof (rule bit_word_eqI)
  fix j assume j: "j < LENGTH('a)"
  consider "j div 8 < length xs" | "j div 8 = length xs" | "length xs < j div 8" by linarith
  then show "bit (le_word (xs @ [x]) :: 'a word) j
      \<longleftrightarrow> bit (push_bit (8 * length xs) (ucast x) XOR le_word xs :: 'a word) j"
  proof cases
    case 1
    then have "j < 8 * length xs" by (simp add: div_less_iff_less_mult mult.commute)
    with 1 j show ?thesis by (auto simp: bit_simps bit_le_word nth_append)
  next
    case 2
    then have "8 * length xs \<le> j" and "j - 8 * length xs = j mod 8"
      by (auto simp: modulo_nat_def mult.commute)
    with 2 j show ?thesis by (auto simp: bit_simps bit_le_word nth_append)
  next
    case 3
    then have "8 * length xs \<le> j" and "8 \<le> j - 8 * length xs"
      by (simp_all add: less_eq_div_iff_mult_less_eq [symmetric] Suc_le_eq)
    with 3 j show ?thesis by (auto simp: bit_simps bit_le_word nth_append dest: bit_imp_le_length)
  qed
qed

lemma fh_tail_eq:
  "base + n \<le> length p \<Longrightarrow> fh_tail p base n t = Some (t XOR le_word (take n (drop base p)))"
proof (induction n arbitrary: t)
  case (Suc n)
  then have "take (Suc n) (drop base p) = take n (drop base p) @ [p ! (base + n)]"
    by (simp add: take_Suc_conv_app_nth)
  with Suc show ?case
    by (simp add: rd_at_Some le_word_snoc ac_simps)
qed simp

lemma fh_blocks_None: "length p < 8 * (i + r) \<Longrightarrow> 0 < r \<Longrightarrow> fh_blocks p r i h = None"
proof (induction r arbitrary: i h)
  case (Suc r)
  show ?case
  proof (cases "r = 0")
    case True
    with Suc.prems show ?thesis by (simp add: rd_le_def)
  next
    case False
    with Suc show ?thesis by (cases "rd_le 8 p (i * 8) :: u64 option") auto
  qed
qed simp

lemma fh_tail_None: "length p < base + n \<Longrightarrow> 0 < n \<Longrightarrow> fh_tail p base n t = None"
  by (cases n) (auto simp: rd_at_def)

lemma fasthash64_var_eq:
  assumes "len \<le> length data"
  shows "fasthash64_var data len = Some (fasthash_spec (take len data))"
proof -
  let ?nb = "len div 8" and ?r = "len mod 8"
  let ?blocks = "take (8 * ?nb) data" and ?tail = "take ?r (drop (8 * ?nb) data)"
  have len: "8 * ?nb + ?r = len" by simp
  with assms have le: "8 * ?nb \<le> length data" "8 * ?nb + ?r \<le> length data" by linarith+
  have "take len data = ?blocks @ ?tail" by (subst len [symmetric], simp only: take_add)
  moreover have "length ?blocks = 8 * ?nb" using le by simp
  ultimately have words: "words_of (take len data) = words_of ?blocks @ words_of ?tail"
    by (simp only: words_of_append)
  have tl: "length ?tail = ?r" using le(2) by (simp only: length_take length_drop)
  have "?r < 8" by simp
  then have "words_of ?tail = (if ?r = 0 then [] else [le_word ?tail])"
    using tl by (cases "?r = 0") (auto intro!: words_of_short simp del: length_take length_drop)
  then show ?thesis
    using assms le words
    by (simp add: fasthash64_var_def fasthash_spec_def fh_blocks_eq fh_tail_eq min_def
        mult.commute [of ?nb] Let_def)
qed

lemma fasthash64_var_None:
  assumes "length data < len"
  shows "fasthash64_var data len = None"
proof (cases "length data < 8 * (len div 8)")
  case True
  then have "0 < len div 8" by (cases "len div 8") auto
  with True show ?thesis by (simp add: fasthash64_var_def fh_blocks_None)
next
  case False
  have "8 * (len div 8) + len mod 8 = len" by simp
  with False assms have "length data < len div 8 * 8 + len mod 8" and "0 < len mod 8" by linarith+
  with False show ?thesis
    by (simp add: fasthash64_var_def fh_blocks_eq fh_tail_None)
qed

lemma hash16_eq: "16 \<le> length data \<Longrightarrow> hash16 data = Some (hash16_spec (take 16 data))"
  by (simp add: hash16_def hash16_spec_def rd_le_Some drop_take Let_def)

lemma hash16_None: "length data < 16 \<Longrightarrow> hash16 data = None"
  by (auto simp: hash16_def rd_le_def)

definition key_hash :: "u8 list \<Rightarrow> u64" where
  "key_hash key = (if length key = 16 then hash16_spec key else fasthash_spec key)"

lemma bloom_hash_eq:
  "bloom_hash data len = (if len \<le> length data then Some (key_hash (take len data)) else None)"
  by (auto simp: bloom_hash_def key_hash_def hash16_eq hash16_None fasthash64_var_eq
      fasthash64_var_None min_def)

section \<open>Where keys cannot collide\<close>

text \<open>
  Every step of fasthash is invertible: the multipliers are odd (their inverses are given),
  and a right shift xored in can be undone from the top bit down.
\<close>

lemma inj_mult_unit:
  fixes c d :: "'a::len word"
  assumes "d * c = 1"
  shows "inj (\<lambda>x. x * c)"
proof (rule injI)
  fix x y assume "x * c = y * c"
  then have "x * (d * c) = y * (d * c)" by (metis mult.assoc mult.commute)
  with assms show "x = y" by simp
qed

lemma inj_xorshift:
  assumes "0 < n"
  shows "inj (\<lambda>x. x XOR drop_bit n x :: 'a::len word)"
proof (rule injI)
  fix x y :: "'a word" assume eq: "x XOR drop_bit n x = y XOR drop_bit n y"
  have "bit x j = bit y j" for j
  proof (induction "LENGTH('a) - j" arbitrary: j rule: less_induct)
    case less
    show ?case
    proof (cases "j < LENGTH('a)")
      case True
      then have "bit x (n + j) = bit y (n + j)"
        using less [of "n + j"] assms by simp
      moreover from eq have "bit (x XOR drop_bit n x) j = bit (y XOR drop_bit n y) j" by simp
      ultimately show ?thesis using True by (auto simp: bit_simps)
    next
      case False
      then show ?thesis by (auto dest: bit_imp_le_length)
    qed
  qed
  then show "x = y" by (simp add: bit_eq_iff)
qed

lemma inj_fh_M: "inj (\<lambda>k. k * fh_M)"
  by (rule inj_mult_unit [where d = "0x28fc23783fb0706d"]) (simp add: fh_M_def)

lemma inj_fh_mix: "inj fh_mix"
proof -
  have eq: "fh_mix = (\<lambda>k. k * fh_M) \<circ> (\<lambda>k. k XOR drop_bit 23 k) \<circ> (\<lambda>k. k * fh_M)"
    by (simp add: fh_mix_def fun_eq_iff Let_def)
  show ?thesis unfolding eq by (intro inj_compose inj_fh_M inj_xorshift) simp
qed

lemma inj_fh_step: "inj (fh_step h)"
proof (rule injI)
  fix k k' assume "fh_step h k = fh_step h k'"
  then have "h XOR fh_mix k = h XOR fh_mix k'"
    unfolding fh_step_def by (rule injD [OF inj_fh_M])
  then have "h XOR (h XOR fh_mix k) = h XOR (h XOR fh_mix k')" by simp
  then have "fh_mix k = fh_mix k'" by (simp flip: xor.assoc)
  then show "k = k'" by (rule injD [OF inj_fh_mix])
qed

lemma inj_fh_final: "inj fh_final"
proof -
  have inj: "inj (\<lambda>h :: u64. h * 0x2127599bf4325c37)"
    by (rule inj_mult_unit [where d = "0xa1bcefb14d101987"]) simp
  have eq: "fh_final = (\<lambda>h. h XOR drop_bit 47 h) \<circ> (\<lambda>h. h * 0x2127599bf4325c37)
      \<circ> (\<lambda>h. h XOR drop_bit 23 h)"
    by (simp add: fh_final_def fun_eq_iff Let_def)
  show ?thesis unfolding eq by (intro inj_compose inj inj_xorshift) simp_all
qed

lemma le_word_inj:
  assumes "length xs = length ys" and "8 * length xs \<le> LENGTH('a)"
    and "(le_word xs :: 'a::len word) = le_word ys"
  shows "xs = ys"
  using le_bytes_le_word [OF refl, of xs, where 'a = 'a]
    le_bytes_le_word [OF refl, of ys, where 'a = 'a] assms by metis

lemma fasthash_spec_inj:
  assumes "length k = length k'" and "length k \<le> 8" and "fasthash_spec k = fasthash_spec k'"
  shows "k = k'"
proof (cases "k = []")
  case False
  with assms(1) have "k' \<noteq> []" by auto
  with False assms have "fh_step (of_nat (length k) * fh_M) (le_word k)
      = fh_step (of_nat (length k) * fh_M) (le_word k')"
    using injD [OF inj_fh_final] by (auto simp: fasthash_spec_def words_of_short)
  then have "le_word k = (le_word k' :: u64)" by (rule injD [OF inj_fh_step])
  with assms show ?thesis by (intro le_word_inj [where 'a = 64]) auto
qed (use assms in auto)

text \<open>
  The 128-bit product of \<open>hash16\<close> never wraps, so it is zero only where one of the two
  whitened halves is.
\<close>

lemma ucast_mult_128: "unat (ucast (a :: u64) * ucast (b :: u64) :: u128) = unat a * unat b"
proof -
  have "unat a * unat b < 2 ^ 64 * 2 ^ 64"
    by (intro mult_strict_mono) (use unsigned_less [of a] unsigned_less [of b] in auto)
  moreover have "take_bit 128 (unat w) = unat w" for w :: u64
    using unsigned_less [of w, where 'a = nat] by (simp add: take_bit_nat_eq_self)
  ultimately show ?thesis by (simp add: unat_word_ariths unsigned_ucast_eq)
qed

lemma hash16_product_eq_0:
  "hash16_product a b = 0 \<longleftrightarrow> a = 0x736f6d6570736575 \<or> b = 0x646f72616e646f6d"
proof -
  have "hash16_product a b = 0 \<longleftrightarrow> a XOR 0x736f6d6570736575 = 0 \<or> b XOR 0x646f72616e646f6d = 0"
    unfolding hash16_product_def Let_def
    by (simp add: ucast_mult_128 flip: unat_eq_zero)
  also have "\<dots> \<longleftrightarrow> a = 0x736f6d6570736575 \<or> b = 0x646f72616e646f6d"
    by (simp only: word_xor_eq_0_iff)
  finally show ?thesis .
qed

section \<open>Properties\<close>

text \<open>C40: \<open>bloom_hash\<close> reads exactly the first \<open>len\<close> bytes of its buffer: it faults when the
  buffer is shorter, and otherwise its value is the specified hash of those bytes, the
  128-bit folded product for 16 bytes and the fold over zero-padded little-endian words for
  every other length.\<close>

theorem bloom_hash_correct:
  "bloom_hash data len =
     (if len \<le> length data
      then Some (if len = 16 then hash16_spec (take len data) else fasthash_spec (take len data))
      else None)"
  by (simp add: bloom_hash_eq key_hash_def)

text \<open>\<open>fasthash64_var\<close> never maps two different keys of the same length up to 8 bytes to
  the same 64-bit value: every step of it is invertible.\<close>

theorem fasthash_no_short_collision:
  assumes "length k = length k'" and "length k \<le> 8" and "k \<noteq> k'"
  shows "fasthash64_var k (length k) \<noteq> fasthash64_var k' (length k')"
  using fasthash_spec_inj [OF assms(1,2)] assms(3) by (auto simp: fasthash64_var_eq)

theorem fasthash_no_short_collision_witness:
  "fasthash64_var [1, 2, 3] 3 \<noteq> fasthash64_var [1, 2, 4] 3"
  using fasthash_no_short_collision [of "[1, 2, 3]" "[1, 2, 4]"] by (simp add: eval_nat_numeral)

text \<open>The whitened product of \<open>hash16\<close> does not degenerate on keys with a zero half: it is
  zero only where a half equals its whitening constant, and the hash of any key whose first
  half is zero and whose second is not that constant comes from a nonzero product.\<close>

theorem hash16_product_nonzero:
  "(hash16_product a b = 0) = (a = 0x736f6d6570736575 \<or> b = 0x646f72616e646f6d) \<and>
   (hash16_product 0 b = 0) = (b = 0x646f72616e646f6d) \<and>
   (hash16_product a 0 = 0) = (a = 0x736f6d6570736575)"
  by (simp add: hash16_product_eq_0)

end
