(* ===== verification/Qb_Contract.thy ===== *)
theory Qb_Contract
  imports Qb_Machine
begin

text \<open>
  The interface every filter of the repository offers and the contract its clients rely on:
  an insertion adds the item's footprint to the set bits and keeps the filter well formed, a
  query answers whether the footprint is covered. What a user of a Bloom filter is promised
  (no false negatives, answers never turn back, insertion order and repetition do not matter)
  is proved once here, for any implementation of the contract.
\<close>

locale bloom_filter =
  fixes ok :: "'s \<Rightarrow> bool"
    and ins :: "'h \<Rightarrow> 's \<Rightarrow> 's option"
    and qry :: "'h \<Rightarrow> 's \<Rightarrow> bool option"
    and contents :: "'s \<Rightarrow> 'a set"
    and fp :: "'h \<Rightarrow> 'a set"
  assumes ins_law: "ok s \<Longrightarrow> \<exists>s'. ins x s = Some s' \<and> ok s' \<and> contents s' = contents s \<union> fp x"
    and qry_law: "ok s \<Longrightarrow> qry x s = Some (fp x \<subseteq> contents s)"
begin

lemma ins_all:
  "ok s \<Longrightarrow>
     \<exists>s'. foldM ins xs s = Some s' \<and> ok s' \<and> contents s' = contents s \<union> \<Union> (fp ` set xs)"
proof (induction xs arbitrary: s)
  case Nil
  then show ?case by simp
next
  case (Cons x xs)
  from ins_law [OF Cons.prems] obtain t where
    t: "ins x s = Some t" "ok t" "contents t = contents s \<union> fp x" by blast
  from Cons.IH [OF t(2)] t show ?case by auto
qed

lemma ins_allE:
  assumes "ok s" and "foldM ins xs s = Some s'"
  shows "ok s'" and "contents s' = contents s \<union> \<Union> (fp ` set xs)"
  using ins_all [OF assms(1), of xs] assms(2) by auto

lemma qry_after:
  assumes "ok s" and "foldM ins xs s = Some s'"
  shows "qry x s' = Some (fp x \<subseteq> contents s \<union> \<Union> (fp ` set xs))"
  using ins_allE [OF assms] qry_law by simp

lemma no_false_negatives:
  assumes "ok s"
  shows "\<exists>s'. foldM ins xs s = Some s' \<and> (\<forall>x \<in> set xs. qry x s' = Some True)"
proof -
  obtain s' where s': "foldM ins xs s = Some s'" using ins_all [OF assms] by blast
  with qry_after [OF assms s'] show ?thesis by auto
qed

lemma stays_positive:
  assumes "ok s" and "qry x s = Some True" and "foldM ins xs s = Some s'"
  shows "qry x s' = Some True"
  using qry_after [OF assms(1,3)] qry_law [OF assms(1)] assms(2) by auto

lemma negative_not_inserted:
  assumes "ok s" and "foldM ins xs s = Some s'" and "qry x s' = Some False"
  shows "x \<notin> set xs" and "qry x s = Some False"
  using qry_after [OF assms(1,2)] qry_law [OF assms(1)] assms(3) by auto

lemma same_items_same_contents:
  assumes "ok s" and "set xs = set ys" and "foldM ins xs s = Some s1" and "foldM ins ys s = Some s2"
  shows "contents s1 = contents s2" and "qry x s1 = qry x s2"
  using ins_allE [OF assms(1,3)] ins_allE [OF assms(1,4)] qry_after [OF assms(1,3)]
    qry_after [OF assms(1,4)] assms(2) by auto

text \<open>Inserting an item that is already reported present changes no bit.\<close>

lemma present_ins_same:
  assumes "ok s" and "qry x s = Some True" and "ins x s = Some s'"
  shows "contents s' = contents s"
  using ins_law [OF assms(1), of x] qry_law [OF assms(1), of x] assms(2,3) by auto

end

end
