(* ===== verification/Qb_Filter.thy ===== *)
theory Qb_Filter
  imports Qb_Hash Qb_Contract
begin

text \<open>
  The single-key operations of \<open>quickbloom.c\<close>: the filter structure, \<open>mask_for\<close>,
  \<open>block_for\<close>, \<open>qb_insert\<close>, \<open>qb_contains\<close> and their pre-hashed forms, each a step on
  the heap that faults where the C access would. \<open>filter_at\<close> is the well-formedness invariant
  of a live filter; under it no operation faults and each implements the abstract one on the
  set of bits.
\<close>

section \<open>Definitions\<close>

record bloom_t =
  bits :: addr
  nblocks_mask :: size_t
  idx_shift :: u32

type_synonym qb_heap = "(bloom_t, u32) heap"

definition salt :: m256i where
  "salt = mm256_set_epi32
     0x5c6bfb31 0x9efc4947 0x2df1424b 0x705495c7
     0xa2b7289d 0x8824ad5b 0x44974d91 0x47b6137b"

definition mask_for :: "u32 \<Rightarrow> m256i" where
  "mask_for h32 =
     (let hbcast = mm256_set1_epi32 h32;
          prod = mm256_mullo_epi32 hbcast salt;
          shift = mm256_srli_epi32 prod 27;
          ones = mm256_set1_epi32 1
      in mm256_sllv_epi32 ones shift)"

text \<open>
  \<open>block_for\<close>: \<open>idx = (uint64_t)(h64 >> 32) >> b->idx_shift\<close>, as a pointer into the bits.
  The shift is undefined for a count of 64 or more.
\<close>

definition block_ptr :: "bloom_t \<Rightarrow> u64 \<Rightarrow> wptr" where
  "block_ptr b h64 =
     (let h32 = ucast (drop_bit 32 h64) :: u32;
          idx = drop_bit (unat (idx_shift b)) (ucast h32 :: size_t)
      in (bits b, unat idx * 8))"

definition block_for :: "bloom_t \<Rightarrow> u64 \<Rightarrow> wptr option" where
  "block_for b h64 = (if unat (idx_shift b) < 64 then Some (block_ptr b h64) else None)"

definition qb_insert :: "addr \<Rightarrow> u8 list \<Rightarrow> nat \<Rightarrow> qb_heap \<Rightarrow> qb_heap option" where
  "qb_insert p key len hp = do {
     h \<leftarrow> bloom_hash key len;
     b \<leftarrow> read_struct p hp;
     blk \<leftarrow> block_for b h;
     let m = mask_for (ucast h);
     cur \<leftarrow> mm256_load_si256 blk hp;
     mm256_store_si256 blk (mm256_or_si256 cur m) hp }"

definition qb_contains :: "addr \<Rightarrow> u8 list \<Rightarrow> nat \<Rightarrow> qb_heap \<Rightarrow> nat option" where
  "qb_contains p key len hp = do {
     h \<leftarrow> bloom_hash key len;
     b \<leftarrow> read_struct p hp;
     blk \<leftarrow> block_for b h;
     let m = mask_for (ucast h);
     cur \<leftarrow> mm256_load_si256 blk hp;
     Some (mm256_testc_si256 cur m) }"

definition qb_insert_prehash :: "addr \<Rightarrow> u64 \<Rightarrow> qb_heap \<Rightarrow> qb_heap option" where
  "qb_insert_prehash p h hp = do {
     b \<leftarrow> read_struct p hp;
     blk \<leftarrow> block_for b h;
     let m = mask_for (ucast h);
     cur \<leftarrow> mm256_load_si256 blk hp;
     mm256_store_si256 blk (mm256_or_si256 cur m) hp }"

definition qb_contains_prehash :: "addr \<Rightarrow> u64 \<Rightarrow> qb_heap \<Rightarrow> nat option" where
  "qb_contains_prehash p h hp = do {
     b \<leftarrow> read_struct p hp;
     blk \<leftarrow> block_for b h;
     let m = mask_for (ucast h);
     cur \<leftarrow> mm256_load_si256 blk hp;
     Some (mm256_testc_si256 cur m) }"

section \<open>The mask: one bit in each of eight words\<close>

definition salts :: "u32 list" where
  "salts = [0x47b6137b, 0x44974d91, 0x8824ad5b, 0xa2b7289d,
            0x705495c7, 0x2df1424b, 0x9efc4947, 0x5c6bfb31]"

lemma mask_for_eq:
  "mask_for h32 = map (\<lambda>s. push_bit (unat (drop_bit 27 (h32 * s))) 1) salts"
  by (simp add: mask_for_def salts_def salt_def mm256_set_epi32_def mm256_set1_epi32_def
      mm256_mullo_epi32_def mm256_srli_epi32_def mm256_sllv_epi32_def numeral_eq_Suc)

lemma length_mask_for [simp]: "length (mask_for h32) = 8"
  by (simp add: mask_for_eq salts_def)

lemma mask_shift_less: "unat (drop_bit 27 (w :: u32)) < 32"
  using unat_drop_bit_less [of 27 w] by simp

lemma mask_for_lane:
  assumes "i < 8"
  shows "\<exists>n < 32. \<forall>j. bit (mask_for h32 ! i) j \<longleftrightarrow> j = n"
proof -
  let ?n = "unat (drop_bit 27 (h32 * salts ! i))"
  have "i < length salts" using assms by (simp add: salts_def)
  then have "mask_for h32 ! i = push_bit ?n 1" by (simp add: mask_for_eq)
  with mask_shift_less [of "h32 * salts ! i"] have "bit (mask_for h32 ! i) j \<longleftrightarrow> j = ?n" for j
    by (auto simp: bit_simps)
  with mask_shift_less show ?thesis by blast
qed

section \<open>The filter in the heap\<close>

definition filter_at :: "qb_heap \<Rightarrow> addr \<Rightarrow> nat \<Rightarrow> bloom_t \<Rightarrow> u32 list \<Rightarrow> bool" where
  "filter_at hp p k b ws \<longleftrightarrow>
     hp p = Some (Struct b) \<and> hp (bits b) = Some (Words ws) \<and>
     p \<noteq> NULL \<and> bits b \<noteq> NULL \<and> bits b mod 32 = 0 \<and>
     k \<le> 31 \<and> nblocks_mask b = 2 ^ k - 1 \<and> idx_shift b = of_nat (32 - k) \<and>
     length ws = 8 * 2 ^ k"

text \<open>The block of a hash among \<open>2 ^ k\<close>: its upper \<open>k\<close> bits.\<close>

definition block_index :: "nat \<Rightarrow> u64 \<Rightarrow> nat" where
  "block_index k h = unat (drop_bit (64 - k) h)"

definition footprint :: "nat \<Rightarrow> u64 \<Rightarrow> (nat \<times> nat) set" where
  "footprint k h = bits_at (8 * block_index k h) (mask_for (ucast h))"

definition set_hash :: "nat \<Rightarrow> u64 \<Rightarrow> u32 list \<Rightarrow> u32 list" where
  "set_hash k h ws = or_at (8 * block_index k h) (mask_for (ucast h)) ws"

lemma block_index_less: "k \<le> 64 \<Longrightarrow> block_index k h < 2 ^ k"
  using unat_drop_bit_less [of "64 - k" h] by (simp add: block_index_def)

lemma upper_half_shift:
  "drop_bit n (ucast (ucast (drop_bit 32 h :: u64) :: u32) :: u64) = drop_bit (32 + n) h"
  by (rule bit_word_eqI) (auto simp: bit_simps ac_simps dest: bit_imp_le_length)

lemma block_for_eq:
  assumes "filter_at hp p k b ws"
  shows "block_for b h = Some (bits b, 8 * block_index k h)"
proof -
  from assms have k: "k \<le> 31" and "idx_shift b = of_nat (32 - k)" by (auto simp: filter_at_def)
  moreover have "unat (of_nat (32 - k) :: u32) = 32 - k" by (rule unat_of_nat_small) simp
  ultimately have "unat (idx_shift b) = 32 - k" by (simp only:)
  with k show ?thesis
    by (simp add: block_for_def block_ptr_def upper_half_shift block_index_def Let_def)
qed

lemma block_in_bounds:
  assumes "filter_at hp p k b ws"
  shows "8 * block_index k h + 8 \<le> length ws"
proof -
  have "block_index k h < 2 ^ k" using assms by (intro block_index_less) (simp add: filter_at_def)
  then have "8 * (block_index k h + 1) \<le> 8 * 2 ^ k" by (intro mult_le_mono2) simp
  with assms show ?thesis by (simp add: filter_at_def)
qed

lemma block_aligned: "filter_at hp p k b ws \<Longrightarrow> aligned32 (bits b, 8 * n)"
  by (simp add: filter_at_def aligned32_def mod_add_eq [symmetric])

lemma length_set_hash [simp]:
  "8 * block_index k h + 8 \<le> length ws \<Longrightarrow> length (set_hash k h ws) = length ws"
  by (simp add: set_hash_def)

lemma bitset_set_hash:
  "filter_at hp p k b ws \<Longrightarrow> bitset (set_hash k h ws) = bitset ws \<union> footprint k h"
  by (simp add: set_hash_def footprint_def bitset_or_at block_in_bounds)

lemma filter_at_update:
  assumes "filter_at hp p k b ws" and "length ws' = length ws"
  shows "filter_at (hp(bits b \<mapsto> Words ws')) p k b ws'"
  using assms by (auto simp: filter_at_def)

lemma insert_prehash_eq:
  assumes "filter_at hp p k b ws"
  shows "qb_insert_prehash p h hp = Some (hp(bits b \<mapsto> Words (set_hash k h ws)))"
proof -
  have "hp p = Some (Struct b)" and "hp (bits b) = Some (Words ws)"
    using assms by (auto simp: filter_at_def)
  then show ?thesis
    using load_or_store [where h = hp and a = "bits b" and m = "mask_for (ucast h)",
        OF _ block_aligned [OF assms] block_in_bounds [OF assms, of h]]
    by (simp add: qb_insert_prehash_def block_for_eq [OF assms] set_hash_def Let_def)
qed

lemma contains_prehash_eq:
  assumes "filter_at hp p k b ws"
  shows "qb_contains_prehash p h hp = Some (if footprint k h \<subseteq> bitset ws then 1 else 0)"
proof -
  have "hp p = Some (Struct b)" and "hp (bits b) = Some (Words ws)"
    using assms by (auto simp: filter_at_def)
  then show ?thesis
    using block_aligned [OF assms] block_in_bounds [OF assms, of h]
    by (simp add: qb_contains_prehash_def block_for_eq [OF assms] mm256_load_si256_def testc_eq
        covered_at_def footprint_def Let_def)
qed

text \<open>The keyed operations are the pre-hashed ones after \<open>bloom_hash\<close>.\<close>

lemma insert_via_prehash:
  "qb_insert p key len hp = Option.bind (bloom_hash key len) (\<lambda>h. qb_insert_prehash p h hp)"
  by (simp add: qb_insert_def qb_insert_prehash_def)

lemma contains_via_prehash:
  "qb_contains p key len hp = Option.bind (bloom_hash key len) (\<lambda>h. qb_contains_prehash p h hp)"
  by (simp add: qb_contains_def qb_contains_prehash_def)

section \<open>The contract, for hashes and for keys\<close>

definition qb_ok :: "addr \<Rightarrow> nat \<Rightarrow> bloom_t \<Rightarrow> qb_heap \<Rightarrow> bool" where
  "qb_ok p k b hp \<longleftrightarrow> (\<exists>ws. filter_at hp p k b ws)"

definition qb_bits :: "bloom_t \<Rightarrow> qb_heap \<Rightarrow> (nat \<times> nat) set" where
  "qb_bits b hp = (case read_words (bits b) hp of Some ws \<Rightarrow> bitset ws | None \<Rightarrow> {})"

definition qb_query_prehash :: "addr \<Rightarrow> u64 \<Rightarrow> qb_heap \<Rightarrow> bool option" where
  "qb_query_prehash p h hp = map_option (\<lambda>r. r \<noteq> 0) (qb_contains_prehash p h hp)"

definition qb_query :: "addr \<Rightarrow> u8 list \<Rightarrow> qb_heap \<Rightarrow> bool option" where
  "qb_query p key hp = map_option (\<lambda>r. r \<noteq> 0) (qb_contains p key (length key) hp)"

lemma qb_bits_eq: "filter_at hp p k b ws \<Longrightarrow> qb_bits b hp = bitset ws"
  by (simp add: qb_bits_def filter_at_def)

lemma insert_prehash_contract:
  assumes "qb_ok p k b hp"
  shows "\<exists>hp'. qb_insert_prehash p h hp = Some hp' \<and> qb_ok p k b hp'
     \<and> qb_bits b hp' = qb_bits b hp \<union> footprint k h"
proof -
  from assms obtain ws where f: "filter_at hp p k b ws" by (auto simp: qb_ok_def)
  then have f': "filter_at (hp(bits b \<mapsto> Words (set_hash k h ws))) p k b (set_hash k h ws)"
    by (rule filter_at_update) (simp add: block_in_bounds [OF f])
  with f show ?thesis
    by (auto simp: insert_prehash_eq qb_ok_def qb_bits_eq bitset_set_hash)
qed

lemma query_prehash_contract:
  "qb_ok p k b hp \<Longrightarrow> qb_query_prehash p h hp = Some (footprint k h \<subseteq> qb_bits b hp)"
  by (auto simp: qb_ok_def qb_query_prehash_def contains_prehash_eq qb_bits_eq)

lemma query_eq_prehash: "qb_query p key hp = qb_query_prehash p (key_hash key) hp"
  by (simp add: qb_query_def qb_query_prehash_def contains_via_prehash bloom_hash_eq)

interpretation pre: bloom_filter "qb_ok p k b" "qb_insert_prehash p" "qb_query_prehash p"
  "qb_bits b" "footprint k" for p k b
  by unfold_locales (simp_all add: insert_prehash_contract query_prehash_contract)

interpretation keyed: bloom_filter "qb_ok p k b" "\<lambda>key. qb_insert p key (length key)"
  "qb_query p" "qb_bits b" "\<lambda>key. footprint k (key_hash key)" for p k b
  by unfold_locales
    (simp_all add: insert_via_prehash bloom_hash_eq insert_prehash_contract query_eq_prehash
      query_prehash_contract)

section \<open>A concrete filter\<close>

text \<open>One block at address 32, its structure at 64, used to instantiate the properties.\<close>

definition demo_struct :: bloom_t where
  "demo_struct = \<lparr>bits = 32, nblocks_mask = 0, idx_shift = 32\<rparr>"

definition demo_heap :: qb_heap where
  "demo_heap = [64 \<mapsto> Struct demo_struct, 32 \<mapsto> Words (replicate 8 0)]"

lemma demo_filter: "filter_at demo_heap 64 0 demo_struct (replicate 8 0)"
  by (simp add: filter_at_def demo_heap_def demo_struct_def)

section \<open>Properties\<close>

lemma qb_contains_cases:
  "filter_at hp p k b ws \<Longrightarrow>
     qb_contains p key (length key) hp = Some 0 \<or> qb_contains p key (length key) hp = Some 1"
  by (simp add: contains_via_prehash bloom_hash_eq contains_prehash_eq)

text \<open>C2: no false negatives. On a live filter a sequence of \<open>qb_insert\<close> calls never faults, and
  afterwards \<open>qb_contains\<close> returns 1 for every inserted key, whatever the keys, their lengths
  and the earlier contents.\<close>

theorem qb_no_false_negatives:
  assumes "filter_at hp p k b ws"
  shows "\<exists>hp'. foldM (\<lambda>key. qb_insert p key (length key)) keys hp = Some hp' \<and>
     (\<forall>key \<in> set keys. qb_contains p key (length key) hp' = Some 1)"
proof -
  from assms have "qb_ok p k b hp" by (auto simp: qb_ok_def)
  from keyed.ins_all [OF this, of keys] obtain hp' where
    hp': "foldM (\<lambda>key. qb_insert p key (length key)) keys hp = Some hp'" "qb_ok p k b hp'"
      "qb_bits b hp' = qb_bits b hp \<union> \<Union> ((\<lambda>key. footprint k (key_hash key)) ` set keys)" by blast
  then obtain ws' where f: "filter_at hp' p k b ws'" by (auto simp: qb_ok_def)
  have "qb_contains p key (length key) hp' = Some 1" if "key \<in> set keys" for key
    using hp'(3) that by (simp add: contains_via_prehash bloom_hash_eq contains_prehash_eq [OF f] qb_bits_eq [OF f])
      blast
  with hp'(1) show ?thesis by blast
qed

theorem qb_no_false_negatives_witness:
  "\<exists>hp'. foldM (\<lambda>key. qb_insert 64 key (length key)) [[1, 2, 3], []] demo_heap = Some hp' \<and>
     qb_contains 64 [1, 2, 3] 3 hp' = Some 1 \<and> qb_contains 64 [] 0 hp' = Some 1"
  using qb_no_false_negatives [OF demo_filter, of "[[1, 2, 3], []]"] by (auto simp: eval_nat_numeral)

text \<open>The same for hashes the caller computed, \<open>qb_insert_prehash\<close> and
  \<open>qb_contains_prehash\<close>; no 64-bit value is exempt.\<close>

theorem qb_no_false_negatives_prehash:
  assumes "filter_at hp p k b ws"
  shows "\<exists>hp'. foldM (qb_insert_prehash p) hs hp = Some hp' \<and>
     (\<forall>h \<in> set hs. qb_contains_prehash p h hp' = Some 1)"
proof -
  from assms have "qb_ok p k b hp" by (auto simp: qb_ok_def)
  from pre.ins_all [OF this, of hs] obtain hp' where
    hp': "foldM (qb_insert_prehash p) hs hp = Some hp'" "qb_ok p k b hp'"
      "qb_bits b hp' = qb_bits b hp \<union> \<Union> (footprint k ` set hs)" by blast
  then obtain ws' where f: "filter_at hp' p k b ws'" by (auto simp: qb_ok_def)
  have "qb_contains_prehash p h hp' = Some 1" if "h \<in> set hs" for h
    using hp'(3) that by (simp add: contains_prehash_eq [OF f] qb_bits_eq [OF f]) blast
  with hp'(1) show ?thesis by blast
qed

theorem qb_no_false_negatives_prehash_witness:
  "\<exists>hp'. foldM (qb_insert_prehash 64) [0, 0xFFFFFFFFFFFFFFFF] demo_heap = Some hp' \<and>
     qb_contains_prehash 64 0 hp' = Some 1 \<and> qb_contains_prehash 64 0xFFFFFFFFFFFFFFFF hp' = Some 1"
  using qb_no_false_negatives_prehash [OF demo_filter, of "[0, 0xFFFFFFFFFFFFFFFF]"] by auto

text \<open>C3: \<open>qb_insert\<close> refines insertion into a set of bits. On a live filter and a readable key
  it does not fault, adds exactly the key's footprint to the set bits, keeps the filter well
  formed and touches no other block of memory; it faults when the key is shorter than
  \<open>len\<close>.\<close>

theorem qb_insert_refines:
  assumes "filter_at hp p k b ws"
  shows "if len \<le> length key
     then \<exists>hp' ws'. qb_insert p key len hp = Some hp' \<and> filter_at hp' p k b ws' \<and>
       bitset ws' = bitset ws \<union> footprint k (key_hash (take len key)) \<and>
       (\<forall>a. a \<noteq> bits b \<longrightarrow> hp' a = hp a)
     else qb_insert p key len hp = None"
  using filter_at_update [OF assms length_set_hash [OF block_in_bounds [OF assms]]]
  by (auto simp: insert_via_prehash bloom_hash_eq insert_prehash_eq [OF assms]
      bitset_set_hash [OF assms] intro!: exI)

theorem qb_insert_refines_witness:
  "\<exists>hp' ws'. qb_insert 64 [7, 8] 2 demo_heap = Some hp' \<and> filter_at hp' 64 0 demo_struct ws' \<and>
     bitset ws' = footprint 0 (key_hash [7, 8])"
  using qb_insert_refines [OF demo_filter, of 2 "[7, 8]"] by auto

text \<open>C4: \<open>qb_contains\<close> answers 1 exactly when every bit of the key's footprint is set, 0
  otherwise, faults only when the key is shorter than \<open>len\<close>, and changes nothing.\<close>

theorem qb_contains_exact:
  assumes "filter_at hp p k b ws"
  shows "qb_contains p key len hp =
     (if len \<le> length key
      then Some (if footprint k (key_hash (take len key)) \<subseteq> bitset ws then 1 else 0) else None)"
  by (simp add: contains_via_prehash bloom_hash_eq contains_prehash_eq [OF assms])

theorem qb_contains_exact_witness:
  "qb_contains 64 [7] 1 demo_heap
     = Some (if footprint 0 (key_hash [7]) \<subseteq> bitset (replicate 8 (0 :: u32)) then 1 else 0)"
  using qb_contains_exact [OF demo_filter, of "[7]" 1] by simp

text \<open>Order and repetition do not matter. Two insertion sequences with the same set of keys
  leave bit-identical filters.\<close>

theorem qb_insert_order_irrelevant:
  assumes "filter_at hp p k b ws" and "set keys = set keys'"
    and "foldM (\<lambda>key. qb_insert p key (length key)) keys hp = Some hp1"
    and "foldM (\<lambda>key. qb_insert p key (length key)) keys' hp = Some hp2"
  shows "read_words (bits b) hp1 = read_words (bits b) hp2"
proof -
  from assms(1) have ok: "qb_ok p k b hp" by (auto simp: qb_ok_def)
  from keyed.ins_allE [OF ok assms(3)] keyed.ins_allE [OF ok assms(4)]
  obtain ws1 ws2 where f: "filter_at hp1 p k b ws1" "filter_at hp2 p k b ws2"
    and bits: "qb_bits b hp1 = qb_bits b hp2"
    using assms(2) by (auto simp: qb_ok_def)
  then have "ws1 = ws2"
    by (intro bitset_inj) (auto simp: filter_at_def qb_bits_def)
  with f show ?thesis by (simp add: filter_at_def)
qed

theorem qb_insert_order_irrelevant_witness:
  "\<exists>hp1 hp2. foldM (\<lambda>key. qb_insert 64 key (length key)) [[1], [2], [1]] demo_heap = Some hp1 \<and>
     foldM (\<lambda>key. qb_insert 64 key (length key)) [[2], [1]] demo_heap = Some hp2 \<and>
     read_words 32 hp1 = read_words 32 hp2"
proof -
  have ok: "qb_ok 64 0 demo_struct demo_heap" using demo_filter by (auto simp: qb_ok_def)
  obtain hp1 hp2 where *: "foldM (\<lambda>key. qb_insert 64 key (length key)) [[1], [2], [1]] demo_heap = Some hp1"
    "foldM (\<lambda>key. qb_insert 64 key (length key)) [[2], [1]] demo_heap = Some hp2"
    using keyed.ins_all [OF ok, of "[[1], [2], [1]]"] keyed.ins_all [OF ok, of "[[2], [1]]"] by blast
  have "set [[1], [2], [1]] = set [[2], [1 :: u8]]" by auto
  from qb_insert_order_irrelevant [OF demo_filter this *]
  have "read_words 32 hp1 = read_words 32 hp2" by (simp add: demo_struct_def)
  with * show ?thesis by blast
qed

text \<open>Answers never turn back. What \<open>qb_contains\<close> reports present stays present under any
  further insertions, so a key reported absent was never inserted.\<close>

theorem qb_answers_monotone:
  assumes "filter_at hp p k b ws"
    and "foldM (\<lambda>key. qb_insert p key (length key)) keys hp = Some hp'"
    and "qb_contains p key (length key) hp' = Some 0"
  shows "qb_contains p key (length key) hp = Some 0 \<and> key \<notin> set keys"
proof -
  from assms(1) have ok: "qb_ok p k b hp" by (auto simp: qb_ok_def)
  have "qb_query p key hp' = Some False" using assms(3) by (simp add: qb_query_def)
  from keyed.negative_not_inserted [OF ok assms(2) this] qb_contains_cases [OF assms(1), of key]
  show ?thesis by (auto simp: qb_query_def)
qed

theorem qb_answers_monotone_witness:
  "\<exists>hp'. foldM (\<lambda>key. qb_insert 64 key (length key)) [[1]] demo_heap = Some hp' \<and>
     qb_contains 64 [2] 1 hp' = Some 0 \<and> [2] \<notin> set [[1 :: u8]]"
proof -
  have ok: "qb_ok 64 0 demo_struct demo_heap" using demo_filter by (auto simp: qb_ok_def)
  have run: "foldM (\<lambda>key. qb_insert 64 key (length key)) [[1]] demo_heap
      = Some (demo_heap(32 \<mapsto> Words (set_hash 0 (key_hash [1]) (replicate 8 0))))"
    by (simp add: insert_via_prehash bloom_hash_eq insert_prehash_eq [OF demo_filter] demo_struct_def)
  have "qb_contains 64 [2] (length [2 :: u8])
      (demo_heap(32 \<mapsto> Words (set_hash 0 (key_hash [1]) (replicate 8 0)))) = Some 0"
    by code_simp
  with qb_answers_monotone [OF demo_filter run this] run show ?thesis by auto
qed

text \<open>The mask of a hash has exactly one bit in each of its eight 32-bit lanes, at the
  position given by the top five bits of the product with the lane's salt; a footprint is
  eight bits of one block.\<close>

theorem mask_for_one_bit_per_lane:
  "map (\<lambda>m. {j. bit m j}) (mask_for h32) = map (\<lambda>s. {unat (h32 * s) div 2 ^ 27}) salts"
proof -
  have "{j. bit (push_bit (unat (drop_bit 27 w)) (1 :: u32)) j} = {unat w div 2 ^ 27}" for w :: u32
    using mask_shift_less [of w]
    by (auto simp: bit_simps unat_drop_bit_eq drop_bit_eq_div [where 'a = nat])
  then show ?thesis by (simp add: mask_for_eq)
qed

text \<open>Memory safety of the block access. On a live filter \<open>block_for\<close> never shifts out of
  range, and for every hash its pointer is 32-byte aligned and the whole 256-bit block lies
  inside the bit array.\<close>

theorem block_for_safe:
  assumes "filter_at hp p k b ws"
  shows "\<exists>i. block_for b h = Some (bits b, i) \<and> aligned32 (bits b, i) \<and> i + 8 \<le> length ws \<and>
     i = 8 * (unat h div 2 ^ (64 - k))"
  using block_for_eq [OF assms, of h] block_aligned [OF assms] block_in_bounds [OF assms, of h]
  by (auto simp: block_index_def unat_drop_bit_eq drop_bit_eq_div [where 'a = nat])

theorem block_for_safe_witness:
  "block_for demo_struct 0xFFFFFFFFFFFFFFFF = Some (32, 0) \<and> aligned32 (32, 0)"
  using block_for_safe [OF demo_filter, of "0xFFFFFFFFFFFFFFFF"] by (auto simp: demo_struct_def)

end
