(* ===== verification/Qb_Loops.thy ===== *)
theory Qb_Loops
  imports Qb_Prelude
begin

text \<open>
  The shape of the bulk loops: a counter runs to \<open>n\<close> and each step may fault; an unrolled
  front loop does \<open>w\<close> steps per round as long as \<open>w\<close> are left and hands its counter to the
  plain loop. Both are folds over the counter's values.
\<close>

locale counted_loop =
  fixes n :: nat
    and step :: "nat \<Rightarrow> 's \<Rightarrow> 's option"
    and rest :: "nat \<Rightarrow> 's \<Rightarrow> 's option"
  assumes rest_unfold: "rest i s = (if i < n then Option.bind (step i s) (rest (i + 1)) else Some s)"
begin

lemma rest_eq: "rest i s = foldM step [i..<n] s"
proof (induction "n - i" arbitrary: i s rule: less_induct)
  case less
  show ?case
  proof (cases "i < n")
    case True
    then have "rest (i + 1) = foldM step [i + 1..<n]"
      using less [of "i + 1"] by (intro ext) simp
    with True show ?thesis by (subst rest_unfold) (simp add: upt_conv_Cons)
  next
    case False
    then show ?thesis by (subst rest_unfold) simp
  qed
qed

end

locale unrolled_loop = counted_loop n step rest
  for n :: nat and step :: "nat \<Rightarrow> 's \<Rightarrow> 's option" and rest :: "nat \<Rightarrow> 's \<Rightarrow> 's option" +
  fixes w :: nat
    and unrolled :: "nat \<Rightarrow> 's \<Rightarrow> (nat \<times> 's) option"
  assumes width: "0 < w"
    and round: "i + w \<le> n \<Longrightarrow>
      unrolled i s = Option.bind (foldM step [i..<i + w] s) (unrolled (i + w))"
    and stop: "n < i + w \<Longrightarrow> unrolled i s = Some (i, s)"
begin

lemma unrolled_then_rest:
  "Option.bind (unrolled i s) (\<lambda>(i, s). rest i s) = foldM step [i..<n] s"
proof (induction "n - i" arbitrary: i s rule: less_induct)
  case less
  show ?case
  proof (cases "i + w \<le> n")
    case True
    then have "[i..<n] = [i..<i + w] @ [i + w..<n]"
      by (metis le_add1 le_add_diff_inverse upt_add_eq_append)
    with True less [of "i + w"] width show ?thesis
      by (simp add: round foldM_append)
  next
    case False
    then show ?thesis by (simp add: stop rest_eq)
  qed
qed

end

end
