(* ===== verification/Qb_Bulk.thy ===== *)
theory Qb_Bulk
  imports Qb_Filter Qb_Loops
begin

text \<open>
  The bulk operations of \<open>quickbloom.c\<close>: loops unrolled four keys at a time that compute
  four hashes, blocks and masks before they touch the bits, then a plain loop over the rest.
  Each is proved equal to the loop over the single-key operation, faults included.
\<close>

section \<open>Definitions\<close>

text \<open>The macro \<open>APPLY(P, M)\<close>.\<close>

definition apply_mask :: "wptr \<Rightarrow> m256i \<Rightarrow> qb_heap \<Rightarrow> qb_heap option" where
  "apply_mask q m hp = do {
     c \<leftarrow> mm256_load_si256 q hp;
     mm256_store_si256 q (mm256_or_si256 c m) hp }"

function insert_unrolled :: "addr \<Rightarrow> u8 list \<Rightarrow> nat \<Rightarrow> nat \<Rightarrow> qb_heap \<Rightarrow> (nat \<times> qb_heap) option" where
  "insert_unrolled p keys n i hp =
     (if i + 4 \<le> n then do {
        h0 \<leftarrow> hash16 (drop ((i + 0) * 16) keys);
        h1 \<leftarrow> hash16 (drop ((i + 1) * 16) keys);
        h2 \<leftarrow> hash16 (drop ((i + 2) * 16) keys);
        h3 \<leftarrow> hash16 (drop ((i + 3) * 16) keys);
        b \<leftarrow> read_struct p hp;
        p0 \<leftarrow> block_for b h0;
        p1 \<leftarrow> block_for b h1;
        p2 \<leftarrow> block_for b h2;
        p3 \<leftarrow> block_for b h3;
        let m0 = mask_for (ucast h0); m1 = mask_for (ucast h1);
            m2 = mask_for (ucast h2); m3 = mask_for (ucast h3)
        in do {
          hp \<leftarrow> apply_mask p0 m0 hp;
          hp \<leftarrow> apply_mask p1 m1 hp;
          hp \<leftarrow> apply_mask p2 m2 hp;
          hp \<leftarrow> apply_mask p3 m3 hp;
          insert_unrolled p keys n (i + 4) hp } }
      else Some (i, hp))"
  by pat_completeness auto
termination
  by (relation "measure (\<lambda>(p, keys, n, i, hp). n - i)") auto

function insert_rest :: "addr \<Rightarrow> u8 list \<Rightarrow> nat \<Rightarrow> nat \<Rightarrow> nat \<Rightarrow> qb_heap \<Rightarrow> qb_heap option" where
  "insert_rest p keys klen n i hp =
     (if i < n then do {
        hp \<leftarrow> qb_insert p (drop (i * klen) keys) klen hp;
        insert_rest p keys klen n (i + 1) hp }
      else Some hp)"
  by pat_completeness auto
termination
  by (relation "measure (\<lambda>(p, keys, klen, n, i, hp). n - i)") auto

definition qb_insert_bulk :: "addr \<Rightarrow> u8 list \<Rightarrow> nat \<Rightarrow> nat \<Rightarrow> qb_heap \<Rightarrow> qb_heap option" where
  "qb_insert_bulk p keys klen n hp = do {
     (i, hp) \<leftarrow> (if klen = 16 then insert_unrolled p keys n 0 hp else Some (0, hp));
     insert_rest p keys klen n i hp }"

function contains_unrolled ::
  "addr \<Rightarrow> u8 list \<Rightarrow> nat \<Rightarrow> qb_heap \<Rightarrow> nat \<Rightarrow> nat \<Rightarrow> (nat \<times> nat) option" where
  "contains_unrolled p keys n hp i hits =
     (if i + 4 \<le> n then do {
        h0 \<leftarrow> hash16 (drop ((i + 0) * 16) keys);
        h1 \<leftarrow> hash16 (drop ((i + 1) * 16) keys);
        h2 \<leftarrow> hash16 (drop ((i + 2) * 16) keys);
        h3 \<leftarrow> hash16 (drop ((i + 3) * 16) keys);
        b \<leftarrow> read_struct p hp;
        p0 \<leftarrow> block_for b h0;
        p1 \<leftarrow> block_for b h1;
        p2 \<leftarrow> block_for b h2;
        p3 \<leftarrow> block_for b h3;
        let m0 = mask_for (ucast h0); m1 = mask_for (ucast h1);
            m2 = mask_for (ucast h2); m3 = mask_for (ucast h3)
        in do {
          c0 \<leftarrow> mm256_load_si256 p0 hp;
          c1 \<leftarrow> mm256_load_si256 p1 hp;
          c2 \<leftarrow> mm256_load_si256 p2 hp;
          c3 \<leftarrow> mm256_load_si256 p3 hp;
          contains_unrolled p keys n hp (i + 4)
            (hits + mm256_testc_si256 c0 m0 + mm256_testc_si256 c1 m1
                  + mm256_testc_si256 c2 m2 + mm256_testc_si256 c3 m3) } }
      else Some (i, hits))"
  by pat_completeness auto
termination
  by (relation "measure (\<lambda>(p, keys, n, hp, i, hits). n - i)") auto

function contains_rest ::
  "addr \<Rightarrow> u8 list \<Rightarrow> nat \<Rightarrow> nat \<Rightarrow> qb_heap \<Rightarrow> nat \<Rightarrow> nat \<Rightarrow> nat option" where
  "contains_rest p keys klen n hp i hits =
     (if i < n then do {
        r \<leftarrow> qb_contains p (drop (i * klen) keys) klen hp;
        contains_rest p keys klen n hp (i + 1) (if r \<noteq> 0 then hits + 1 else hits) }
      else Some hits)"
  by pat_completeness auto
termination
  by (relation "measure (\<lambda>(p, keys, klen, n, hp, i, hits). n - i)") auto

definition qb_contains_bulk :: "addr \<Rightarrow> u8 list \<Rightarrow> nat \<Rightarrow> nat \<Rightarrow> qb_heap \<Rightarrow> nat option" where
  "qb_contains_bulk p keys klen n hp = do {
     (i, hits) \<leftarrow> (if klen = 16 then contains_unrolled p keys n hp 0 0 else Some (0, 0));
     contains_rest p keys klen n hp i hits }"

text \<open>The pre-hashed forms read \<open>hashes[i]\<close> instead of hashing a key.\<close>

function insert_prehash_unrolled ::
  "addr \<Rightarrow> u64 list \<Rightarrow> nat \<Rightarrow> nat \<Rightarrow> qb_heap \<Rightarrow> (nat \<times> qb_heap) option" where
  "insert_prehash_unrolled p hashes n i hp =
     (if i + 4 \<le> n then do {
        h0 \<leftarrow> rd_at hashes (i + 0);
        h1 \<leftarrow> rd_at hashes (i + 1);
        h2 \<leftarrow> rd_at hashes (i + 2);
        h3 \<leftarrow> rd_at hashes (i + 3);
        b \<leftarrow> read_struct p hp;
        p0 \<leftarrow> block_for b h0;
        p1 \<leftarrow> block_for b h1;
        p2 \<leftarrow> block_for b h2;
        p3 \<leftarrow> block_for b h3;
        let m0 = mask_for (ucast h0); m1 = mask_for (ucast h1);
            m2 = mask_for (ucast h2); m3 = mask_for (ucast h3)
        in do {
          hp \<leftarrow> apply_mask p0 m0 hp;
          hp \<leftarrow> apply_mask p1 m1 hp;
          hp \<leftarrow> apply_mask p2 m2 hp;
          hp \<leftarrow> apply_mask p3 m3 hp;
          insert_prehash_unrolled p hashes n (i + 4) hp } }
      else Some (i, hp))"
  by pat_completeness auto
termination
  by (relation "measure (\<lambda>(p, hashes, n, i, hp). n - i)") auto

function insert_prehash_rest :: "addr \<Rightarrow> u64 list \<Rightarrow> nat \<Rightarrow> nat \<Rightarrow> qb_heap \<Rightarrow> qb_heap option" where
  "insert_prehash_rest p hashes n i hp =
     (if i < n then do {
        h \<leftarrow> rd_at hashes i;
        hp \<leftarrow> qb_insert_prehash p h hp;
        insert_prehash_rest p hashes n (i + 1) hp }
      else Some hp)"
  by pat_completeness auto
termination
  by (relation "measure (\<lambda>(p, hashes, n, i, hp). n - i)") auto

definition qb_insert_prehash_bulk :: "addr \<Rightarrow> u64 list \<Rightarrow> nat \<Rightarrow> qb_heap \<Rightarrow> qb_heap option" where
  "qb_insert_prehash_bulk p hashes n hp = do {
     (i, hp) \<leftarrow> insert_prehash_unrolled p hashes n 0 hp;
     insert_prehash_rest p hashes n i hp }"

function contains_prehash_unrolled ::
  "addr \<Rightarrow> u64 list \<Rightarrow> nat \<Rightarrow> qb_heap \<Rightarrow> nat \<Rightarrow> nat \<Rightarrow> (nat \<times> nat) option" where
  "contains_prehash_unrolled p hashes n hp i hits =
     (if i + 4 \<le> n then do {
        h0 \<leftarrow> rd_at hashes (i + 0);
        h1 \<leftarrow> rd_at hashes (i + 1);
        h2 \<leftarrow> rd_at hashes (i + 2);
        h3 \<leftarrow> rd_at hashes (i + 3);
        b \<leftarrow> read_struct p hp;
        p0 \<leftarrow> block_for b h0;
        p1 \<leftarrow> block_for b h1;
        p2 \<leftarrow> block_for b h2;
        p3 \<leftarrow> block_for b h3;
        let m0 = mask_for (ucast h0); m1 = mask_for (ucast h1);
            m2 = mask_for (ucast h2); m3 = mask_for (ucast h3)
        in do {
          c0 \<leftarrow> mm256_load_si256 p0 hp;
          c1 \<leftarrow> mm256_load_si256 p1 hp;
          c2 \<leftarrow> mm256_load_si256 p2 hp;
          c3 \<leftarrow> mm256_load_si256 p3 hp;
          contains_prehash_unrolled p hashes n hp (i + 4)
            (hits + mm256_testc_si256 c0 m0 + mm256_testc_si256 c1 m1
                  + mm256_testc_si256 c2 m2 + mm256_testc_si256 c3 m3) } }
      else Some (i, hits))"
  by pat_completeness auto
termination
  by (relation "measure (\<lambda>(p, hashes, n, hp, i, hits). n - i)") auto

function contains_prehash_rest ::
  "addr \<Rightarrow> u64 list \<Rightarrow> nat \<Rightarrow> qb_heap \<Rightarrow> nat \<Rightarrow> nat \<Rightarrow> nat option" where
  "contains_prehash_rest p hashes n hp i hits =
     (if i < n then do {
        h \<leftarrow> rd_at hashes i;
        r \<leftarrow> qb_contains_prehash p h hp;
        contains_prehash_rest p hashes n hp (i + 1) (if r \<noteq> 0 then hits + 1 else hits) }
      else Some hits)"
  by pat_completeness auto
termination
  by (relation "measure (\<lambda>(p, hashes, n, hp, i, hits). n - i)") auto

definition qb_contains_prehash_bulk :: "addr \<Rightarrow> u64 list \<Rightarrow> nat \<Rightarrow> qb_heap \<Rightarrow> nat option" where
  "qb_contains_prehash_bulk p hashes n hp = do {
     (i, hits) \<leftarrow> contains_prehash_unrolled p hashes n hp 0 0;
     contains_prehash_rest p hashes n hp i hits }"

declare insert_unrolled.simps [simp del] insert_rest.simps [simp del]
  contains_unrolled.simps [simp del] contains_rest.simps [simp del]
  insert_prehash_unrolled.simps [simp del] insert_prehash_rest.simps [simp del]
  contains_prehash_unrolled.simps [simp del] contains_prehash_rest.simps [simp del]

section \<open>Four steps at a time are four single steps\<close>

lemma insert_prehash_apply:
  "qb_insert_prehash p h hp = do {
     b \<leftarrow> read_struct p hp;
     q \<leftarrow> block_for b h;
     apply_mask q (mask_for (ucast h)) hp }"
  by (simp add: qb_insert_prehash_def apply_mask_def Let_def)

lemma apply_mask_struct:
  assumes "apply_mask q m hp = Some hp'"
  shows "read_struct p hp' = read_struct p hp"
proof -
  from assms obtain ws ws' where "hp (fst q) = Some (Words ws)" "hp' = hp(fst q \<mapsto> Words ws')"
    by (auto simp: apply_mask_def mm256_load_si256_def mm256_store_si256_def read_words_eq
        bind_eq_Some_conv split: if_splits)
  then show ?thesis by (simp add: read_struct_def)
qed

lemma apply_masks:
  "read_struct p hp = Some b \<Longrightarrow> unat (idx_shift b) < 64 \<Longrightarrow>
     foldM (qb_insert_prehash p) hs hp
       = foldM (\<lambda>h. apply_mask (block_ptr b h) (mask_for (ucast h))) hs hp"
proof (induction hs arbitrary: hp)
  case (Cons h hs)
  show ?case
  proof (cases "apply_mask (block_ptr b h) (mask_for (ucast h)) hp")
    case None
    with Cons.prems show ?thesis by (simp add: insert_prehash_apply block_for_def)
  next
    case (Some hp')
    with Cons.prems have "read_struct p hp' = Some b" by (simp add: apply_mask_struct)
    then show ?thesis
      using Cons.IH Cons.prems Some by (simp add: insert_prehash_apply [of p h] block_for_def)
  qed
qed simp

lemma apply4:
  "foldM (qb_insert_prehash p) [h0, h1, h2, h3] hp = do {
     b \<leftarrow> read_struct p hp;
     p0 \<leftarrow> block_for b h0;
     p1 \<leftarrow> block_for b h1;
     p2 \<leftarrow> block_for b h2;
     p3 \<leftarrow> block_for b h3;
     hp \<leftarrow> apply_mask p0 (mask_for (ucast h0)) hp;
     hp \<leftarrow> apply_mask p1 (mask_for (ucast h1)) hp;
     hp \<leftarrow> apply_mask p2 (mask_for (ucast h2)) hp;
     apply_mask p3 (mask_for (ucast h3)) hp }"
proof (cases "read_struct p hp")
  case None
  then show ?thesis by (simp add: insert_prehash_apply)
next
  case (Some b)
  show ?thesis
  proof (cases "unat (idx_shift b) < 64")
    case True
    with Some show ?thesis
      by (simp add: apply_masks del: foldM.simps) (simp add: foldM_Cons_eq block_for_def)
  next
    case False
    with Some show ?thesis by (simp add: insert_prehash_apply block_for_def)
  qed
qed

text \<open>The counting of hits, with the carry flag added instead of tested.\<close>

definition count_prehash :: "addr \<Rightarrow> qb_heap \<Rightarrow> u64 \<Rightarrow> nat \<Rightarrow> nat option" where
  "count_prehash p hp h hits = do {
     r \<leftarrow> qb_contains_prehash p h hp;
     Some (if r \<noteq> 0 then hits + 1 else hits) }"

lemma count_prehash_testc:
  "count_prehash p hp h hits = do {
     b \<leftarrow> read_struct p hp;
     q \<leftarrow> block_for b h;
     c \<leftarrow> mm256_load_si256 q hp;
     Some (hits + mm256_testc_si256 c (mask_for (ucast h))) }"
  by (auto simp: count_prehash_def qb_contains_prehash_def mm256_testc_si256_def
      intro!: Option.bind_cong)

lemma count4:
  "foldM (count_prehash p hp) [h0, h1, h2, h3] hits = do {
     b \<leftarrow> read_struct p hp;
     p0 \<leftarrow> block_for b h0;
     p1 \<leftarrow> block_for b h1;
     p2 \<leftarrow> block_for b h2;
     p3 \<leftarrow> block_for b h3;
     c0 \<leftarrow> mm256_load_si256 p0 hp;
     c1 \<leftarrow> mm256_load_si256 p1 hp;
     c2 \<leftarrow> mm256_load_si256 p2 hp;
     c3 \<leftarrow> mm256_load_si256 p3 hp;
     Some (hits + mm256_testc_si256 c0 (mask_for (ucast h0))
       + mm256_testc_si256 c1 (mask_for (ucast h1))
       + mm256_testc_si256 c2 (mask_for (ucast h2))
       + mm256_testc_si256 c3 (mask_for (ucast h3))) }"
  by (cases "read_struct p hp")
    (simp_all add: count_prehash_testc foldM_Cons_eq block_for_def)

section \<open>Every bulk loop is the loop over the single-key operation\<close>

definition insert_at :: "addr \<Rightarrow> u8 list \<Rightarrow> nat \<Rightarrow> nat \<Rightarrow> qb_heap \<Rightarrow> qb_heap option" where
  "insert_at p keys klen i = qb_insert p (drop (i * klen) keys) klen"

definition count_at :: "addr \<Rightarrow> u8 list \<Rightarrow> nat \<Rightarrow> qb_heap \<Rightarrow> nat \<Rightarrow> nat \<Rightarrow> nat option" where
  "count_at p keys klen hp i hits = do {
     r \<leftarrow> qb_contains p (drop (i * klen) keys) klen hp;
     Some (if r \<noteq> 0 then hits + 1 else hits) }"

definition insert_prehash_at :: "addr \<Rightarrow> u64 list \<Rightarrow> nat \<Rightarrow> qb_heap \<Rightarrow> qb_heap option" where
  "insert_prehash_at p hashes i hp =
     Option.bind (rd_at hashes i) (\<lambda>h. qb_insert_prehash p h hp)"

definition count_prehash_at :: "addr \<Rightarrow> u64 list \<Rightarrow> qb_heap \<Rightarrow> nat \<Rightarrow> nat \<Rightarrow> nat option" where
  "count_prehash_at p hashes hp i hits =
     Option.bind (rd_at hashes i) (\<lambda>h. count_prehash p hp h hits)"

lemma insert_at_16:
  "insert_at p keys 16 i hp
     = Option.bind (hash16 (drop (i * 16) keys)) (\<lambda>h. qb_insert_prehash p h hp)"
  by (simp add: insert_at_def insert_via_prehash bloom_hash_def)

lemma count_at_16:
  "count_at p keys 16 hp i hits
     = Option.bind (hash16 (drop (i * 16) keys)) (\<lambda>h. count_prehash p hp h hits)"
  by (simp add: count_at_def count_prehash_def contains_via_prehash bloom_hash_def)

lemmas unrolled_round =
  upt4 apply4 count4 read4 [OF insert_at_16] read4 [OF count_at_16]
  read4 [OF insert_prehash_at_def] read4 [OF count_prehash_at_def]

interpretation insert_loop: counted_loop n "insert_at p keys klen" "insert_rest p keys klen n"
  for n p keys klen
  by unfold_locales (simp add: insert_rest.simps [of p keys klen n] insert_at_def)

interpretation insert_loop4: unrolled_loop n "insert_at p keys 16" "insert_rest p keys 16 n"
  4 "insert_unrolled p keys n" for n p keys
  by unfold_locales
    (simp_all add: insert_unrolled.simps [of p keys n] unrolled_round Let_def del: foldM.simps)

interpretation contains_loop: counted_loop n "count_at p keys klen hp" "contains_rest p keys klen n hp"
  for n p keys klen hp
  by unfold_locales (simp add: contains_rest.simps [of p keys klen n hp] count_at_def)

interpretation contains_loop4: unrolled_loop n "count_at p keys 16 hp" "contains_rest p keys 16 n hp"
  4 "contains_unrolled p keys n hp" for n p keys hp
  by unfold_locales
    (simp_all add: contains_unrolled.simps [of p keys n hp] unrolled_round Let_def del: foldM.simps)

lemma insert_prehash_rest_unfold:
  "insert_prehash_rest p hashes n i hp =
     (if i < n then Option.bind (insert_prehash_at p hashes i hp) (insert_prehash_rest p hashes n (i + 1))
      else Some hp)"
  by (simp add: insert_prehash_rest.simps [of p hashes n i] insert_prehash_at_def)

lemma contains_prehash_rest_unfold:
  "contains_prehash_rest p hashes n hp i hits =
     (if i < n
      then Option.bind (count_prehash_at p hashes hp i hits) (contains_prehash_rest p hashes n hp (i + 1))
      else Some hits)"
  by (simp add: contains_prehash_rest.simps [of p hashes n hp i] count_prehash_at_def count_prehash_def)

interpretation insert_prehash_loop4: unrolled_loop n "insert_prehash_at p hashes"
  "insert_prehash_rest p hashes n" 4 "insert_prehash_unrolled p hashes n" for n p hashes
  by unfold_locales
    (rule insert_prehash_rest_unfold, simp_all add: insert_prehash_unrolled.simps [of p hashes n]
      unrolled_round Let_def del: foldM.simps)

interpretation contains_prehash_loop4: unrolled_loop n "count_prehash_at p hashes hp"
  "contains_prehash_rest p hashes n hp" 4 "contains_prehash_unrolled p hashes n hp" for n p hashes hp
  by unfold_locales
    (rule contains_prehash_rest_unfold, simp_all add: contains_prehash_unrolled.simps [of p hashes n hp]
      unrolled_round Let_def del: foldM.simps)

lemma insert_bulk_eq: "qb_insert_bulk p keys klen n hp = foldM (insert_at p keys klen) [0..<n] hp"
  using insert_loop4.unrolled_then_rest [of p keys n 0 hp]
  by (simp add: qb_insert_bulk_def insert_loop.rest_eq)

lemma contains_bulk_eq:
  "qb_contains_bulk p keys klen n hp = foldM (count_at p keys klen hp) [0..<n] 0"
  using contains_loop4.unrolled_then_rest [of p keys n hp 0 0]
  by (simp add: qb_contains_bulk_def contains_loop.rest_eq)

lemma insert_prehash_bulk_eq:
  "qb_insert_prehash_bulk p hashes n hp = foldM (insert_prehash_at p hashes) [0..<n] hp"
  by (simp add: qb_insert_prehash_bulk_def insert_prehash_loop4.unrolled_then_rest)

lemma contains_prehash_bulk_eq:
  "qb_contains_prehash_bulk p hashes n hp = foldM (count_prehash_at p hashes hp) [0..<n] 0"
  by (simp add: qb_contains_prehash_bulk_def contains_prehash_loop4.unrolled_then_rest)

lemma key_in_buffer: "n * klen \<le> length keys \<Longrightarrow> i < n \<Longrightarrow> i * klen + klen \<le> length keys"
proof -
  assume "n * klen \<le> length keys" and "i < n"
  then have "(i + 1) * klen \<le> n * klen" by (intro mult_le_mono1) simp
  with \<open>n * klen \<le> length keys\<close> show ?thesis by simp
qed

lemma count_at_filter:
  assumes "filter_at hp p k b ws"
  shows "(\<And>i. i \<in> set is \<Longrightarrow> i * klen + klen \<le> length keys) \<Longrightarrow>
     foldM (count_at p keys klen hp) is hits
       = Some (hits + length (filter (\<lambda>i. qb_contains p (drop (i * klen) keys) klen hp = Some 1) is))"
proof (induction "is" arbitrary: hits)
  case (Cons i "is")
  then have "i * klen + klen \<le> length keys" by simp
  then have "\<exists>r. qb_contains p (drop (i * klen) keys) klen hp = Some r \<and> (r = 0 \<or> r = 1)"
    by (simp add: contains_via_prehash bloom_hash_eq contains_prehash_eq [OF assms] le_diff_conv2)
  with Cons show ?case by (auto simp: count_at_def)
qed simp

text \<open>What the insertion loop leaves behind: every key's footprint is set, nothing else is touched.\<close>

lemma bulk_inserted:
  assumes f: "filter_at hp p k b ws"
  shows "n * klen \<le> length keys \<Longrightarrow>
     \<exists>ws'. foldM (insert_at p keys klen) [0..<n] hp = Some (hp(bits b \<mapsto> Words ws')) \<and> length ws' = length ws \<and>
       (\<forall>i < n. footprint k (key_hash (take klen (drop (i * klen) keys))) \<subseteq> bitset ws')"
proof (induction n)
  case 0
  from f have "hp(bits b \<mapsto> Words ws) = hp" by (simp add: filter_at_def fun_upd_idem)
  then show ?case by (intro exI [of _ ws]) simp
next
  case (Suc n)
  have "n * klen \<le> length keys" using Suc.prems by simp
  from Suc.IH [OF this] obtain ws1 where ws1: "foldM (insert_at p keys klen) [0..<n] hp = Some (hp(bits b \<mapsto> Words ws1))"
    "length ws1 = length ws" "\<And>i. i < n \<Longrightarrow> footprint k (key_hash (take klen (drop (i * klen) keys))) \<subseteq> bitset ws1"
    by blast
  let ?h = "key_hash (take klen (drop (n * klen) keys))"
  note f1 = filter_at_update [OF f ws1(2)]
  have "klen \<le> length (drop (n * klen) keys)" using key_in_buffer [OF Suc.prems, of n] by simp
  then have "insert_at p keys klen n (hp(bits b \<mapsto> Words ws1)) = Some (hp(bits b \<mapsto> Words (set_hash k ?h ws1)))"
    by (simp add: insert_at_def insert_via_prehash bloom_hash_eq insert_prehash_eq [OF f1] del: length_drop fun_upd_apply)
  with ws1 bitset_set_hash [OF f1] block_in_bounds [OF f1] show ?case
    by (intro exI [of _ "set_hash k ?h ws1"]) (auto simp: foldM_append less_Suc_eq simp del: fun_upd_apply)
qed

lemma contains_inserted:
  assumes "filter_at hp p k b ws" and "i * klen + klen \<le> length keys"
    and "footprint k (key_hash (take klen (drop (i * klen) keys))) \<subseteq> bitset ws"
  shows "qb_contains p (drop (i * klen) keys) klen hp = Some 1"
proof -
  have "klen \<le> length keys - i * klen" using assms(2) by linarith
  with assms(3) show ?thesis by (simp add: contains_via_prehash bloom_hash_eq contains_prehash_eq [OF assms(1)])
qed

section \<open>Properties\<close>

text \<open>C5: \<open>qb_insert_bulk\<close> is the loop of \<open>qb_insert\<close> over the \<open>n\<close> keys of the buffer, for every key
  length, heap and buffer, faults included: the four-way unrolled path for 16-byte keys, which
  computes four blocks and masks before it writes, changes nothing, not even when the four keys
  share a block.\<close>

theorem qb_insert_bulk_sequential:
  "qb_insert_bulk p keys klen n hp = foldM (\<lambda>i. qb_insert p (drop (i * klen) keys) klen) [0..<n] hp"
  by (simp add: insert_bulk_eq insert_at_def [abs_def])

text \<open>C6: \<open>qb_contains_bulk\<close> is the loop that adds one for every key \<open>qb_contains\<close> accepts.\<close>

theorem qb_contains_bulk_sequential:
  "qb_contains_bulk p keys klen n hp =
     foldM (\<lambda>i hits. do {
       r \<leftarrow> qb_contains p (drop (i * klen) keys) klen hp;
       Some (if r \<noteq> 0 then hits + 1 else hits) }) [0..<n] 0"
  by (simp add: contains_bulk_eq count_at_def [abs_def])

text \<open>C22: the pre-hashed bulk operations are the loops over the single pre-hashed operations.\<close>

theorem qb_prehash_bulk_sequential:
  "qb_insert_prehash_bulk p hashes n hp =
     foldM (\<lambda>i hp. do { h \<leftarrow> rd_at hashes i; qb_insert_prehash p h hp }) [0..<n] hp \<and>
   qb_contains_prehash_bulk p hashes n hp =
     foldM (\<lambda>i hits. do {
       h \<leftarrow> rd_at hashes i;
       r \<leftarrow> qb_contains_prehash p h hp;
       Some (if r \<noteq> 0 then hits + 1 else hits) }) [0..<n] 0"
  by (simp add: insert_prehash_bulk_eq contains_prehash_bulk_eq insert_prehash_at_def [abs_def]
      count_prehash_at_def [abs_def] count_prehash_def)

text \<open>On a live filter and a buffer that holds \<open>n\<close> keys, \<open>qb_contains_bulk\<close> does not fault and
  returns the number of keys that \<open>qb_contains\<close> reports present.\<close>

theorem qb_contains_bulk_counts:
  assumes "filter_at hp p k b ws" and "n * klen \<le> length keys"
  shows "qb_contains_bulk p keys klen n hp
     = Some (length (filter (\<lambda>i. qb_contains p (drop (i * klen) keys) klen hp = Some 1) [0..<n]))"
  using count_at_filter [OF assms(1), of "[0..<n]" klen keys 0] key_in_buffer [OF assms(2)]
  by (simp add: contains_bulk_eq)

theorem qb_contains_bulk_counts_witness:
  "qb_contains_bulk 64 [1, 2, 3, 4] 2 2 demo_heap
     = Some (length (filter (\<lambda>i. qb_contains 64 (drop (i * 2) [1, 2, 3, 4]) 2 demo_heap = Some 1) [0..<2]))"
  by (rule qb_contains_bulk_counts [OF demo_filter]) simp

text \<open>No false negatives in bulk. On a live filter and a buffer that holds \<open>n\<close> keys,
  \<open>qb_insert_bulk\<close> does not fault, keeps the filter well formed, and \<open>qb_contains_bulk\<close> on the same
  buffer then returns \<open>n\<close>.\<close>

theorem qb_bulk_no_false_negatives:
  assumes "filter_at hp p k b ws" and "n * klen \<le> length keys"
  shows "\<exists>hp'. qb_insert_bulk p keys klen n hp = Some hp' \<and> (\<exists>ws'. filter_at hp' p k b ws') \<and>
     qb_contains_bulk p keys klen n hp' = Some n"
proof -
  from bulk_inserted [OF assms] obtain ws' where
    run: "qb_insert_bulk p keys klen n hp = Some (hp(bits b \<mapsto> Words ws'))" and len: "length ws' = length ws" and
    set: "\<And>i. i < n \<Longrightarrow> footprint k (key_hash (take klen (drop (i * klen) keys))) \<subseteq> bitset ws'"
    by (auto simp: insert_bulk_eq)
  note f = filter_at_update [OF assms(1) len]
  have "filter (\<lambda>i. qb_contains p (drop (i * klen) keys) klen (hp(bits b \<mapsto> Words ws')) = Some 1) [0..<n] = [0..<n]"
    using contains_inserted [OF f key_in_buffer [OF assms(2)] set] by (auto simp: filter_id_conv)
  with count_at_filter [OF f, of "[0..<n]" klen keys 0] key_in_buffer [OF assms(2)]
  have "qb_contains_bulk p keys klen n (hp(bits b \<mapsto> Words ws')) = Some n"
    by (simp add: contains_bulk_eq del: fun_upd_apply)
  with run f show ?thesis by blast
qed

theorem qb_bulk_no_false_negatives_witness:
  "\<exists>hp'. qb_insert_bulk 64 (replicate 80 7) 16 5 demo_heap = Some hp' \<and>
     qb_contains_bulk 64 (replicate 80 7) 16 5 hp' = Some 5"
  using qb_bulk_no_false_negatives [OF demo_filter, of 5 16 "replicate 80 7"] by auto

end
