(* ===== verification/Qb_Lifecycle.thy ===== *)
theory Qb_Lifecycle
  imports Qb_Filter
begin

text \<open>
  \<open>qb_new\<close> and \<open>qb_free\<close> of \<open>quickbloom.c\<close> with the two loops under them: the size
  arithmetic on 64-bit words, both allocations and every early return. The lemmas give the
  filter that each request produces, that a failed request leaves the heap as it was, and that
  freeing what was just created does too.
\<close>

section \<open>Powers of two\<close>

text \<open>
  \<open>while (pow2 < n) pow2 <<= 1\<close>. Past the top bit the shift gives 0 and the loop does not end,
  so the result is optional.
\<close>

partial_function (option) pow2_from :: "size_t \<Rightarrow> size_t \<Rightarrow> size_t option" where
  "pow2_from pow2 n = (if pow2 < n then pow2_from (push_bit 1 pow2) n else Some pow2)"

text \<open>\<open>log2_pow2\<close>; shifting 1 by 64 or more is undefined.\<close>

function log2_from :: "nat \<Rightarrow> size_t \<Rightarrow> u32 option" where
  "log2_from k n =
     (if 64 \<le> k then None else if push_bit k 1 < n then log2_from (k + 1) n else Some (of_nat k))"
  by pat_completeness auto
termination
  by (relation "measure (\<lambda>(k, n). 64 - k)") auto

declare log2_from.simps [simp del]

definition log2_pow2 :: "size_t \<Rightarrow> u32 option" where
  "log2_pow2 n = log2_from 0 n"

lemma unat_2_power: "j < LENGTH('a) \<Longrightarrow> unat (2 ^ j :: 'a::len word) = 2 ^ j"
  by (simp add: unat_of_nat_small [of "2 ^ j", simplified])

lemma pow2_from_eq:
  assumes "j \<le> k" and "k < 64" and "\<And>i. i < k \<Longrightarrow> 2 ^ i < unat n" and "unat n \<le> 2 ^ k"
  shows "pow2_from (2 ^ j) n = Some (2 ^ k)"
  using assms(1)
proof (induction "k - j" arbitrary: j)
  case 0
  with assms have "\<not> (2 ^ j :: size_t) < n" by (simp add: word_less_nat_alt unat_2_power)
  with 0 show ?case by (simp add: pow2_from.simps [of "2 ^ j"])
next
  case (Suc d)
  then have "j < k" by simp
  then have "(2 ^ j :: size_t) < n" using assms by (simp add: word_less_nat_alt unat_2_power)
  moreover have "push_bit 1 (2 ^ j :: size_t) = 2 ^ Suc j" by (simp add: push_bit_eq_mult)
  moreover have "pow2_from (2 ^ Suc j) n = Some (2 ^ k)"
    using Suc \<open>j < k\<close> by (intro Suc.hyps) auto
  ultimately show ?case by (simp only: pow2_from.simps [of "2 ^ j"] if_True)
qed

definition shifted_one :: "size_t \<Rightarrow> bool" where
  "shifted_one w \<longleftrightarrow> w = 0 \<or> (\<exists>j < 64. w = 2 ^ j)"

lemma shifted_one_shift: "shifted_one w \<Longrightarrow> shifted_one (push_bit 1 w)"
proof -
  assume "shifted_one w"
  then consider "w = 0" | j where "j < 63" "w = 2 ^ j" | "w = 2 ^ 63"
    unfolding shifted_one_def by (metis less_antisym numeral_eq_Suc pred_numeral_simps(2) semiring_norm(26,27))
  then show ?thesis
    by cases (auto simp: shifted_one_def push_bit_eq_mult intro!: exI [of _ "Suc _"])
qed

lemma shifted_one_bound: "shifted_one w \<Longrightarrow> unat w \<le> 2 ^ 63"
  by (auto simp: shifted_one_def unat_2_power simp del: power_numeral intro!: power_increasing)

text \<open>The doubling loop runs through shifted ones only, none of which is above \<open>2 ^ 63\<close>.\<close>

lemma pow2_from_bound:
  "pow2_from w n = Some r \<Longrightarrow> shifted_one w \<longrightarrow> unat n \<le> 2 ^ 63"
proof (rule pow2_from.raw_induct [where P = "\<lambda>w n r. shifted_one w \<longrightarrow> unat n \<le> 2 ^ 63"])
  fix f w n r
  assume IH: "\<And>w n r. f w n = Some r \<Longrightarrow> shifted_one w \<longrightarrow> unat n \<le> 2 ^ 63"
    and run: "(if w < n then f (push_bit 1 w) n else Some w) = Some r"
  show "shifted_one w \<longrightarrow> unat n \<le> 2 ^ 63"
  proof (cases "w < n")
    case True
    with run IH [of "push_bit 1 w" n r] shifted_one_shift show ?thesis by simp
  next
    case False
    then show ?thesis using shifted_one_bound [of w] by (auto simp: word_less_nat_alt)
  qed
qed

lemma pow2_from_diverges: "2 ^ 63 < unat n \<Longrightarrow> pow2_from 1 n = None"
proof (rule ccontr)
  assume n: "2 ^ 63 < unat n" and "pow2_from 1 n \<noteq> None"
  then obtain r where "pow2_from (2 ^ 0) n = Some r" by auto
  moreover have "shifted_one (2 ^ 0)" unfolding shifted_one_def by (intro disjI2 exI [of _ 0]) simp
  ultimately have "unat n \<le> 2 ^ 63" using pow2_from_bound by blast
  with n show False by simp
qed

lemma ceil_log2:
  fixes n :: nat
  assumes "n \<le> 2 ^ m"
  obtains k where "k \<le> m" "\<And>i. i < k \<Longrightarrow> 2 ^ i < n" "n \<le> 2 ^ k"
proof -
  define k where "k = (LEAST k. n \<le> 2 ^ k)"
  from assms have "n \<le> 2 ^ k" and "k \<le> m"
    unfolding k_def by (rule LeastI, rule Least_le)
  moreover have "2 ^ i < n" if "i < k" for i
    using not_less_Least [of i "\<lambda>k. n \<le> 2 ^ k"] that unfolding k_def by simp
  ultimately show thesis using that by blast
qed

lemma log2_from_eq: "j \<le> k \<Longrightarrow> k < 64 \<Longrightarrow> log2_from j (2 ^ k) = Some (of_nat k)"
proof (induction "k - j" arbitrary: j)
  case 0
  then show ?case by (simp add: log2_from.simps [of j])
next
  case (Suc d)
  then have "push_bit j 1 < (2 ^ k :: size_t)" by (simp add: word_less_nat_alt unat_2_power)
  with Suc show ?case by (simp add: log2_from.simps [of j])
qed

lemma log2_pow2_eq: "k < 64 \<Longrightarrow> log2_pow2 (2 ^ k) = Some (of_nat k)"
  by (simp add: log2_pow2_def log2_from_eq)

section \<open>Creating and freeing a filter\<close>

definition SBBF_BLOCK_BYTES :: size_t where
  "SBBF_BLOCK_BYTES = 32"

definition QB_MAX_NBLOCKS :: size_t where
  "QB_MAX_NBLOCKS = push_bit 31 1"

text \<open>\<open>sizeof(bloom_t)\<close>: a pointer, a \<open>size_t\<close>, a \<open>uint32_t\<close> and padding.\<close>

definition sizeof_bloom_t :: nat where
  "sizeof_bloom_t = 24"

text \<open>
  The first two arguments are the addresses that \<open>malloc\<close> and \<open>posix_memalign\<close> answer,
  \<open>NULL\<close> for a failure.
\<close>

definition qb_new :: "addr \<Rightarrow> addr \<Rightarrow> size_t \<Rightarrow> qb_heap \<Rightarrow> (addr \<times> qb_heap) option" where
  "qb_new ans_b ans_mem nbits hp =
     (let nblocks = (nbits + 255) div 256;
          nblocks = (if nblocks = 0 then 1 else nblocks)
      in if QB_MAX_NBLOCKS < nblocks then Some (NULL, hp)
         else do {
           nblocks \<leftarrow> pow2_from 1 nblocks;
           let (b, hp) = malloc ans_b sizeof_bloom_t hp
           in if b = NULL then Some (NULL, hp)
              else
                let nbytes = nblocks * SBBF_BLOCK_BYTES;
                    (failed, mem, hp) = posix_memalign ans_mem (unat nbytes) hp
                in if failed then do { hp \<leftarrow> free b hp; Some (NULL, hp) }
                   else do {
                     hp \<leftarrow> memset_zero 4 mem (unat nbytes) hp;
                     lg \<leftarrow> log2_pow2 nblocks;
                     hp \<leftarrow> write_struct b
                       \<lparr>bits = mem, nblocks_mask = nblocks - 1, idx_shift = 32 - lg\<rparr> hp;
                     Some (b, hp) } })"

definition qb_free :: "addr \<Rightarrow> qb_heap \<Rightarrow> qb_heap option" where
  "qb_free p hp =
     (if p = NULL then Some hp
      else do {
        b \<leftarrow> read_struct p hp;
        hp \<leftarrow> free (bits b) hp;
        free p hp })"

section \<open>What a request produces\<close>

text \<open>What the C library promises of the two answers.\<close>

definition answers_ok :: "qb_heap \<Rightarrow> addr \<Rightarrow> addr \<Rightarrow> bool" where
  "answers_ok hp ans_b ans_mem \<longleftrightarrow>
     fresh hp ans_b \<and> fresh hp ans_mem \<and> ans_mem mod 32 = 0 \<and> (ans_b = ans_mem \<longrightarrow> ans_b = NULL)"

definition filter_struct :: "addr \<Rightarrow> nat \<Rightarrow> bloom_t" where
  "filter_struct mem k = \<lparr>bits = mem, nblocks_mask = 2 ^ k - 1, idx_shift = of_nat (32 - k)\<rparr>"

definition with_filter :: "addr \<Rightarrow> addr \<Rightarrow> nat \<Rightarrow> u32 list \<Rightarrow> qb_heap \<Rightarrow> qb_heap" where
  "with_filter p mem k ws hp = hp(mem \<mapsto> Words ws, p \<mapsto> Struct (filter_struct mem k))"

lemma filter_at_with_filter:
  assumes "answers_ok hp p mem" and "p \<noteq> NULL" and "mem \<noteq> NULL" and "k \<le> 31" and "length ws = 8 * 2 ^ k"
  shows "filter_at (with_filter p mem k ws hp) p k (filter_struct mem k) ws"
  using assms by (auto simp: filter_at_def with_filter_def filter_struct_def answers_ok_def)

lemma bytes_of_blocks: "k \<le> 31 \<Longrightarrow> unat (2 ^ k * SBBF_BLOCK_BYTES) = 32 * 2 ^ k"
proof -
  assume k: "k \<le> 31"
  have "2 ^ k * SBBF_BLOCK_BYTES = 2 ^ (k + 5)" by (simp add: SBBF_BLOCK_BYTES_def power_add)
  also from k have "unat \<dots> = 2 ^ (k + 5)" by (intro unat_2_power) simp
  finally show ?thesis by (simp add: power_add)
qed

lemma idx_shift_of: "k \<le> 31 \<Longrightarrow> (32 :: u32) - of_nat k = of_nat (32 - k)"
  by simp

lemma pow2_nblocks:
  assumes "unat n \<le> 2 ^ 31"
  obtains k where "k \<le> 31" "pow2_from 1 n = Some (2 ^ k)" "unat n \<le> 2 ^ k" "\<And>i. i < k \<Longrightarrow> 2 ^ i < unat n"
proof -
  from ceil_log2 [OF assms] obtain k where k: "k \<le> 31" "\<And>i. i < k \<Longrightarrow> 2 ^ i < unat n" "unat n \<le> 2 ^ k"
    by blast
  have "pow2_from (2 ^ 0) n = Some (2 ^ k)" using k by (intro pow2_from_eq) auto
  with k that show thesis by simp
qed

text \<open>The number of blocks asked for, in whole numbers.\<close>

definition blocks_needed :: "nat \<Rightarrow> nat" where
  "blocks_needed nbits = max 1 ((nbits + 255) div 256)"

definition request :: "size_t \<Rightarrow> size_t" where
  "request nbits = (let nblocks = (nbits + 255) div 256 in if nblocks = 0 then 1 else nblocks)"

lemma unat_request:
  assumes "unat nbits \<le> 2 ^ 64 - 256"
  shows "unat (request nbits) = blocks_needed (unat nbits)"
proof -
  have "unat (nbits + 255) = unat nbits + 255"
    using assms by (simp add: unat_word_ariths)
  then have "unat ((nbits + 255) div 256) = (unat nbits + 255) div 256"
    by (simp add: unat_div_distrib)
  then show ?thesis
    by (auto simp: request_def blocks_needed_def Let_def unat_eq_zero max_def simp flip: unat_eq_zero)
qed

lemma request_wraps:
  assumes "2 ^ 64 - 256 < unat nbits"
  shows "request nbits = 1"
proof -
  have "unat (nbits + 255) = unat nbits + 255 - 2 ^ 64"
    using assms unsigned_less [of nbits, where 'a = nat]
    by (simp add: unat_word_ariths mod_if)
  then have "unat ((nbits + 255) div 256) = 0"
    using unsigned_less [of nbits, where 'a = nat] by (simp add: unat_div_distrib)
  then show ?thesis by (simp add: request_def Let_def unat_eq_zero)
qed

lemma qb_new_eq_request:
  "qb_new ab am nbits hp =
     (if QB_MAX_NBLOCKS < request nbits then Some (NULL, hp)
      else do {
        nblocks \<leftarrow> pow2_from 1 (request nbits);
        let (b, hp) = malloc ab sizeof_bloom_t hp
        in if b = NULL then Some (NULL, hp)
           else
             let nbytes = nblocks * SBBF_BLOCK_BYTES;
                 (failed, mem, hp) = posix_memalign am (unat nbytes) hp
             in if failed then do { hp \<leftarrow> free b hp; Some (NULL, hp) }
                else do {
                  hp \<leftarrow> memset_zero 4 mem (unat nbytes) hp;
                  lg \<leftarrow> log2_pow2 nblocks;
                  hp \<leftarrow> write_struct b
                    \<lparr>bits = mem, nblocks_mask = nblocks - 1, idx_shift = 32 - lg\<rparr> hp;
                  Some (b, hp) } })"
  by (simp add: qb_new_def request_def Let_def)

lemma qb_new_too_big: "QB_MAX_NBLOCKS < request nbits \<Longrightarrow> qb_new ab am nbits hp = Some (NULL, hp)"
  by (simp add: qb_new_eq_request)

lemma qb_new_eq:
  assumes "request nbits \<le> QB_MAX_NBLOCKS" and "answers_ok hp ab am"
  shows "\<exists>k \<le> 31. unat (request nbits) \<le> 2 ^ k \<and> (\<forall>i < k. 2 ^ i < unat (request nbits)) \<and>
     qb_new ab am nbits hp =
       Some (if ab = NULL \<or> am = NULL then (NULL, hp)
             else (ab, with_filter ab am k (replicate (8 * 2 ^ k) 0) hp))"
proof -
  from assms(1) have "unat (request nbits) \<le> 2 ^ 31"
    by (simp add: word_le_nat_alt QB_MAX_NBLOCKS_def)
  then obtain k where k: "k \<le> 31" "pow2_from 1 (request nbits) = Some (2 ^ k)"
    "unat (request nbits) \<le> 2 ^ k" "\<And>i. i < k \<Longrightarrow> 2 ^ i < unat (request nbits)"
    by (rule pow2_nblocks) blast
  have div4: "32 * 2 ^ k div 4 = (8 * 2 ^ k :: nat)" by simp
  have "\<not> QB_MAX_NBLOCKS < request nbits" using assms(1) by simp
  then have run: "qb_new ab am nbits hp =
     (let (b, hp) = malloc ab sizeof_bloom_t hp
      in if b = NULL then Some (NULL, hp)
         else let (failed, mem, hp) = posix_memalign am (unat (2 ^ k * SBBF_BLOCK_BYTES)) hp
              in if failed then do { hp \<leftarrow> free b hp; Some (NULL, hp) }
                 else do {
                   hp \<leftarrow> memset_zero 4 mem (unat (2 ^ k * SBBF_BLOCK_BYTES)) hp;
                   hp \<leftarrow> write_struct b (filter_struct mem k) hp;
                   Some (b, hp) })"
    using k(1,2) log2_pow2_eq [of k]
    by (simp add: qb_new_eq_request filter_struct_def idx_shift_of Let_def case_prod_unfold
        del: of_nat_diff)
  have "qb_new ab am nbits hp =
       Some (if ab = NULL \<or> am = NULL then (NULL, hp)
             else (ab, with_filter ab am k (replicate (8 * 2 ^ k) 0) hp))"
  proof (cases "ab = NULL \<or> am = NULL")
    case True
    then show ?thesis
      using assms(2) by (auto simp: run malloc_def posix_memalign_def free_def answers_ok_def
          fresh_def fun_eq_iff)
  next
    case False
    then show ?thesis
      using assms(2) k(1) by (auto simp: run malloc_def posix_memalign_def answers_ok_def fresh_def
          memset_zero_def init_block_def write_struct_def bytes_of_blocks div4 with_filter_def fun_eq_iff)
  qed
  with k show ?thesis by blast
qed

lemma qb_free_eq:
  assumes "filter_at hp p k b ws"
  shows "qb_free p hp = Some (hp(bits b := None, p := None))"
proof -
  from assms have "p \<noteq> bits b" by (auto simp: filter_at_def)
  with assms show ?thesis by (simp add: qb_free_def free_def filter_at_def)
qed

lemma free_with_filter:
  assumes "answers_ok hp p mem" and "p \<noteq> NULL" and "mem \<noteq> NULL" and "k \<le> 31" and "length ws = 8 * 2 ^ k"
  shows "qb_free p (with_filter p mem k ws hp) = Some hp"
  using assms qb_free_eq [OF filter_at_with_filter [OF assms]]
  by (auto simp: with_filter_def filter_struct_def answers_ok_def fresh_def fun_eq_iff)

section \<open>Properties\<close>

text \<open>C21: what \<open>qb_new\<close> builds. For a representable request of at most \<open>QB_MAX_NBLOCKS\<close> blocks it
  returns \<open>NULL\<close> exactly when an allocation fails, leaving the heap as it was (nothing leaks), and
  otherwise a well-formed empty filter whose block count is the least power of two that holds the
  requested bits; no other memory changes.\<close>

theorem qb_new_correct:
  assumes "answers_ok hp ab am" and "unat nbits \<le> 2 ^ 64 - 256" and "blocks_needed (unat nbits) \<le> 2 ^ 31"
  shows "if ab = NULL \<or> am = NULL then qb_new ab am nbits hp = Some (NULL, hp)
     else \<exists>hp' k. qb_new ab am nbits hp = Some (ab, hp') \<and>
       filter_at hp' ab k (filter_struct am k) (replicate (8 * 2 ^ k) 0) \<and>
       blocks_needed (unat nbits) \<le> 2 ^ k \<and> (0 < k \<longrightarrow> 2 ^ (k - 1) < blocks_needed (unat nbits)) \<and>
       (\<forall>a. a \<noteq> ab \<and> a \<noteq> am \<longrightarrow> hp' a = hp a)"
proof -
  have "request nbits \<le> QB_MAX_NBLOCKS"
    using assms(2,3) by (simp add: word_le_nat_alt unat_request QB_MAX_NBLOCKS_def)
  from qb_new_eq [OF this assms(1)] obtain k where
    k: "k \<le> 31" "blocks_needed (unat nbits) \<le> 2 ^ k" "\<And>i. i < k \<Longrightarrow> 2 ^ i < blocks_needed (unat nbits)"
    and run: "qb_new ab am nbits hp = Some (if ab = NULL \<or> am = NULL then (NULL, hp)
             else (ab, with_filter ab am k (replicate (8 * 2 ^ k) 0) hp))"
    by (auto simp: unat_request [OF assms(2)])
  show ?thesis
  proof (cases "ab = NULL \<or> am = NULL")
    case False
    with k filter_at_with_filter [OF assms(1), of k] run show ?thesis
      by (auto simp: with_filter_def intro!: exI [of _ k])
  qed (use run in auto)
qed

theorem qb_new_correct_witness:
  "\<exists>hp' k. qb_new 64 96 1000 (\<lambda>_. None) = Some (64, hp') \<and>
     filter_at hp' 64 k (filter_struct 96 k) (replicate (8 * 2 ^ k) 0) \<and> 4 \<le> (2 :: nat) ^ k"
  using qb_new_correct [of "\<lambda>_. None" 64 96 1000]
  by (auto simp: answers_ok_def fresh_def blocks_needed_def)

text \<open>A request for more than \<open>QB_MAX_NBLOCKS\<close> blocks is refused with \<open>NULL\<close> before anything is
  allocated, whatever the allocator would answer.\<close>

theorem qb_new_rejects_oversize:
  assumes "2 ^ 31 < blocks_needed (unat nbits)" and "unat nbits \<le> 2 ^ 64 - 256"
  shows "qb_new ab am nbits hp = Some (NULL, hp)"
  by (rule qb_new_too_big)
    (use assms in \<open>simp add: word_less_nat_alt unat_request QB_MAX_NBLOCKS_def\<close>)

theorem qb_new_rejects_oversize_witness:
  "qb_new 64 96 0x8000000001 (\<lambda>_. None) = Some (NULL, \<lambda>_. None)"
  by (rule qb_new_rejects_oversize) (simp_all add: blocks_needed_def)

text \<open>C38: the block count of a request within 255 of the largest \<open>size_t\<close> wraps to zero. Such a
  request is not refused, although it is the most oversized of all: it yields a filter of one
  256-bit block.\<close>

theorem qb_new_wraps_to_one_block:
  assumes "2 ^ 64 - 256 < unat nbits" and "answers_ok hp ab am" and "ab \<noteq> NULL" and "am \<noteq> NULL"
  shows "\<exists>hp'. qb_new ab am nbits hp = Some (ab, hp') \<and>
     filter_at hp' ab 0 (filter_struct am 0) (replicate 8 0)"
proof -
  have "request nbits \<le> QB_MAX_NBLOCKS" by (simp add: request_wraps [OF assms(1)] QB_MAX_NBLOCKS_def)
  from qb_new_eq [OF this assms(2)] obtain k where
    k: "\<forall>i < k. (2 :: nat) ^ i < 1" and
    run: "qb_new ab am nbits hp = Some (ab, with_filter ab am k (replicate (8 * 2 ^ k) 0) hp)"
    using assms(3,4) by (auto simp: request_wraps [OF assms(1)])
  from k have "k = 0" by (metis gr_zeroI less_irrefl power_0)
  with run filter_at_with_filter [OF assms(2-4), of 0] show ?thesis by simp
qed

theorem qb_new_wraps_to_one_block_witness:
  "\<exists>hp'. qb_new 64 96 0xFFFFFFFFFFFFFFFF (\<lambda>_. None) = Some (64, hp') \<and>
     filter_at hp' 64 0 (filter_struct 96 0) (replicate 8 0)"
  by (rule qb_new_wraps_to_one_block) (simp_all add: answers_ok_def fresh_def)

text \<open>No leak and no double free. For every request, \<open>qb_free\<close> of whatever \<open>qb_new\<close> returned,
  \<open>NULL\<close> included, succeeds and restores the heap as it was before the call.\<close>

theorem qb_new_then_free:
  assumes "answers_ok hp ab am"
  shows "\<exists>p hp'. qb_new ab am nbits hp = Some (p, hp') \<and> qb_free p hp' = Some hp"
proof (cases "request nbits \<le> QB_MAX_NBLOCKS")
  case False
  then show ?thesis by (simp add: qb_new_too_big not_le qb_free_def)
next
  case True
  from qb_new_eq [OF True assms] obtain k where k: "k \<le> 31" and
    run: "qb_new ab am nbits hp = Some (if ab = NULL \<or> am = NULL then (NULL, hp)
             else (ab, with_filter ab am k (replicate (8 * 2 ^ k) 0) hp))" by blast
  show ?thesis
  proof (cases "ab = NULL \<or> am = NULL")
    case False
    with free_with_filter [OF assms, of k "replicate (8 * 2 ^ k) 0"] k run show ?thesis by simp
  qed (use run in \<open>auto simp: qb_free_def\<close>)
qed

theorem qb_new_then_free_witness:
  "\<exists>p hp'. qb_new 64 96 1000 (\<lambda>_. None) = Some (p, hp') \<and> qb_free p hp' = Some (\<lambda>_. None)"
  by (rule qb_new_then_free) (simp add: answers_ok_def fresh_def)

end
