(* ===== verification/Qb_Serialize.thy ===== *)
theory Qb_Serialize
  imports Qb_Lifecycle
begin

text \<open>
  The serialization functions of \<open>quickbloom.c\<close>. A buffer argument is the list of bytes it
  holds, \<open>None\<close> for a null pointer. An \<open>assert\<close> that fails aborts unless the library is
  built with \<open>NDEBUG\<close>. \<open>qb_deserialize\<close> is modelled guard by guard; the lemmas say exactly
  which images it accepts and that both round trips are the identity.
\<close>

section \<open>Definitions\<close>

datatype 'a outcome = Aborted | Done 'a

definition bytes_of :: "u32 list \<Rightarrow> u8 list" where
  "bytes_of ws = concat (map (le_bytes 4) ws)"

definition words_from :: "nat \<Rightarrow> u8 list \<Rightarrow> u32 list" where
  "words_from n bs = map (\<lambda>i. le_word (take 4 (drop (4 * i) bs))) [0..<n]"

definition QB_DESERIALIZE_MAX_BYTES :: size_t where
  "QB_DESERIALIZE_MAX_BYTES = push_bit 30 1"

definition qb_serialized_size :: "bool \<Rightarrow> addr \<Rightarrow> qb_heap \<Rightarrow> size_t outcome option" where
  "qb_serialized_size ndebug p hp =
     (if \<not> ndebug \<and> p = NULL then Some Aborted
      else if p = NULL then Some (Done 0)
      else do {
        b \<leftarrow> read_struct p hp;
        Some (Done ((nblocks_mask b + 1) * SBBF_BLOCK_BYTES)) })"

text \<open>The result is the destination buffer after the call.\<close>

definition qb_serialize ::
  "bool \<Rightarrow> addr \<Rightarrow> u8 list option \<Rightarrow> qb_heap \<Rightarrow> u8 list option outcome option" where
  "qb_serialize ndebug p dst hp =
     (if \<not> ndebug \<and> p = NULL then Some Aborted
      else if \<not> ndebug \<and> dst = None then Some Aborted
      else if p = NULL \<or> dst = None then Some (Done dst)
      else do {
        b \<leftarrow> read_struct p hp;
        let nbytes = unat ((nblocks_mask b + 1) * SBBF_BLOCK_BYTES);
        ws \<leftarrow> read_words (bits b) hp;
        if nbytes \<le> length (the dst) \<and> nbytes \<le> 4 * length ws
        then Some (Done (Some (take nbytes (bytes_of ws) @ drop nbytes (the dst))))
        else None })"

text \<open>\<open>max_bytes\<close> is \<open>QB_DESERIALIZE_MAX_BYTES\<close>, which a build may override.\<close>

definition qb_deserialize ::
  "size_t \<Rightarrow> addr \<Rightarrow> addr \<Rightarrow> u8 list option \<Rightarrow> size_t \<Rightarrow> qb_heap \<Rightarrow> (addr \<times> qb_heap) option" where
  "qb_deserialize max_bytes ans_b ans_mem bytes nbytes hp =
     (case bytes of
        None \<Rightarrow> Some (NULL, hp)
      | Some src \<Rightarrow>
          if nbytes = 0 \<or> max_bytes < nbytes then Some (NULL, hp)
          else if nbytes mod SBBF_BLOCK_BYTES \<noteq> 0 then Some (NULL, hp)
          else
            let nblocks = nbytes div SBBF_BLOCK_BYTES
            in if nblocks AND (nblocks - 1) \<noteq> 0 then Some (NULL, hp)
               else
                 let (b, hp) = malloc ans_b sizeof_bloom_t hp
                 in if b = NULL then Some (NULL, hp)
                    else
                      let (failed, mem, hp) = posix_memalign ans_mem (unat nbytes) hp
                      in if failed then do { hp \<leftarrow> free b hp; Some (NULL, hp) }
                         else if length src < unat nbytes then None
                         else do {
                           hp \<leftarrow> init_block 4 mem (words_from (unat nbytes div 4) src) hp;
                           lg \<leftarrow> log2_pow2 nblocks;
                           hp \<leftarrow> write_struct b
                             \<lparr>bits = mem, nblocks_mask = nblocks - 1, idx_shift = 32 - lg\<rparr> hp;
                           Some (b, hp) })"

section \<open>Bytes and words\<close>

lemma length_bytes_of [simp]: "length (bytes_of ws) = 4 * length ws"
  by (induction ws) (auto simp: bytes_of_def)

lemma length_words_from [simp]: "length (words_from n bs) = n"
  by (simp add: words_from_def)

lemma take_drop_bytes_of: "i < length ws \<Longrightarrow> take 4 (drop (4 * i) (bytes_of ws)) = le_bytes 4 (ws ! i)"
proof (induction ws arbitrary: i)
  case (Cons w ws)
  then show ?case by (cases i) (auto simp: bytes_of_def)
qed simp

lemma words_from_bytes_of: "n \<le> length ws \<Longrightarrow> words_from n (bytes_of ws @ rest) = take n ws"
  by (rule nth_equalityI) (auto simp: words_from_def take_drop_bytes_of le_word_le_bytes take_bit_word_eq_self)

lemma bytes_of_words_from:
  "4 * n \<le> length bs \<Longrightarrow> bytes_of (words_from n bs) = take (4 * n) bs"
proof (induction n arbitrary: bs)
  case (Suc n)
  have "words_from (Suc n) bs = le_word (take 4 bs) # words_from n (drop 4 bs)"
    by (simp add: words_from_def upt_conv_Cons map_Suc_upt [symmetric] comp_def add.commute
        del: upt_Suc)
  moreover have "le_bytes 4 (le_word (take 4 bs) :: u32) = take 4 bs"
    using Suc.prems by (intro le_bytes_le_word) auto
  moreover have "bytes_of (words_from n (drop 4 bs)) = take (4 * n) (drop 4 bs)"
    using Suc.prems by (intro Suc.IH) auto
  ultimately show ?case
    by (simp add: bytes_of_def take_add [symmetric])
qed (simp add: bytes_of_def words_from_def)

section \<open>Which sizes are accepted\<close>

lemma and_pred_eq_0:
  fixes n :: "'a::len word"
  shows "n \<noteq> 0 \<and> n AND (n - 1) = 0 \<longleftrightarrow> (\<exists>k < LENGTH('a). n = 2 ^ k)"
proof
  assume *: "n \<noteq> 0 \<and> n AND (n - 1) = 0"
  then have "0 < unat n" by (simp add: unat_gt_0)
  then obtain k where k: "2 ^ k \<le> unat n" "unat n < 2 ^ Suc k"
    using ex_power_ivl1 [of 2 "unat n"] by auto
  have "(2 :: nat) ^ k < 2 ^ LENGTH('a)" using k(1) unsigned_less [of n, where 'a = nat] by linarith
  then have len: "k < LENGTH('a)" by simp
  have top: "bit w k" if "2 ^ k \<le> unat w" "unat w < 2 ^ Suc k" for w :: "'a word"
  proof -
    have "unat w div 2 ^ k = 1" using that by (simp add: div_nat_eqI)
    then have "bit (unat w) k" by (simp add: bit_iff_odd)
    then show ?thesis by (simp add: bit_unsigned_iff)
  qed
  have "unat n = 2 ^ k"
  proof (rule ccontr)
    assume "unat n \<noteq> 2 ^ k"
    moreover have "unat (n - 1) = unat n - 1" using * by (simp add: unat_minus_one)
    ultimately have "bit n k \<and> bit (n - 1) k" using k top [of n] top [of "n - 1"] by auto
    then have "bit (n AND (n - 1)) k" by (simp add: bit_simps)
    with * show False by simp
  qed
  then have "n = 2 ^ k" using len by (simp add: word_unat_eq_iff unat_2_power)
  with len show "\<exists>k < LENGTH('a). n = 2 ^ k" by blast
next
  assume "\<exists>k < LENGTH('a). n = 2 ^ k"
  then obtain k where k: "k < LENGTH('a)" "n = 2 ^ k" by blast
  have "(2 ^ k :: 'a word) AND mask k = 0" by (rule bit_word_eqI) (auto simp: bit_simps)
  with k show "n \<noteq> 0 \<and> n AND (n - 1) = 0" by (simp add: mask_eq_exp_minus_1 flip: unat_eq_zero add: unat_2_power)
qed

lemma unat_2_power_block: "k \<le> 58 \<Longrightarrow> unat (2 ^ k * SBBF_BLOCK_BYTES) = 32 * 2 ^ k"
proof -
  assume k: "k \<le> 58"
  have "2 ^ k * SBBF_BLOCK_BYTES = 2 ^ (k + 5)" by (simp add: SBBF_BLOCK_BYTES_def power_add)
  also from k have "unat \<dots> = 2 ^ (k + 5)" by (intro unat_2_power) simp
  finally show ?thesis by (simp add: power_add)
qed

definition accepted :: "size_t \<Rightarrow> size_t \<Rightarrow> bool" where
  "accepted max_bytes nbytes \<longleftrightarrow>
     nbytes \<noteq> 0 \<and> nbytes \<le> max_bytes \<and> nbytes mod SBBF_BLOCK_BYTES = 0 \<and>
     nbytes div SBBF_BLOCK_BYTES AND (nbytes div SBBF_BLOCK_BYTES - 1) = 0"

lemma accepted_iff:
  "accepted max_bytes nbytes \<longleftrightarrow>
     nbytes \<le> max_bytes \<and> (\<exists>k \<le> 58. nbytes = 2 ^ k * SBBF_BLOCK_BYTES)"
proof
  assume acc: "accepted max_bytes nbytes"
  let ?n = "nbytes div SBBF_BLOCK_BYTES"
  have un: "unat ?n = unat nbytes div 32" by (simp add: unat_div_distrib SBBF_BLOCK_BYTES_def)
  have split: "nbytes = ?n * SBBF_BLOCK_BYTES"
    using acc div_mult_mod_eq [of nbytes SBBF_BLOCK_BYTES] by (simp add: accepted_def)
  with acc have "?n \<noteq> 0" by (auto simp: accepted_def)
  with acc and_pred_eq_0 [of ?n] obtain k where k: "k < 64" "?n = 2 ^ k"
    by (auto simp: accepted_def)
  have "(2 :: nat) ^ k < 2 ^ 59"
    using un k unsigned_less [of nbytes, where 'a = nat] by (simp add: unat_2_power)
  then have "k < 59" by (simp only: power_strict_increasing_iff)
  with split k acc show "nbytes \<le> max_bytes \<and> (\<exists>k \<le> 58. nbytes = 2 ^ k * SBBF_BLOCK_BYTES)"
    by (auto simp: accepted_def intro!: exI [of _ k])
next
  assume "nbytes \<le> max_bytes \<and> (\<exists>k \<le> 58. nbytes = 2 ^ k * SBBF_BLOCK_BYTES)"
  then obtain k where k: "nbytes \<le> max_bytes" "k \<le> 58" "nbytes = 2 ^ k * SBBF_BLOCK_BYTES" by blast
  then have un: "unat nbytes = 32 * 2 ^ k" by (simp add: unat_2_power_block)
  have "unat (nbytes div SBBF_BLOCK_BYTES) = 2 ^ k" and "unat (nbytes mod SBBF_BLOCK_BYTES) = 0"
    by (simp_all add: unat_div_distrib unat_mod_distrib un SBBF_BLOCK_BYTES_def)
  with k(2) have "nbytes div SBBF_BLOCK_BYTES = 2 ^ k" and "nbytes mod SBBF_BLOCK_BYTES = 0"
    by (simp_all add: word_unat_eq_iff unat_2_power)
  moreover have "(2 ^ k :: size_t) AND (2 ^ k - 1) = 0"
    using and_pred_eq_0 [of "2 ^ k :: size_t"] k(2) by (auto intro!: exI [of _ k])
  ultimately show "accepted max_bytes nbytes"
    using k un by (auto simp: accepted_def)
qed

section \<open>What the calls do\<close>

lemma deserialize_rejects:
  assumes "bytes = None \<or> \<not> accepted max_bytes nbytes"
  shows "qb_deserialize max_bytes ab am bytes nbytes hp = Some (NULL, hp)"
  using assms by (auto simp: qb_deserialize_def accepted_def Let_def split: option.split)

text \<open>
  The structure \<open>qb_deserialize\<close> writes for \<open>2 ^ k\<close> blocks. Only for \<open>k\<close> up to 32 is its shift count
  the intended one; beyond that the unsigned subtraction wraps.
\<close>

definition image_struct :: "addr \<Rightarrow> nat \<Rightarrow> bloom_t" where
  "image_struct mem k = \<lparr>bits = mem, nblocks_mask = 2 ^ k - 1, idx_shift = 32 - of_nat k\<rparr>"

lemma image_struct_eq: "k \<le> 31 \<Longrightarrow> image_struct mem k = filter_struct mem k"
  by (simp add: image_struct_def filter_struct_def idx_shift_of del: of_nat_diff)

lemma deserialize_image:
  assumes size: "nbytes = 2 ^ k * SBBF_BLOCK_BYTES" "k \<le> 58" "nbytes \<le> max_bytes"
    and src: "unat nbytes \<le> length src" and ans: "answers_ok hp ab am"
  shows "qb_deserialize max_bytes ab am (Some src) nbytes hp =
     Some (if ab = NULL \<or> am = NULL then (NULL, hp)
           else (ab, hp(am \<mapsto> Words (words_from (8 * 2 ^ k) src), ab \<mapsto> Struct (image_struct am k))))"
proof -
  have acc: "accepted max_bytes nbytes" using size by (auto simp: accepted_iff intro!: exI [of _ k])
  have un: "unat nbytes = 32 * 2 ^ k" using size by (simp add: unat_2_power_block)
  then have "unat (nbytes div SBBF_BLOCK_BYTES) = 2 ^ k"
    by (simp add: unat_div_distrib SBBF_BLOCK_BYTES_def)
  then have nb: "nbytes div SBBF_BLOCK_BYTES = 2 ^ k"
    using size(2) by (simp add: word_unat_eq_iff unat_2_power)
  have div4: "32 * 2 ^ k div 4 = (8 * 2 ^ k :: nat)" by simp
  have "qb_deserialize max_bytes ab am (Some src) nbytes hp =
     (let (b, hp) = malloc ab sizeof_bloom_t hp
      in if b = NULL then Some (NULL, hp)
         else let (failed, mem, hp) = posix_memalign am (32 * 2 ^ k) hp
              in if failed then do { hp \<leftarrow> free b hp; Some (NULL, hp) }
                 else do {
                   hp \<leftarrow> init_block 4 mem (words_from (8 * 2 ^ k) src) hp;
                   hp \<leftarrow> write_struct b (image_struct mem k) hp;
                   Some (b, hp) })"
    using acc src size(2) log2_pow2_eq [of k] leD [OF size(3)]
    by (simp add: qb_deserialize_def accepted_def nb un div4 image_struct_def Let_def
        case_prod_unfold del: of_nat_diff)
  then show ?thesis
    using ans by (cases "ab = NULL \<or> am = NULL")
      (auto simp: malloc_def posix_memalign_def free_def answers_ok_def fresh_def init_block_def
        write_struct_def fun_eq_iff)
qed

lemma deserialize_eq:
  assumes "nbytes = 2 ^ k * SBBF_BLOCK_BYTES" "k \<le> 31" "nbytes \<le> max_bytes"
    and "unat nbytes \<le> length src" and "answers_ok hp ab am"
  shows "qb_deserialize max_bytes ab am (Some src) nbytes hp =
     Some (if ab = NULL \<or> am = NULL then (NULL, hp)
           else (ab, with_filter ab am k (words_from (8 * 2 ^ k) src) hp))"
  using deserialize_image [OF assms(1) _ assms(3-5)] assms(2)
  by (simp add: image_struct_eq with_filter_def)

lemma serialized_size_eq:
  assumes "filter_at hp p k b ws"
  shows "qb_serialized_size ndebug p hp = Some (Done (2 ^ k * SBBF_BLOCK_BYTES))"
  using assms by (simp add: qb_serialized_size_def filter_at_def)

lemma serialize_eq:
  assumes "filter_at hp p k b ws" and "32 * 2 ^ k \<le> length dst"
  shows "qb_serialize ndebug p (Some dst) hp
     = Some (Done (Some (bytes_of ws @ drop (32 * 2 ^ k) dst)))"
  using assms by (simp add: qb_serialize_def filter_at_def bytes_of_blocks Let_def)

lemma serialize_short:
  assumes "filter_at hp p k b ws" and "length dst < 32 * 2 ^ k"
  shows "qb_serialize ndebug p (Some dst) hp = None"
  using assms by (simp add: qb_serialize_def filter_at_def bytes_of_blocks Let_def)

lemma default_limit: "k \<le> 25 \<Longrightarrow> 2 ^ k * SBBF_BLOCK_BYTES \<le> QB_DESERIALIZE_MAX_BYTES"
proof -
  assume k: "k \<le> 25"
  then have "(2 :: nat) ^ k \<le> 2 ^ 25" by (intro power_increasing) simp_all
  with k show ?thesis by (simp add: word_le_nat_alt unat_2_power_block QB_DESERIALIZE_MAX_BYTES_def)
qed

lemma over_default_limit: "25 < k \<Longrightarrow> k \<le> 31 \<Longrightarrow> \<not> accepted QB_DESERIALIZE_MAX_BYTES (2 ^ k * SBBF_BLOCK_BYTES)"
proof -
  assume k: "25 < k" "k \<le> 31"
  then have "(2 :: nat) ^ 26 \<le> 2 ^ k" by (intro power_increasing) simp_all
  with k show ?thesis
    by (simp add: accepted_def word_le_nat_alt unat_2_power_block QB_DESERIALIZE_MAX_BYTES_def)
qed

lemma block_bytes_iff:
  "(\<exists>k \<le> 58. nbytes = 2 ^ k * SBBF_BLOCK_BYTES) \<longleftrightarrow> (\<exists>k. unat nbytes = 32 * 2 ^ k)"
proof
  assume "\<exists>k \<le> 58. nbytes = 2 ^ k * SBBF_BLOCK_BYTES"
  then show "\<exists>k. unat nbytes = 32 * 2 ^ k" by (auto simp: unat_2_power_block)
next
  assume "\<exists>k. unat nbytes = 32 * 2 ^ k"
  then obtain k where k: "unat nbytes = 32 * 2 ^ k" by blast
  then have "(2 :: nat) ^ k < 2 ^ 59" using unsigned_less [of nbytes, where 'a = nat] by simp
  then have "k < 59" by (simp only: power_strict_increasing_iff)
  with k show "\<exists>k \<le> 58. nbytes = 2 ^ k * SBBF_BLOCK_BYTES"
    by (intro exI [of _ k]) (auto simp: word_unat_eq_iff unat_2_power_block)
qed

lemma shift_underflow: "32 < k \<Longrightarrow> k \<le> 58 \<Longrightarrow> 64 \<le> unat (32 - of_nat k :: u32)"
proof -
  assume k: "32 < k" "k \<le> 58"
  then have "unat (of_nat k :: u32) = k" by (intro unat_of_nat_small) simp
  with k show ?thesis by (simp add: unat_sub_if' unat_word_ariths)
qed

section \<open>Properties\<close>

text \<open>C8: round trip of a filter. The bytes \<open>qb_serialize\<close> writes for a filter of at most
  \<open>2 ^ 25\<close> blocks, deserialized by a default build, give a second well-formed filter with the same
  number of blocks and the same words; the original and its bits are left as they were.\<close>

theorem serialize_then_deserialize:
  assumes "filter_at hp p k b ws" and "k \<le> 25" and "length dst = 32 * 2 ^ k"
    and "answers_ok hp ab am" and "ab \<noteq> NULL" and "am \<noteq> NULL"
  shows "\<exists>img hp'. qb_serialize ndebug p (Some dst) hp = Some (Done (Some img)) \<and>
     qb_serialized_size ndebug p hp = Some (Done (2 ^ k * SBBF_BLOCK_BYTES)) \<and>
     qb_deserialize QB_DESERIALIZE_MAX_BYTES ab am (Some img) (2 ^ k * SBBF_BLOCK_BYTES) hp = Some (ab, hp') \<and>
     filter_at hp' ab k (filter_struct am k) ws \<and> filter_at hp' p k b ws"
proof -
  have ws: "length ws = 8 * 2 ^ k" using assms(1) by (simp add: filter_at_def)
  have "qb_serialize ndebug p (Some dst) hp = Some (Done (Some (bytes_of ws)))"
    using serialize_eq [OF assms(1)] assms(3) by simp
  moreover have "words_from (8 * 2 ^ k) (bytes_of ws) = ws"
    using words_from_bytes_of [of "8 * 2 ^ k" ws "[]"] ws by simp
  then have "qb_deserialize QB_DESERIALIZE_MAX_BYTES ab am (Some (bytes_of ws)) (2 ^ k * SBBF_BLOCK_BYTES) hp
      = Some (ab, with_filter ab am k ws hp)"
    using deserialize_eq [OF refl _ default_limit [OF assms(2)] _ assms(4), of "bytes_of ws"] assms(2,5,6) ws
    by (simp add: bytes_of_blocks)
  moreover have "filter_at (with_filter ab am k ws hp) p k b ws"
    using assms(1,4-6) by (auto simp: filter_at_def with_filter_def answers_ok_def fresh_def)
  ultimately show ?thesis
    using filter_at_with_filter [OF assms(4-6) _ ws] assms(2) serialized_size_eq [OF assms(1)] by auto
qed

theorem serialize_then_deserialize_witness:
  "\<exists>img hp'. qb_serialize True 64 (Some (replicate 32 0)) demo_heap = Some (Done (Some img)) \<and>
     qb_deserialize QB_DESERIALIZE_MAX_BYTES 128 160 (Some img) (2 ^ 0 * SBBF_BLOCK_BYTES) demo_heap = Some (128, hp') \<and>
     filter_at hp' 128 0 (filter_struct 160 0) (replicate 8 0)"
  using serialize_then_deserialize [OF demo_filter, of "replicate 32 0" 128 160 True]
  by (auto simp: answers_ok_def fresh_def demo_heap_def)

text \<open>C23: round trip of an image. Every image a build accepts whose size is within the range of
  \<open>qb_new\<close>, deserialized and serialized again, comes back byte for byte; its reported size is the
  size that was given.\<close>

theorem deserialize_then_serialize:
  assumes "accepted max_bytes nbytes" and "unat nbytes \<le> 2 ^ 36" and "length src = unat nbytes"
    and "length dst = unat nbytes" and "answers_ok hp ab am" and "ab \<noteq> NULL" and "am \<noteq> NULL"
  shows "\<exists>hp'. qb_deserialize max_bytes ab am (Some src) nbytes hp = Some (ab, hp') \<and>
     qb_serialized_size ndebug ab hp' = Some (Done nbytes) \<and>
     qb_serialize ndebug ab (Some dst) hp' = Some (Done (Some src))"
proof -
  from assms(1) obtain k where k: "k \<le> 58" "nbytes = 2 ^ k * SBBF_BLOCK_BYTES" "nbytes \<le> max_bytes"
    by (auto simp: accepted_iff)
  with assms(2) have "(2 :: nat) ^ k \<le> 2 ^ 31" by (simp add: unat_2_power_block)
  then have k31: "k \<le> 31" by (rule power_le_imp_le_exp [rotated]) simp
  let ?ws = "words_from (8 * 2 ^ k) src"
  have src: "length src = 32 * 2 ^ k" using assms(3) k by (simp add: unat_2_power_block)
  have "qb_deserialize max_bytes ab am (Some src) nbytes hp = Some (ab, with_filter ab am k ?ws hp)"
    using deserialize_eq [OF k(2) k31 k(3) _ assms(5), of src] assms(3,6,7) by simp
  moreover have f: "filter_at (with_filter ab am k ?ws hp) ab k (filter_struct am k) ?ws"
    using filter_at_with_filter [OF assms(5-7) k31] by simp
  moreover have "bytes_of ?ws = src" using src bytes_of_words_from [of "8 * 2 ^ k" src] by simp
  ultimately show ?thesis
    using serialize_eq [OF f] serialized_size_eq [OF f] assms(3,4) k(2) src by auto
qed

theorem deserialize_then_serialize_witness:
  "\<exists>hp'. qb_deserialize QB_DESERIALIZE_MAX_BYTES 64 96 (Some (replicate 64 0xA5)) 64 (\<lambda>_. None) = Some (64, hp') \<and>
     qb_serialized_size False 64 hp' = Some (Done 64) \<and>
     qb_serialize False 64 (Some (replicate 64 0)) hp' = Some (Done (Some (replicate 64 0xA5)))"
  by (rule deserialize_then_serialize)
    (simp_all add: accepted_def QB_DESERIALIZE_MAX_BYTES_def SBBF_BLOCK_BYTES_def answers_ok_def fresh_def)

text \<open>C9: exactly which images are accepted. When both allocations succeed and the buffer is as long
  as claimed, \<open>qb_deserialize\<close> returns a handle precisely if the size is 32 times a power of two and
  at most the build's limit; the bit trick \<open>n & (n - 1)\<close> lets nothing else through.\<close>

theorem deserialize_accepts_iff:
  assumes "unat nbytes \<le> length src" and "answers_ok hp ab am" and "ab \<noteq> NULL" and "am \<noteq> NULL"
  shows "(\<exists>hp'. qb_deserialize max_bytes ab am (Some src) nbytes hp = Some (ab, hp')) =
     (unat nbytes \<le> unat max_bytes \<and> (\<exists>k. unat nbytes = 32 * 2 ^ k))"
proof -
  have "accepted max_bytes nbytes \<longleftrightarrow> unat nbytes \<le> unat max_bytes \<and> (\<exists>k. unat nbytes = 32 * 2 ^ k)"
    by (simp add: accepted_iff word_le_nat_alt block_bytes_iff)
  moreover have "\<exists>hp'. qb_deserialize max_bytes ab am (Some src) nbytes hp = Some (ab, hp')"
    if "accepted max_bytes nbytes"
  proof -
    from that obtain k where k: "k \<le> 58" "nbytes = 2 ^ k * SBBF_BLOCK_BYTES" "nbytes \<le> max_bytes"
      by (auto simp: accepted_iff)
    from deserialize_image [OF k(2,1,3) assms(1,2)] assms(3,4) show ?thesis by simp
  qed
  moreover have "qb_deserialize max_bytes ab am (Some src) nbytes hp = Some (NULL, hp)"
    if "\<not> accepted max_bytes nbytes"
    using that by (intro deserialize_rejects) simp
  ultimately show ?thesis using assms(3) by (cases "accepted max_bytes nbytes") auto
qed

theorem deserialize_accepts_iff_witness:
  "(\<exists>hp'. qb_deserialize QB_DESERIALIZE_MAX_BYTES 64 96 (Some (replicate 96 0)) 96 (\<lambda>_. None) = Some (64, hp'))
     = (unat (96 :: size_t) \<le> unat QB_DESERIALIZE_MAX_BYTES \<and> (\<exists>k. unat (96 :: size_t) = 32 * 2 ^ k))"
  by (rule deserialize_accepts_iff) (simp_all add: answers_ok_def fresh_def)

text \<open>Hostile input is refused without a trace. A null pointer or a size that is zero, above the
  limit, not a multiple of 32 or not a power of two of blocks gives \<open>NULL\<close>: not a byte of the buffer
  is read (it may be of any length), nothing is allocated and the heap is unchanged.\<close>

theorem deserialize_rejects_safely:
  assumes "bytes = None \<or> nbytes = 0 \<or> max_bytes < nbytes \<or> unat nbytes mod 32 \<noteq> 0 \<or>
     (\<nexists>k. unat nbytes = 32 * 2 ^ k)"
  shows "qb_deserialize max_bytes ab am bytes nbytes hp = Some (NULL, hp)"
proof (rule deserialize_rejects)
  have "\<not> accepted max_bytes nbytes" if "bytes \<noteq> None"
  proof
    assume "accepted max_bytes nbytes"
    then have "nbytes \<le> max_bytes" and "\<exists>k. unat nbytes = 32 * 2 ^ k"
      by (simp_all add: accepted_iff block_bytes_iff)
    with assms that show False by auto
  qed
  then show "bytes = None \<or> \<not> accepted max_bytes nbytes" by blast
qed

theorem deserialize_rejects_safely_witness:
  "qb_deserialize QB_DESERIALIZE_MAX_BYTES 64 96 (Some []) 33 (\<lambda>_. None) = Some (NULL, \<lambda>_. None)"
  by (rule deserialize_rejects_safely) simp

text \<open>A filter that \<open>qb_new\<close> can build need not come back. Every filter of more than \<open>2 ^ 25\<close>
  blocks (1 GiB) serializes without complaint into an image that a default build refuses.\<close>

theorem large_filter_not_deserializable:
  assumes "filter_at hp p k b ws" and "25 < k" and "length dst = 32 * 2 ^ k"
  shows "\<exists>img n. qb_serialize ndebug p (Some dst) hp = Some (Done (Some img)) \<and>
     qb_serialized_size ndebug p hp = Some (Done n) \<and>
     qb_deserialize QB_DESERIALIZE_MAX_BYTES ab am (Some img) n hp2 = Some (NULL, hp2)"
proof -
  have "k \<le> 31" using assms(1) by (simp add: filter_at_def)
  with deserialize_rejects [OF disjI2 [OF over_default_limit [OF assms(2)]]] serialize_eq [OF assms(1)]
    serialized_size_eq [OF assms(1)] assms(3) show ?thesis by auto
qed

theorem large_filter_not_deserializable_witness:
  "\<exists>img n. qb_serialize True 64 (Some (replicate (32 * 2 ^ 26) 0))
       [64 \<mapsto> Struct (filter_struct 96 26), 96 \<mapsto> Words (replicate (8 * 2 ^ 26) 0)] = Some (Done (Some img)) \<and>
     qb_deserialize QB_DESERIALIZE_MAX_BYTES 0 0 (Some img) n Map.empty = Some (NULL, Map.empty)"
proof -
  have "filter_at [64 \<mapsto> Struct (filter_struct 96 26), 96 \<mapsto> Words (replicate (8 * 2 ^ 26) 0)]
      64 26 (filter_struct 96 26) (replicate (8 * 2 ^ 26) 0)"
    by (simp add: filter_at_def filter_struct_def)
  from large_filter_not_deserializable [OF this, of "replicate (32 * 2 ^ 26) 0" True 0 0 Map.empty]
  show ?thesis by auto
qed

text \<open>C39: the limit is load-bearing. In a build whose \<open>QB_DESERIALIZE_MAX_BYTES\<close> admits an image of
  more than \<open>2 ^ 32\<close> blocks, \<open>qb_deserialize\<close> accepts it, but \<open>32 - log2_pow2(nblocks)\<close> underflows and
  every insert and query on the new filter shifts out of range, which C does not define.\<close>

theorem oversized_limit_breaks_queries:
  assumes "nbytes = 2 ^ k * SBBF_BLOCK_BYTES" and "32 < k" and "k \<le> 58" and "nbytes \<le> max_bytes"
    and "unat nbytes \<le> length src" and "answers_ok hp ab am" and "ab \<noteq> NULL" and "am \<noteq> NULL"
  shows "\<exists>hp'. qb_deserialize max_bytes ab am (Some src) nbytes hp = Some (ab, hp') \<and>
     qb_insert_prehash ab h hp' = None \<and> qb_contains_prehash ab h hp' = None"
proof -
  let ?hp = "hp(am \<mapsto> Words (words_from (8 * 2 ^ k) src), ab \<mapsto> Struct (image_struct am k))"
  have "qb_deserialize max_bytes ab am (Some src) nbytes hp = Some (ab, ?hp)"
    using deserialize_image [OF assms(1,3,4,5,6)] assms(7,8) by simp
  moreover have "block_for (image_struct am k) h = None"
    using shift_underflow [OF assms(2,3)] by (simp add: block_for_def image_struct_def)
  then have "qb_insert_prehash ab h ?hp = None" and "qb_contains_prehash ab h ?hp = None"
    by (simp_all add: qb_insert_prehash_def qb_contains_prehash_def)
  ultimately show ?thesis by blast
qed

theorem oversized_limit_breaks_queries_witness:
  "\<exists>hp'. qb_deserialize 0x4000000000 64 96 (Some (replicate (2 ^ 38) 0)) (2 ^ 33 * SBBF_BLOCK_BYTES) Map.empty
       = Some (64, hp') \<and> qb_insert_prehash 64 5 hp' = None \<and> qb_contains_prehash 64 5 hp' = None"
  by (rule oversized_limit_breaks_queries [OF refl])
    (simp_all add: unat_2_power_block answers_ok_def fresh_def SBBF_BLOCK_BYTES_def)

text \<open>The documented contract of null arguments: with assertions enabled both functions abort, in
  a release build the size of a null filter is 0 and serializing from or to a null pointer leaves
  the destination as it was.\<close>

theorem serialize_null_contract:
  "qb_serialized_size ndebug NULL hp = Some (if ndebug then Done 0 else Aborted) \<and>
   qb_serialize ndebug NULL dst hp = Some (if ndebug then Done dst else Aborted) \<and>
   qb_serialize ndebug p None hp = Some (if ndebug then Done None else Aborted)"
  by (simp add: qb_serialized_size_def qb_serialize_def)

end
