(* ===== verification/Qb_Api.thy ===== *)
theory Qb_Api
  imports Qb_Bulk Qb_Serialize
begin

text \<open>
  The public interface of \<open>quickbloom.h\<close> as a state machine: a call is one of the functions that
  change memory, with its arguments and the allocator's answers, and a run is any sequence of
  calls a client may make. The invariant says who owns which block: every bit array belongs to
  exactly one live filter, every live filter is well formed, and nothing else is allocated. It is
  kept by every call, so no client can make the library fault, leak or let two filters interfere.
\<close>

section \<open>Calls\<close>

datatype call =
    New addr addr size_t
  | Free addr
  | Insert addr "u8 list" nat
  | Insert_Bulk addr "u8 list" nat nat
  | Insert_Prehash addr u64
  | Insert_Prehash_Bulk addr "u64 list" nat
  | Deserialize addr addr "u8 list option" size_t

fun run_call :: "call \<Rightarrow> qb_heap \<Rightarrow> qb_heap option" where
  "run_call (New ab am nbits) hp = map_option snd (qb_new ab am nbits hp)"
| "run_call (Free p) hp = qb_free p hp"
| "run_call (Insert p key len) hp = qb_insert p key len hp"
| "run_call (Insert_Bulk p keys klen n) hp = qb_insert_bulk p keys klen n hp"
| "run_call (Insert_Prehash p h) hp = qb_insert_prehash p h hp"
| "run_call (Insert_Prehash_Bulk p hashes n) hp = qb_insert_prehash_bulk p hashes n hp"
| "run_call (Deserialize ab am src nbytes) hp =
     map_option snd (qb_deserialize QB_DESERIALIZE_MAX_BYTES ab am src nbytes hp)"

text \<open>
  The duties of the client and of the allocator: a handle is live (or \<open>NULL\<close>, for
  \<open>qb_free\<close>), a buffer is as long as claimed, an allocation answers a fresh address.
\<close>

definition live :: "qb_heap \<Rightarrow> addr \<Rightarrow> bool" where
  "live hp p \<longleftrightarrow> read_struct p hp \<noteq> None"

fun call_ok :: "call \<Rightarrow> qb_heap \<Rightarrow> bool" where
  "call_ok (New ab am nbits) hp = answers_ok hp ab am"
| "call_ok (Free p) hp = (p = NULL \<or> live hp p)"
| "call_ok (Insert p key len) hp = (live hp p \<and> len \<le> length key)"
| "call_ok (Insert_Bulk p keys klen n) hp = (live hp p \<and> n * klen \<le> length keys)"
| "call_ok (Insert_Prehash p h) hp = live hp p"
| "call_ok (Insert_Prehash_Bulk p hashes n) hp = (live hp p \<and> n \<le> length hashes)"
| "call_ok (Deserialize ab am src nbytes) hp =
     (answers_ok hp ab am \<and> (\<forall>bs \<in> set_option src. unat nbytes \<le> length bs))"

text \<open>The handle whose bits a call may change.\<close>

fun target :: "call \<Rightarrow> addr option" where
  "target (Insert p _ _) = Some p"
| "target (Insert_Bulk p _ _ _) = Some p"
| "target (Insert_Prehash p _) = Some p"
| "target (Insert_Prehash_Bulk p _ _) = Some p"
| "target (Free p) = Some p"
| "target _ = None"

inductive api_step :: "qb_heap \<Rightarrow> call \<Rightarrow> qb_heap \<Rightarrow> bool" where
  "call_ok c hp \<Longrightarrow> run_call c hp = Some hp' \<Longrightarrow> api_step hp c hp'"

inductive_cases api_stepE: "api_step hp c hp'"
inductive_simps api_step_iff: "api_step hp c hp'"

inductive reachable :: "qb_heap \<Rightarrow> bool" where
  start: "reachable Map.empty"
| step: "reachable hp \<Longrightarrow> api_step hp c hp' \<Longrightarrow> reachable hp'"

section \<open>Ownership\<close>

definition owned :: "qb_heap \<Rightarrow> bool" where
  "owned hp \<longleftrightarrow>
     (\<forall>p b. hp p = Some (Struct b) \<longrightarrow> (\<exists>k ws. filter_at hp p k b ws)) \<and>
     (\<forall>p q b c. hp p = Some (Struct b) \<and> hp q = Some (Struct c) \<and> bits b = bits c \<longrightarrow> p = q) \<and>
     (\<forall>a ws. hp a = Some (Words ws) \<longrightarrow> (\<exists>p b. hp p = Some (Struct b) \<and> bits b = a)) \<and>
     (\<forall>a n. hp a \<noteq> Some (Raw n))"

lemma owned_empty: "owned Map.empty"
  by (simp add: owned_def)

lemma ownedD:
  assumes "owned hp"
  shows "hp p = Some (Struct b) \<Longrightarrow> \<exists>k ws. filter_at hp p k b ws"
    and "hp p = Some (Struct b) \<Longrightarrow> hp q = Some (Struct c) \<Longrightarrow> bits b = bits c \<Longrightarrow> p = q"
    and "hp a = Some (Words ws) \<Longrightarrow> \<exists>p b. hp p = Some (Struct b) \<and> bits b = a"
    and "hp a \<noteq> Some (Raw n)"
  using assms unfolding owned_def by blast+

lemma live_filter:
  assumes "owned hp" and "live hp p"
  obtains k b ws where "filter_at hp p k b ws"
proof -
  from assms(2) obtain b where "hp p = Some (Struct b)" by (auto simp: live_def read_struct_eq)
  with ownedD(1) [OF assms(1)] that show thesis by blast
qed

lemma filter_at_frame:
  "filter_at hp q j c vs \<Longrightarrow> hp' q = hp q \<Longrightarrow> hp' (bits c) = hp (bits c) \<Longrightarrow> filter_at hp' q j c vs"
  by (simp add: filter_at_def)

lemma separate:
  assumes "owned hp" and "filter_at hp p k b ws" and "filter_at hp q j c vs" and "p \<noteq> q"
  shows "bits b \<noteq> bits c" and "bits b \<noteq> q" and "p \<noteq> bits c" and "bits b \<noteq> p"
  using assms ownedD(2) [OF assms(1), of p b q c] by (auto simp: filter_at_def)

text \<open>The three ways a call changes memory keep the ownership.\<close>

lemma owned_update:
  assumes own: "owned hp" and f: "filter_at hp p k b ws" and len: "length ws' = length ws"
  shows "owned (hp(bits b \<mapsto> Words ws'))"
proof -
  let ?hp = "hp(bits b \<mapsto> Words ws')"
  have structs: "?hp q = Some (Struct c) \<longleftrightarrow> hp q = Some (Struct c)" for q c
    using f by (auto simp: filter_at_def)
  have "\<exists>j vs. filter_at ?hp q j c vs" if "hp q = Some (Struct c)" for q c
  proof (cases "q = p")
    case True
    with that f have "c = b" by (simp add: filter_at_def)
    with True filter_at_update [OF f len] show ?thesis by blast
  next
    case False
    from ownedD(1) [OF own that] obtain j vs where g: "filter_at hp q j c vs" by blast
    with separate [OF own f g] False have "filter_at ?hp q j c vs"
      by (intro filter_at_frame [OF g]) auto
    then show ?thesis by blast
  qed
  moreover have "\<exists>q c. hp q = Some (Struct c) \<and> bits c = a" if "?hp a = Some (Words vs)" for a vs
    using that f ownedD(3) [OF own, of a vs] by (auto simp: filter_at_def split: if_splits)
  moreover have "?hp a \<noteq> Some (Raw n)" for a n using ownedD(4) [OF own] by auto
  ultimately show ?thesis
    unfolding owned_def structs using ownedD(2) [OF own] by blast
qed

lemma owned_new:
  assumes own: "owned hp" and ans: "answers_ok hp p mem" and nn: "p \<noteq> NULL" "mem \<noteq> NULL"
    and k: "k \<le> 31" and len: "length ws = 8 * 2 ^ k"
  shows "owned (with_filter p mem k ws hp)"
proof -
  let ?hp = "with_filter p mem k ws hp"
  have fresh: "hp p = None" "hp mem = None" "p \<noteq> mem"
    using ans nn by (auto simp: answers_ok_def fresh_def)
  have structs: "?hp q = Some (Struct c) \<longleftrightarrow> (if q = p then c = filter_struct mem k else hp q = Some (Struct c))" for q c
    using fresh by (auto simp: with_filter_def)
  have old: "filter_at ?hp q j c vs" "bits c \<noteq> mem" if "filter_at hp q j c vs" for q j c vs
    using that fresh by (auto simp: filter_at_def with_filter_def)
  have "\<exists>j vs. filter_at ?hp q j c vs" if "?hp q = Some (Struct c)" for q c
  proof (cases "q = p")
    case True
    with that filter_at_with_filter [OF ans nn k len] show ?thesis by (auto simp: structs)
  next
    case False
    with that ownedD(1) [OF own, of q c] old(1) show ?thesis by (auto simp: structs) blast
  qed
  moreover have "q = q'" if "?hp q = Some (Struct c)" "?hp q' = Some (Struct c')" "bits c = bits c'" for q q' c c'
    using that ownedD(1) [OF own] ownedD(2) [OF own] old(2)
    by (auto simp: structs filter_struct_def split: if_splits) (metis+)?
  moreover have "\<exists>q c. ?hp q = Some (Struct c) \<and> bits c = a" if "?hp a = Some (Words vs)" for a vs
  proof (cases "a = mem")
    case True
    then show ?thesis by (intro exI [of _ p] exI [of _ "filter_struct mem k"]) (auto simp: structs filter_struct_def)
  next
    case False
    with that have "hp a = Some (Words vs)" by (auto simp: with_filter_def split: if_splits)
    with ownedD(3) [OF own] obtain q c where "hp q = Some (Struct c)" "bits c = a" by blast
    with fresh show ?thesis by (intro exI [of _ q] exI [of _ c]) (auto simp: structs)
  qed
  moreover have "?hp a \<noteq> Some (Raw n)" for a n using ownedD(4) [OF own] by (auto simp: with_filter_def)
  ultimately show ?thesis unfolding owned_def by blast
qed

lemma owned_free:
  assumes own: "owned hp" and f: "filter_at hp p k b ws"
  shows "owned (hp(bits b := None, p := None))"
proof -
  let ?hp = "hp(bits b := None, p := None)"
  have structs: "?hp q = Some (Struct c) \<longleftrightarrow> q \<noteq> p \<and> hp q = Some (Struct c)" for q c
    by (cases "q = p"; cases "q = bits b") (use f in \<open>auto simp: filter_at_def\<close>)
  have "\<exists>j vs. filter_at ?hp q j c vs" if "?hp q = Some (Struct c)" for q c
  proof -
    from that have q: "q \<noteq> p" "hp q = Some (Struct c)" using structs [of q c] by blast+
    from ownedD(1) [OF own q(2)] obtain j vs where g: "filter_at hp q j c vs" by blast
    from separate [OF own f g] q(1) have "filter_at ?hp q j c vs"
      by (intro filter_at_frame [OF g]) auto
    then show ?thesis by blast
  qed
  moreover have "q = q'" if "?hp q = Some (Struct c)" "?hp q' = Some (Struct c')" "bits c = bits c'" for q q' c c'
    using that ownedD(2) [OF own] unfolding structs by blast
  moreover have "\<exists>q c. ?hp q = Some (Struct c) \<and> bits c = a" if "?hp a = Some (Words vs)" for a vs
  proof -
    from that have a: "a \<noteq> bits b" "hp a = Some (Words vs)" by (auto split: if_splits)
    with ownedD(3) [OF own] obtain q c where q: "hp q = Some (Struct c)" "bits c = a" by blast
    then have "q \<noteq> p" using f a by (auto simp: filter_at_def)
    with q show ?thesis by (intro exI [of _ q] exI [of _ c] conjI iffD2 [OF structs]) auto
  qed
  moreover have "?hp a \<noteq> Some (Raw n)" for a n using ownedD(4) [OF own] by auto
  ultimately show ?thesis unfolding owned_def by blast
qed

section \<open>What a call does to memory\<close>

lemma foldM_update:
  assumes "filter_at hp p k b ws"
    and "\<And>x hp ws. x \<in> set xs \<Longrightarrow> filter_at hp p k b ws \<Longrightarrow>
      \<exists>ws'. step x hp = Some (hp(bits b \<mapsto> Words ws')) \<and> length ws' = length ws"
  shows "\<exists>ws'. foldM step xs hp = Some (hp(bits b \<mapsto> Words ws')) \<and> length ws' = length ws"
  using assms
proof (induction xs arbitrary: hp ws)
  case Nil
  then have "hp(bits b \<mapsto> Words ws) = hp" by (simp add: filter_at_def fun_upd_idem)
  then show ?case by (intro exI [of _ ws]) simp
next
  case (Cons x xs)
  then obtain ws1 where x: "step x hp = Some (hp(bits b \<mapsto> Words ws1))" "length ws1 = length ws"
    by (metis list.set_intros(1))
  have "\<exists>ws'. foldM step xs (hp(bits b \<mapsto> Words ws1)) = Some (hp(bits b \<mapsto> Words ws1, bits b \<mapsto> Words ws')) \<and>
      length ws' = length ws1"
    using Cons.prems(2) by (intro Cons.IH [OF filter_at_update [OF Cons.prems(1) x(2)]]) auto
  with x show ?case by (auto simp del: fun_upd_apply)
qed

lemma insert_prehash_update:
  "filter_at hp p k b ws \<Longrightarrow>
     \<exists>ws'. qb_insert_prehash p h hp = Some (hp(bits b \<mapsto> Words ws')) \<and> length ws' = length ws"
  by (auto simp: insert_prehash_eq block_in_bounds intro!: exI [of _ "set_hash k h ws"])

lemma insert_update:
  "filter_at hp p k b ws \<Longrightarrow> len \<le> length key \<Longrightarrow>
     \<exists>ws'. qb_insert p key len hp = Some (hp(bits b \<mapsto> Words ws')) \<and> length ws' = length ws"
  by (simp add: insert_via_prehash bloom_hash_eq insert_prehash_update)

lemma insert_bulk_update:
  assumes "filter_at hp p k b ws" and "n * klen \<le> length keys"
  shows "\<exists>ws'. qb_insert_bulk p keys klen n hp = Some (hp(bits b \<mapsto> Words ws')) \<and> length ws' = length ws"
  unfolding insert_bulk_eq
proof (rule foldM_update [OF assms(1)])
  fix i hp ws assume "i \<in> set [0..<n]" and f: "filter_at hp p k b ws"
  with key_in_buffer [OF assms(2), of i] have "klen \<le> length (drop (i * klen) keys)" by auto
  with insert_update [OF f this] show "\<exists>ws'. insert_at p keys klen i hp = Some (hp(bits b \<mapsto> Words ws')) \<and> length ws' = length ws"
    by (simp add: insert_at_def)
qed

lemma insert_prehash_bulk_update:
  assumes "filter_at hp p k b ws" and "n \<le> length hashes"
  shows "\<exists>ws'. qb_insert_prehash_bulk p hashes n hp = Some (hp(bits b \<mapsto> Words ws')) \<and> length ws' = length ws"
  unfolding insert_prehash_bulk_eq
  by (rule foldM_update [OF assms(1)])
    (use assms(2) in \<open>auto simp: insert_prehash_at_def rd_at_Some insert_prehash_update\<close>)

text \<open>A call leaves the heap alone, overwrites its target's bits, adds a filter or removes its target.\<close>

inductive effect :: "call \<Rightarrow> qb_heap \<Rightarrow> qb_heap \<Rightarrow> bool" where
  none: "effect c hp hp"
| update: "target c = Some p \<Longrightarrow> filter_at hp p k b ws \<Longrightarrow> length ws' = length ws \<Longrightarrow>
    effect c hp (hp(bits b \<mapsto> Words ws'))"
| new: "answers_ok hp p mem \<Longrightarrow> p \<noteq> NULL \<Longrightarrow> mem \<noteq> NULL \<Longrightarrow> k \<le> 31 \<Longrightarrow> length ws = 8 * 2 ^ k \<Longrightarrow>
    effect c hp (with_filter p mem k ws hp)"
| free: "target c = Some p \<Longrightarrow> filter_at hp p k b ws \<Longrightarrow>
    effect c hp (hp(bits b := None, p := None))"

lemma update_effect:
  assumes "target c = Some p" and "filter_at hp p k b ws"
    and "\<exists>ws'. run_call c hp = Some (hp(bits b \<mapsto> Words ws')) \<and> length ws' = length ws"
  shows "\<exists>hp'. run_call c hp = Some hp' \<and> effect c hp hp'"
  using assms effect.update [OF assms(1,2)] by blast

lemma new_effect:
  assumes "answers_ok hp ab am"
  shows "\<exists>hp'. run_call (New ab am nbits) hp = Some hp' \<and> effect (New ab am nbits) hp hp'"
proof (cases "request nbits \<le> QB_MAX_NBLOCKS")
  case True
  from qb_new_eq [OF this assms] obtain k where "k \<le> 31" and
    "qb_new ab am nbits hp = Some (if ab = NULL \<or> am = NULL then (NULL, hp)
       else (ab, with_filter ab am k (replicate (8 * 2 ^ k) 0) hp))" by blast
  then show ?thesis
    using effect.new [OF assms, of k "replicate (8 * 2 ^ k) 0"] by (cases "ab = NULL \<or> am = NULL") (auto intro: effect.none)
next
  case False
  then show ?thesis by (auto simp: qb_new_too_big intro: effect.none)
qed

lemma default_accepts:
  assumes "accepted QB_DESERIALIZE_MAX_BYTES nbytes"
  obtains k where "k \<le> 31" "nbytes = 2 ^ k * SBBF_BLOCK_BYTES" "nbytes \<le> QB_DESERIALIZE_MAX_BYTES"
proof -
  from assms obtain k where k: "k \<le> 58" "nbytes = 2 ^ k * SBBF_BLOCK_BYTES" "nbytes \<le> QB_DESERIALIZE_MAX_BYTES"
    by (auto simp: accepted_iff)
  then have "32 * (2 :: nat) ^ k \<le> 2 ^ 30"
    by (simp add: word_le_nat_alt unat_2_power_block QB_DESERIALIZE_MAX_BYTES_def)
  then have "(2 :: nat) ^ k \<le> 2 ^ 25" by simp
  then have "k \<le> 25" by (rule power_le_imp_le_exp [rotated]) simp
  with k that [of k] show thesis by simp
qed

lemma deserialize_effect:
  assumes "answers_ok hp ab am" and "\<forall>bs \<in> set_option src. unat nbytes \<le> length bs"
  shows "\<exists>hp'. run_call (Deserialize ab am src nbytes) hp = Some hp' \<and> effect (Deserialize ab am src nbytes) hp hp'"
proof (cases "src = None \<or> \<not> accepted QB_DESERIALIZE_MAX_BYTES nbytes")
  case True
  then show ?thesis by (auto simp: deserialize_rejects intro: effect.none)
next
  case False
  then obtain bs k where bs: "src = Some bs" and
    k: "k \<le> 31" "nbytes = 2 ^ k * SBBF_BLOCK_BYTES" "nbytes \<le> QB_DESERIALIZE_MAX_BYTES"
    by (auto elim: default_accepts)
  from deserialize_eq [OF k(2,1,3) _ assms(1), of bs] assms(2) bs k(1)
    effect.new [OF assms(1), of k "words_from (8 * 2 ^ k) bs"] show ?thesis
    by (cases "ab = NULL \<or> am = NULL") (auto intro: effect.none)
qed

lemma call_effect:
  assumes own: "owned hp" and ok: "call_ok c hp"
  shows "\<exists>hp'. run_call c hp = Some hp' \<and> effect c hp hp'"
proof (cases c)
  case (New ab am nbits)
  with ok show ?thesis using new_effect [of hp ab am nbits] by simp
next
  case (Deserialize ab am src nbytes)
  with ok show ?thesis using deserialize_effect [of hp ab am src nbytes] by simp
next
  case (Free p)
  show ?thesis
  proof (cases "p = NULL")
    case True
    with Free show ?thesis by (auto simp: qb_free_def intro: effect.none)
  next
    case False
    with ok Free live_filter [OF own, of p] obtain k b ws where "filter_at hp p k b ws" by auto
    with Free show ?thesis by (auto simp: qb_free_eq simp del: fun_upd_apply intro: effect.free)
  qed
next
  case (Insert p key len)
  with ok live_filter [OF own, of p] obtain k b ws where "filter_at hp p k b ws" by auto
  with insert_update [OF this, of len key] update_effect [OF _ this, of c] ok Insert show ?thesis by auto
next
  case (Insert_Bulk p keys klen n)
  with ok live_filter [OF own, of p] obtain k b ws where "filter_at hp p k b ws" by auto
  with insert_bulk_update [OF this, of n klen keys] update_effect [OF _ this, of c] ok Insert_Bulk show ?thesis by auto
next
  case (Insert_Prehash p h)
  with ok live_filter [OF own, of p] obtain k b ws where "filter_at hp p k b ws" by auto
  with insert_prehash_update [OF this, of h] update_effect [OF _ this, of c] ok Insert_Prehash show ?thesis by auto
next
  case (Insert_Prehash_Bulk p hashes n)
  with ok live_filter [OF own, of p] obtain k b ws where "filter_at hp p k b ws" by auto
  with insert_prehash_bulk_update [OF this, of n hashes] update_effect [OF _ this, of c] ok Insert_Prehash_Bulk show ?thesis by auto
qed

lemma effect_owned: "effect c hp hp' \<Longrightarrow> owned hp \<Longrightarrow> owned hp'"
  by (induction rule: effect.induct) (auto intro: owned_update owned_new owned_free)

lemma step_effect:
  assumes "owned hp" and "api_step hp c hp'"
  shows "effect c hp hp'"
proof -
  from assms(2) have "call_ok c hp" and "run_call c hp = Some hp'" by (auto elim: api_stepE)
  with call_effect [OF assms(1), of c] show ?thesis by simp
qed

lemma reachable_owned: "reachable hp \<Longrightarrow> owned hp"
  by (induction rule: reachable.induct) (auto intro: owned_empty effect_owned step_effect)

text \<open>Filters that a call does not target keep their structure and their words.\<close>

lemma effect_frame:
  assumes "effect c hp hp'" and own: "owned hp" and g: "filter_at hp q j d vs" and "target c \<noteq> Some q"
  shows "filter_at hp' q j d vs"
  using assms(1)
proof cases
  case (update p k b ws ws')
  then have "p \<noteq> q" using assms(4) by auto
  from separate [OF own update(3) g this] show ?thesis
    unfolding update(1) by (intro filter_at_frame [OF g]) auto
next
  case (new p mem k ws)
  then show ?thesis using g by (auto simp: filter_at_def with_filter_def answers_ok_def fresh_def)
next
  case (free p k b ws)
  then have "p \<noteq> q" using assms(4) by auto
  from separate [OF own free(3) g this] \<open>p \<noteq> q\<close> show ?thesis
    unfolding free(1) by (intro filter_at_frame [OF g]) auto
qed (use g in simp)

section \<open>Properties\<close>

text \<open>C1: the library cannot be made to fault. In every heap a client can reach from an empty one by
  any sequence of calls on live handles and long enough buffers, with any allocator failures, every
  further such call returns, and every live handle denotes a well-formed filter.\<close>

theorem api_never_faults:
  assumes "reachable hp" and "call_ok c hp"
  shows "\<exists>hp'. run_call c hp = Some hp' \<and> reachable hp' \<and>
     (\<forall>p. live hp' p \<longrightarrow> (\<exists>k b ws. filter_at hp' p k b ws))"
proof -
  note own = reachable_owned [OF assms(1)]
  from call_effect [OF own assms(2)] obtain hp' where hp': "run_call c hp = Some hp'" by blast
  with assms have r: "reachable hp'" by (intro reachable.step [OF assms(1)] api_step.intros)
  from live_filter [OF reachable_owned [OF r]] have "\<exists>k b ws. filter_at hp' p k b ws" if "live hp' p" for p
    using that by metis
  with hp' r show ?thesis by blast
qed

lemma demo_new: "run_call (New 64 96 0) Map.empty = Some (with_filter 64 96 0 (replicate 8 0) Map.empty)"
proof -
  have "answers_ok Map.empty 64 96" by (simp add: answers_ok_def fresh_def)
  moreover have one: "request 0 = 1" by (simp add: request_def Let_def)
  ultimately obtain k where "\<forall>i < k. (2 :: nat) ^ i < 1" and
    run: "qb_new 64 96 0 Map.empty = Some (64, with_filter 64 96 k (replicate (8 * 2 ^ k) 0) Map.empty)"
    using qb_new_eq [of 0 Map.empty 64 96] by (auto simp: QB_MAX_NBLOCKS_def)
  then have "k = 0" by (metis gr_zeroI less_irrefl power_0)
  with run show ?thesis by simp
qed

lemma demo_reachable:
  "reachable (with_filter 64 96 0 (replicate 8 0) Map.empty)" (is "reachable ?hp")
proof -
  have "answers_ok Map.empty 64 96" by (simp add: answers_ok_def fresh_def)
  then have "api_step Map.empty (New 64 96 0) ?hp" by (intro api_step.intros demo_new) simp
  then show ?thesis by (rule reachable.step [OF reachable.start])
qed

theorem api_never_faults_witness:
  "\<exists>hp'. run_call (Insert 64 [1, 2] 2) (with_filter 64 96 0 (replicate 8 0) Map.empty) = Some hp' \<and> reachable hp'"
  using api_never_faults [OF demo_reachable, of "Insert 64 [1, 2] 2"]
  by (auto simp: live_def read_struct_def with_filter_def)

text \<open>C20: no leaks. In every reachable heap each allocated block is a live filter's structure or the
  bit array of exactly one live filter, so once every filter has been freed nothing is
  allocated.\<close>

theorem api_no_leaks:
  assumes "reachable hp"
  shows "(\<forall>a \<in> dom hp. live hp a \<or> (\<exists>!p. \<exists>b. hp p = Some (Struct b) \<and> bits b = a)) \<and>
     ((\<forall>p. \<not> live hp p) \<longrightarrow> hp = Map.empty)"
proof -
  note own = reachable_owned [OF assms]
  have "live hp a \<or> (\<exists>!p. \<exists>b. hp p = Some (Struct b) \<and> bits b = a)" if "a \<in> dom hp" for a
  proof -
    from that obtain x where x: "hp a = Some x" by blast
    show ?thesis
    proof (cases x)
      case (Words ws)
      with x ownedD(3) [OF own] obtain p b where p: "hp p = Some (Struct b)" "bits b = a" by blast
      then have "q = p" if "\<exists>c. hp q = Some (Struct c) \<and> bits c = a" for q
        using that ownedD(2) [OF own, of q _ p b] by blast
      with p show ?thesis by blast
    qed (use x ownedD(4) [OF own] in \<open>auto simp: live_def\<close>)
  qed
  moreover have "hp = Map.empty" if dead: "\<forall>p. \<not> live hp p"
  proof
    fix a
    have "\<not> (\<exists>b. hp p = Some (Struct b))" for p
      using dead [rule_format, of p] by (auto simp: live_def)
    with calculation dead show "hp a = None" by blast
  qed
  ultimately show ?thesis by blast
qed

theorem api_no_leaks_witness:
  "\<exists>!p. \<exists>b. (with_filter 64 96 0 (replicate 8 0) Map.empty :: qb_heap) p = Some (Struct b) \<and> bits b = 96"
proof -
  let ?hp = "with_filter 64 96 0 (replicate 8 0) Map.empty :: qb_heap"
  have "96 \<in> dom ?hp" and "\<not> live ?hp 96" by (simp_all add: with_filter_def live_def read_struct_def)
  with api_no_leaks [OF demo_reachable] show ?thesis by blast
qed

text \<open>C30: filters do not interfere. In every reachable heap a call changes no filter but the one it
  is given: every other live handle keeps its structure, its words and so all its answers.\<close>

theorem api_filters_isolated:
  assumes "reachable hp" and "api_step hp c hp'" and "target c \<noteq> Some q" and "live hp q"
  shows "read_struct q hp' = read_struct q hp \<and> qb_contains_prehash q h hp' = qb_contains_prehash q h hp"
proof -
  note own = reachable_owned [OF assms(1)]
  from live_filter [OF own assms(4)] obtain j d vs where g: "filter_at hp q j d vs" .
  from effect_frame [OF step_effect [OF own assms(2)] own g assms(3)]
  have "filter_at hp' q j d vs" .
  moreover from this g have "read_struct q hp' = read_struct q hp" by (simp add: filter_at_def)
  ultimately show ?thesis by (simp add: contains_prehash_eq [OF g] contains_prehash_eq)
qed

theorem api_filters_isolated_witness:
  "\<exists>hp'. api_step (with_filter 64 96 0 (replicate 8 0) Map.empty) (New 128 160 0) hp' \<and>
     qb_contains_prehash 64 9 hp' = qb_contains_prehash 64 9 (with_filter 64 96 0 (replicate 8 0) Map.empty)"
proof -
  let ?hp = "with_filter 64 96 0 (replicate 8 0) Map.empty :: qb_heap"
  have ok: "call_ok (New 128 160 0) ?hp" by (simp add: answers_ok_def fresh_def with_filter_def)
  from call_effect [OF reachable_owned [OF demo_reachable] this] obtain hp' where
    "run_call (New 128 160 0) ?hp = Some hp'" by blast
  with ok have st: "api_step ?hp (New 128 160 0) hp'" by (rule api_step.intros)
  have "live ?hp 64" by (simp add: live_def with_filter_def read_struct_def)
  from api_filters_isolated [OF demo_reachable st _ this, of 9] st show ?thesis by auto
qed

end
