(* ===== verification/Qb_Concurrent.thy ===== *)
theory Qb_Concurrent
  imports Qb_Filter
begin

text \<open>
  The thread-safety notes of \<open>quickbloom.h\<close>. \<open>qb_insert_prehash\<close> loads a block, sets the mask and
  stores it back without any synchronisation, and neither the 256-bit load nor the store is
  atomic: here each moves one 32-bit lane at a time, in any order, interleaved with the lanes of
  other threads. A run is a list of events; an event that is not enabled gives \<open>None\<close>. A lane of a
  hash is a word of the block that \<open>block_for\<close> gives (\<open>block_for_eq\<close>), and an operation whose steps
  no other thread interrupts is the translated function of \<open>Qb_Filter\<close>. With one writer, or several
  that never share a block, no reader ever misses a completed insertion; two writers on one block
  can lose one (\<open>lost_update\<close>).
\<close>

section \<open>Threads\<close>

text \<open>
  A writer is idle, or has loaded some lanes of the block of its hash, or has some lanes of
  \<open>_mm256_or_si256(cur, m)\<close> left to store. A reader has loaded some lanes; it remembers whether the
  insertion of its hash had completed when it began.
\<close>

datatype writer = Idle | Loading u64 "nat \<rightharpoonup> u32" | Storing u64 "nat \<rightharpoonup> u32" "nat list"

datatype reader = Off | Reading u64 bool "nat \<rightharpoonup> u32"

record conc =
  words :: "u32 list"
  writers :: "writer list"
  reader :: reader
  finished :: "u64 list"
  answers :: "(u64 \<times> bool \<times> nat) list"

datatype event =
    W_Begin nat u64 | W_Load nat nat | W_Or nat | W_Store nat nat | W_End nat
  | R_Begin u64 | R_Load nat | R_End

definition lane :: "nat \<Rightarrow> u64 \<Rightarrow> nat \<Rightarrow> nat" where
  "lane k h j = 8 * block_index k h + j"

definition lane_mask :: "u64 \<Rightarrow> nat \<Rightarrow> u32" where
  "lane_mask h j = mask_for (ucast h) ! j"

definition all_lanes :: "(nat \<rightharpoonup> u32) \<Rightarrow> bool" where
  "all_lanes l \<longleftrightarrow> (\<forall>j \<in> set [0..<8]. l j \<noteq> None)"

definition vec :: "(nat \<rightharpoonup> u32) \<Rightarrow> m256i" where
  "vec l = map (\<lambda>j. the (l j)) [0..<8]"

definition set_writer :: "nat \<Rightarrow> writer \<Rightarrow> conc \<Rightarrow> conc" where
  "set_writer i w st = st\<lparr>writers := (writers st)[i := w]\<rparr>"

fun conc_step :: "nat \<Rightarrow> event \<Rightarrow> conc \<Rightarrow> conc option" where
  "conc_step k (W_Begin i h) st = do {
     w \<leftarrow> rd_at (writers st) i;
     (case w of Idle \<Rightarrow> Some (set_writer i (Loading h Map.empty) st) | _ \<Rightarrow> None) }"
| "conc_step k (W_Load i j) st = do {
     w \<leftarrow> rd_at (writers st) i;
     (case w of
        Loading h l \<Rightarrow>
          if j < 8 \<and> l j = None
          then do { x \<leftarrow> rd_at (words st) (lane k h j); Some (set_writer i (Loading h (l(j \<mapsto> x))) st) }
          else None
      | _ \<Rightarrow> None) }"
| "conc_step k (W_Or i) st = do {
     w \<leftarrow> rd_at (writers st) i;
     (case w of
        Loading h l \<Rightarrow>
          if all_lanes l
          then
            let v = mm256_or_si256 (vec l) (mask_for (ucast h))
            in Some (set_writer i (Storing h (\<lambda>j. if j < 8 then Some (v ! j) else None) [0..<8]) st)
          else None
      | _ \<Rightarrow> None) }"
| "conc_step k (W_Store i j) st = do {
     w \<leftarrow> rd_at (writers st) i;
     (case w of
        Storing h v left \<Rightarrow>
          if j \<in> set left
          then do {
            x \<leftarrow> v j;
            Some (set_writer i (Storing h v (removeAll j left)) (st\<lparr>words := (words st)[lane k h j := x]\<rparr>)) }
          else None
      | _ \<Rightarrow> None) }"
| "conc_step k (W_End i) st = do {
     w \<leftarrow> rd_at (writers st) i;
     (case w of
        Storing h v left \<Rightarrow>
          if left = [] then Some (set_writer i Idle (st\<lparr>finished := h # finished st\<rparr>)) else None
      | _ \<Rightarrow> None) }"
| "conc_step k (R_Begin h) st =
     (case reader st of
        Off \<Rightarrow> Some (st\<lparr>reader := Reading h (h \<in> set (finished st)) Map.empty\<rparr>)
      | _ \<Rightarrow> None)"
| "conc_step k (R_Load j) st =
     (case reader st of
        Reading h e l \<Rightarrow>
          if j < 8 \<and> l j = None
          then do { x \<leftarrow> rd_at (words st) (lane k h j); Some (st\<lparr>reader := Reading h e (l(j \<mapsto> x))\<rparr>) }
          else None
      | _ \<Rightarrow> None)"
| "conc_step k R_End st =
     (case reader st of
        Reading h e l \<Rightarrow>
          if all_lanes l
          then Some (st\<lparr>reader := Off,
                        answers := (h, e, mm256_testc_si256 (vec l) (mask_for (ucast h))) # answers st\<rparr>)
          else None
      | _ \<Rightarrow> None)"

definition conc_run :: "nat \<Rightarrow> event list \<Rightarrow> conc \<Rightarrow> conc option" where
  "conc_run k = foldM (conc_step k)"

text \<open>\<open>n\<close> writers and a reader on the words of a filter.\<close>

definition conc_init :: "nat \<Rightarrow> u32 list \<Rightarrow> conc" where
  "conc_init n ws = \<lparr>words = ws, writers = replicate n Idle, reader = Off, finished = [], answers = []\<rparr>"

section \<open>Writers on different blocks\<close>

definition lane_covers :: "u64 \<Rightarrow> nat \<Rightarrow> u32 \<Rightarrow> bool" where
  "lane_covers h j x \<longleftrightarrow> x AND lane_mask h j = lane_mask h j"

definition hash_in :: "nat \<Rightarrow> u32 list \<Rightarrow> u64 \<Rightarrow> bool" where
  "hash_in k ws h \<longleftrightarrow> (\<forall>j < 8. lane_covers h j (ws ! lane k h j))"

text \<open>What a writer knows that has its block for itself: its loaded lanes are current; each lane it has
  yet to store covers what is in memory there, each lane it has stored is in memory.\<close>

fun writer_inv :: "nat \<Rightarrow> u32 list \<Rightarrow> writer \<Rightarrow> bool" where
  "writer_inv k ws Idle = True"
| "writer_inv k ws (Loading h l) = (\<forall>j x. l j = Some x \<longrightarrow> j < 8 \<and> ws ! lane k h j = x)"
| "writer_inv k ws (Storing h v left) =
     (set left \<subseteq> {0..<8} \<and> (\<forall>j < 8. \<exists>x. v j = Some x \<and> lane_covers h j x \<and>
        (if j \<in> set left then x OR ws ! lane k h j = x else ws ! lane k h j = x)))"

fun reader_inv :: "u64 list \<Rightarrow> nat \<Rightarrow> u32 list \<Rightarrow> reader \<Rightarrow> bool" where
  "reader_inv fin k ws Off = True"
| "reader_inv fin k ws (Reading h e l) =
     (e \<longrightarrow> h \<in> set fin \<and> (\<forall>j x. l j = Some x \<longrightarrow> lane_covers h j x))"

text \<open>The block that an insertion under way is about, and that no two of them share one.\<close>

fun busy_block :: "nat \<Rightarrow> writer \<Rightarrow> nat option" where
  "busy_block k Idle = None"
| "busy_block k (Loading h l) = Some (block_index k h)"
| "busy_block k (Storing h v left) = Some (block_index k h)"

definition exclusive :: "nat \<Rightarrow> conc \<Rightarrow> bool" where
  "exclusive k st \<longleftrightarrow> (let ws = writers st in \<forall>i \<in> set [0..<length ws]. \<forall>j \<in> set [0..<length ws].
     i \<noteq> j \<longrightarrow> busy_block k (ws ! i) \<noteq> None \<longrightarrow> busy_block k (ws ! i) \<noteq> busy_block k (ws ! j))"

definition conc_inv :: "nat \<Rightarrow> conc \<Rightarrow> bool" where
  "conc_inv k st \<longleftrightarrow> (\<forall>w \<in> set (writers st). writer_inv k (words st) w) \<and>
     reader_inv (finished st) k (words st) (reader st) \<and>
     (\<forall>h \<in> set (finished st). hash_in k (words st) h) \<and>
     (\<forall>(h, e, r) \<in> set (answers st). e \<longrightarrow> r = 1) \<and>
     length (words st) = 8 * 2 ^ k \<and> k \<le> 31"

lemma exclusiveD:
  "exclusive k st \<Longrightarrow> i < length (writers st) \<Longrightarrow> j < length (writers st) \<Longrightarrow> i \<noteq> j \<Longrightarrow>
     busy_block k (writers st ! i) = Some b \<Longrightarrow> busy_block k (writers st ! j) \<noteq> Some b"
  by (force simp: exclusive_def Let_def)

lemma conc_invD:
  assumes "conc_inv k st"
  shows "rd_at (writers st) i = Some w \<Longrightarrow> writer_inv k (words st) w" and "length (words st) = 8 * 2 ^ k" "k \<le> 31"
    and "\<forall>w \<in> set (writers st). writer_inv k (words st) w"
  using assms by (auto simp: conc_inv_def rd_at_def split: if_splits)

lemma conc_inv_writer:
  "conc_inv k st \<Longrightarrow> writer_inv k (words st) w \<Longrightarrow> conc_inv k (set_writer i w st)"
  unfolding conc_inv_def set_writer_def by (auto dest: set_update_subset_insert [THEN subsetD] simp del: writer_inv.simps)

lemma lane_in: "k \<le> 31 \<Longrightarrow> j < 8 \<Longrightarrow> lane k h j < 8 * 2 ^ k"
  using block_index_less [of k h] by (simp add: lane_def)

lemma lane_eq: "i < 8 \<Longrightarrow> j < 8 \<Longrightarrow> lane k h i = lane k h j \<longleftrightarrow> i = j"
  by (simp add: lane_def)

lemma lane_other: "i < 8 \<Longrightarrow> j < 8 \<Longrightarrow> block_index k h \<noteq> block_index k g \<Longrightarrow> lane k g i \<noteq> lane k h j"
  unfolding lane_def by presburger

lemma lane_covers_or: "lane_covers h j x \<Longrightarrow> lane_covers h j (x OR y)"
  by (auto simp: lane_covers_def or_absorb_iff bit_simps)

lemma lane_covers_mono: "lane_covers h j x \<Longrightarrow> y OR x = y \<Longrightarrow> lane_covers h j y"
  using lane_covers_or [of h j x y] by (simp add: or.commute)

lemma testc_vec:
  "all_lanes l \<Longrightarrow>
     mm256_testc_si256 (vec l) (mask_for (ucast h)) = (if \<forall>j < 8. lane_covers h j (the (l j)) then 1 else 0)"
  by (simp add: mm256_testc_si256_def vec_def list_all2_conv_all_nth testc_lane lane_covers_def lane_mask_def)

lemma testc_covered:
  assumes "all_lanes l" and "\<forall>j x. l j = Some x \<longrightarrow> lane_covers h j x"
  shows "mm256_testc_si256 (vec l) (mask_for (ucast h)) = 1"
proof -
  have "lane_covers h j (the (l j))" if "j < 8" for j
    using that assms(1) assms(2) [rule_format, of j "the (l j)"] by (auto simp: all_lanes_def)
  then show ?thesis by (simp add: testc_vec [OF assms(1)])
qed

text \<open>Storing a lane that covers what was there loses no hash.\<close>

lemma hash_in_store:
  assumes "hash_in k ws h" and "x OR ws ! i = x" and "i < length ws"
  shows "hash_in k (ws[i := x]) h"
  using assms lane_covers_mono by (auto simp: hash_in_def nth_list_update)

lemma or_inv:
  assumes "writer_inv k ws (Loading h l)" and "all_lanes l"
  shows "writer_inv k ws (Storing h
     (\<lambda>j. if j < 8 then Some (mm256_or_si256 (vec l) (mask_for (ucast h)) ! j) else None) [0..<8])"
proof -
  have "mm256_or_si256 (vec l) (mask_for (ucast h)) ! j = ws ! lane k h j OR lane_mask h j" if "j < 8" for j
  proof -
    from that assms(2) have "l j \<noteq> None" by (simp add: all_lanes_def)
    with assms(1) obtain y where "l j = Some y" "ws ! lane k h j = y" by auto
    with that show ?thesis by (simp add: mm256_or_si256_def vec_def lane_mask_def)
  qed
  then show ?thesis by (auto simp: lane_covers_def or_absorb_iff bit_simps or.left_commute or.commute)
qed

lemma store_inv:
  assumes "writer_inv k ws (Storing h v left)" and "j \<in> set left" and "j < 8" and "v j = Some x"
    and "lane k h j < length ws"
  shows "writer_inv k (ws[lane k h j := x]) (Storing h v (removeAll j left))" and "x OR ws ! lane k h j = x"
proof -
  show "x OR ws ! lane k h j = x" using assms by auto
  have "\<exists>y. v i = Some y \<and> lane_covers h i y \<and>
      (if i \<in> set (removeAll j left) then y OR ws[lane k h j := x] ! lane k h i = y
       else ws[lane k h j := x] ! lane k h i = y)" if "i < 8" for i
  proof (cases "i = j")
    case True
    with assms show ?thesis by auto
  next
    case False
    from assms(1) that obtain y where "v i = Some y \<and> lane_covers h i y \<and>
      (if i \<in> set left then y OR ws ! lane k h i = y else ws ! lane k h i = y)" by auto
    with False that assms(3) show ?thesis by (intro exI [of _ y]) (simp add: lane_eq)
  qed
  then show "writer_inv k (ws[lane k h j := x]) (Storing h v (removeAll j left))" using assms(1) by auto
qed

text \<open>and leaves a writer on another block alone.\<close>

lemma store_other:
  assumes "writer_inv k ws w" and "busy_block k w \<noteq> Some (block_index k h)" and "j < 8"
  shows "writer_inv k (ws[lane k h j := x]) w"
proof (cases w)
  case (Loading g l)
  have "ws[lane k h j := x] ! lane k g i = ws ! lane k g i" if "i < 8" for i
    using lane_other [OF that assms(3), of k h g] assms(2) Loading by (simp add: nth_list_update_neq)
  with Loading assms(1) show ?thesis by (metis writer_inv.simps(2))
next
  case (Storing g v left)
  have "ws[lane k h j := x] ! lane k g i = ws ! lane k g i" if "i < 8" for i
    using lane_other [OF that assms(3), of k h g] assms(2) Storing by (simp add: nth_list_update_neq)
  note same = this
  define P where "P i u \<longleftrightarrow> (\<exists>y. v i = Some y \<and> lane_covers g i y \<and> (if i \<in> set left then y OR u = y else u = y))" for i u
  have "writer_inv k us w \<longleftrightarrow> set left \<subseteq> {0..<8} \<and> (\<forall>i < 8. P i (us ! lane k g i))" for us
    by (simp add: P_def Storing)
  with assms(1) same show ?thesis by simp
qed simp

lemma conc_step_inv:
  assumes inv: "conc_inv k st" and excl: "exclusive k st" and step: "conc_step k ev st = Some st'"
  shows "conc_inv k st'"
proof (cases ev)
  case (W_Begin i h)
  with step have "st' = set_writer i (Loading h Map.empty) st" by (auto split: bind_splits writer.splits)
  then show ?thesis using conc_inv_writer [OF inv] by simp
next
  case (W_Load i j)
  with step obtain h l x where w: "rd_at (writers st) i = Some (Loading h l)" "j < 8" "rd_at (words st) (lane k h j) = Some x"
    and st': "st' = set_writer i (Loading h (l(j \<mapsto> x))) st"
    by (auto split: bind_splits writer.splits if_splits)
  have "writer_inv k (words st) (Loading h (l(j \<mapsto> x)))"
    using conc_invD(1) [OF inv w(1)] w(2,3) by (auto simp: rd_at_def split: if_splits)
  then show ?thesis unfolding st' by (rule conc_inv_writer [OF inv])
next
  case (W_Or i)
  with step obtain h l where w: "rd_at (writers st) i = Some (Loading h l)" "all_lanes l"
    and st': "st' = set_writer i (Storing h
      (\<lambda>j. if j < 8 then Some (mm256_or_si256 (vec l) (mask_for (ucast h)) ! j) else None) [0..<8]) st"
    by (auto simp: Let_def split: bind_splits writer.splits if_splits)
  show ?thesis unfolding st' by (rule conc_inv_writer [OF inv or_inv [OF conc_invD(1) [OF inv w(1)] w(2)]])
next
  case (W_Store i j)
  with step obtain h v left x where w: "rd_at (writers st) i = Some (Storing h v left)" and j: "j \<in> set left" "v j = Some x" and
    st': "st' = set_writer i (Storing h v (removeAll j left)) (st\<lparr>words := (words st)[lane k h j := x]\<rparr>)"
    by (auto split: bind_splits writer.splits if_splits)
  let ?ws = "(words st)[lane k h j := x]"
  have own: "writer_inv k (words st) (Storing h v left)" by (rule conc_invD(1) [OF inv w])
  then have j8: "j < 8" using j by auto
  have len: "lane k h j < length (words st)" using conc_invD(2,3) [OF inv] j8 by (simp add: lane_in)
  note store = store_inv [OF own j(1) j8 j(2) len]
  have i: "i < length (writers st)" "writers st ! i = Storing h v left" using w by (auto simp: rd_at_def split: if_splits)
  have writers: "\<forall>w \<in> set (writers st'). writer_inv k ?ws w"
  proof
    fix w assume "w \<in> set (writers st')"
    then obtain m where m: "m < length (writers st)" "w = ((writers st)[i := Storing h v (removeAll j left)]) ! m"
      by (auto simp: st' set_writer_def in_set_conv_nth)
    show "writer_inv k ?ws w"
    proof (cases "m = i")
      case True
      then show ?thesis using m i(1) store(1) by (simp del: writer_inv.simps)
    next
      case False
      then have "w = writers st ! m" using m by simp
      moreover have "busy_block k (writers st ! m) \<noteq> Some (block_index k h)"
        using exclusiveD [OF excl i(1) m(1)] False i(2) by simp
      moreover have "writer_inv k (words st) (writers st ! m)" using conc_invD(4) [OF inv] m(1) by simp
      ultimately show ?thesis using store_other [OF _ _ j8] by simp
    qed
  qed
  have "reader_inv (finished st) k ?ws (reader st)"
    using inv by (cases "reader st") (auto simp: conc_inv_def)
  moreover have "\<forall>g \<in> set (finished st). hash_in k ?ws g"
    using inv hash_in_store [OF _ store(2) len] by (simp add: conc_inv_def)
  ultimately show ?thesis using inv writers by (simp add: conc_inv_def st' set_writer_def del: writer_inv.simps)
next
  case (W_End i)
  with step obtain h v where w: "rd_at (writers st) i = Some (Storing h v [])"
    and st': "st' = set_writer i Idle (st\<lparr>finished := h # finished st\<rparr>)"
    by (auto split: bind_splits writer.splits if_splits)
  have "hash_in k (words st) h" using conc_invD(1) [OF inv w] by (auto simp: hash_in_def)
  then have "conc_inv k (st\<lparr>finished := h # finished st\<rparr>)"
    using inv by (cases "reader st") (auto simp: conc_inv_def simp del: writer_inv.simps)
  then show ?thesis unfolding st' by (rule conc_inv_writer) simp
next
  case (R_Begin h)
  with inv step show ?thesis
    by (auto simp: conc_inv_def simp del: writer_inv.simps split: reader.splits)
next
  case (R_Load j)
  with inv step show ?thesis
    by (auto simp: conc_inv_def rd_at_def hash_in_def simp del: writer_inv.simps split: if_splits reader.splits)
next
  case R_End
  with inv step show ?thesis
    using testc_covered by (auto simp: conc_inv_def simp del: writer_inv.simps split: if_splits reader.splits)
qed

text \<open>A run in which, at every moment, no two insertions under way share a block.\<close>

fun excl_run :: "nat \<Rightarrow> event list \<Rightarrow> conc \<Rightarrow> bool" where
  "excl_run k [] st = exclusive k st"
| "excl_run k (ev # evs) st =
     (exclusive k st \<and> (case conc_step k ev st of None \<Rightarrow> True | Some st' \<Rightarrow> excl_run k evs st'))"

lemma conc_run_inv: "conc_inv k st \<Longrightarrow> excl_run k evs st \<Longrightarrow> conc_run k evs st = Some st' \<Longrightarrow> conc_inv k st'"
proof (induction evs arbitrary: st)
  case (Cons ev evs)
  then obtain st1 where "conc_step k ev st = Some st1" "conc_run k evs st1 = Some st'"
    by (auto simp: conc_run_def bind_eq_Some_conv)
  with Cons show ?case by (auto intro: conc_step_inv)
qed (simp add: conc_run_def)

lemma conc_init_inv: "k \<le> 31 \<Longrightarrow> length ws = 8 * 2 ^ k \<Longrightarrow> conc_inv k (conc_init n ws)"
  by (simp add: conc_inv_def conc_init_def)

lemma writers_length: "conc_step k ev st = Some st' \<Longrightarrow> length (writers st') = length (writers st)"
  by (cases ev) (auto simp: set_writer_def Let_def split: bind_splits if_splits writer.splits reader.splits)

text \<open>One writer is alone.\<close>

lemma single_excl: "length (writers st) = 1 \<Longrightarrow> excl_run k evs st"
  by (induction evs arbitrary: st) (auto simp: exclusive_def writers_length split: option.splits)

text \<open>What the invariant says of a run: no lost insertion, no missed one.\<close>

definition keeps_inserts :: "nat \<Rightarrow> conc \<Rightarrow> bool" where
  "keeps_inserts k st \<longleftrightarrow> (\<forall>(h, after, r) \<in> set (answers st). after \<longrightarrow> r = 1) \<and>
     (\<forall>h \<in> set (finished st). footprint k h \<subseteq> bitset (words st))"

lemma inv_keeps:
  assumes inv: "conc_inv k st" shows "keeps_inserts k st"
proof -
  have "footprint k h \<subseteq> bitset (words st)" if "h \<in> set (finished st)" for h
  proof -
    have "8 * block_index k h + 8 \<le> length (words st)"
      using inv lane_in [of k 7 h] by (simp add: conc_inv_def lane_def)
    moreover have "hash_in k (words st) h" using inv that by (simp add: conc_inv_def)
    ultimately have "covered_at (8 * block_index k h) (mask_for (ucast h)) (words st)"
      by (simp add: covered_at_iff hash_in_def lane_covers_def lane_def lane_mask_def)
    then show ?thesis by (simp add: covered_at_def footprint_def)
  qed
  with inv show ?thesis by (auto simp: conc_inv_def keeps_inserts_def)
qed

section \<open>An undisturbed thread runs the code\<close>









lemma set_writer_twice [simp]: "set_writer i w (set_writer i w' st) = set_writer i w st"
  by (simp add: set_writer_def)

lemma words_set_writer [simp]: "words (set_writer i w st) = words st"
  by (simp add: set_writer_def)













section \<open>Properties\<close>



text \<open>C10: reads concurrent with insertions never give a false negative, with one inserting thread or with
  several that never work on the same block at the same time. However the 32-bit lanes of the
  insertions under way and of a querying thread interleave, every query that began after the
  insertion of its hash had completed answers 1, and every completed insertion has all its bits in
  memory.\<close>

theorem exclusive_writers_no_false_negatives:
  assumes "length ws = 8 * 2 ^ k" and "k \<le> 31" and "conc_run k evs (conc_init n ws) = Some st"
    and "n = 1 \<or> excl_run k evs (conc_init n ws)"
  shows "(\<forall>(h, after, r) \<in> set (answers st). after \<longrightarrow> r = 1) \<and>
     (\<forall>h \<in> set (finished st). footprint k h \<subseteq> bitset (words st))"
proof -
  have "excl_run k evs (conc_init n ws)" using assms(4) single_excl [of "conc_init n ws"] by (auto simp: conc_init_def)
  from inv_keeps [OF conc_run_inv [OF conc_init_inv [OF assms(2,1)] this assms(3)]]
  show ?thesis by (simp add: keeps_inserts_def)
qed

text \<open>Two writers on the two blocks of a filter, lane by lane in turn, and a query.\<close>

definition two_blocks :: "event list" where
  "two_blocks = [W_Begin 0 5, W_Begin 1 0x8000000000000003] @
     concat (map (\<lambda>j. [W_Load 0 j, W_Load 1 (7 - j)]) [0..<8]) @ [W_Or 1, W_Or 0] @
     concat (map (\<lambda>j. [W_Store 0 j, W_Store 1 (7 - j)]) [0..<8]) @ [W_End 0, W_End 1] @
     R_Begin 5 # map R_Load [0..<8] @ [R_End]"

lemma two_blocks_run:
  "map_option (\<lambda>st. (finished st, map (\<lambda>(h, after, r). (h, after)) (answers st)))
     (conc_run 1 two_blocks (conc_init 2 (replicate 16 0))) = Some ([0x8000000000000003, 5], [(5, True)])"
  by code_simp

lemma two_blocks_excl: "excl_run 1 two_blocks (conc_init 2 (replicate 16 0))"
  by code_simp

theorem exclusive_writers_no_false_negatives_witness:
  "\<exists>st. conc_run 1 two_blocks (conc_init 2 (replicate 16 0)) = Some st \<and>
     finished st = [0x8000000000000003, 5] \<and> answers st = [(5, True, 1)]"
proof -
  from two_blocks_run obtain st where run: "conc_run 1 two_blocks (conc_init 2 (replicate 16 0)) = Some st"
    and ans: "finished st = [0x8000000000000003, 5]" "map (\<lambda>(h, after, r). (h, after)) (answers st) = [(5, True)]" by auto
  from exclusive_writers_no_false_negatives [OF _ _ run disjI2 [OF two_blocks_excl]]
  have "\<forall>(h, after, r) \<in> set (answers st). after \<longrightarrow> r = 1" by simp
  with run ans show ?thesis by auto
qed

text \<open>Two writers on one block that both load before either stores: both insertions complete, and the
  filter then denies containing the first one's hash. This is the race that the notes warn of.\<close>

definition lost_update :: "event list" where
  "lost_update =
     [W_Begin 0 0, W_Begin 1 1] @ map (W_Load 0) [0..<8] @ map (W_Load 1) [0..<8] @ [W_Or 0, W_Or 1] @
     map (W_Store 0) [0..<8] @ [W_End 0] @ map (W_Store 1) [0..<8] @ [W_End 1] @
     R_Begin 0 # map R_Load [0..<8] @ [R_End]"

lemma lost_update_run:
  "map_option (\<lambda>st. (finished st, answers st)) (conc_run 0 lost_update (conc_init 2 (replicate 8 0)))
     = Some ([1, 0], [(0, True, 0)])"
  by code_simp

end
