(* ===== verification/Qb_Races.thy ===== *)
theory Qb_Races
  imports Qb_Concurrent
begin

text \<open>
  What holds of any number of unsynchronised writers and a reader, races included: a race can lose
  bits but sets none that no insertion has asked for.
\<close>

section \<open>Races only lose bits\<close>

text \<open>No value that a thread holds has a bit outside \<open>B\<close>: neither the lanes loaded nor those yet to be
  stored. \<open>B\<close> holds the initial bits and the footprints of the hashes whose insertion was begun.\<close>

definition word_in :: "(nat \<times> nat) set \<Rightarrow> nat \<Rightarrow> u32 \<Rightarrow> bool" where
  "word_in B i x \<longleftrightarrow> (\<forall>b. bit x b \<longrightarrow> (i, b) \<in> B)"

definition lanes_in :: "nat \<Rightarrow> (nat \<times> nat) set \<Rightarrow> u64 \<Rightarrow> (nat \<rightharpoonup> u32) \<Rightarrow> bool" where
  "lanes_in k B h l \<longleftrightarrow> (\<forall>j x. l j = Some x \<longrightarrow> j < 8 \<and> word_in B (lane k h j) x)"

fun writer_in :: "nat \<Rightarrow> (nat \<times> nat) set \<Rightarrow> writer \<Rightarrow> bool" where
  "writer_in k B Idle = True"
| "writer_in k B (Loading h l) = (footprint k h \<subseteq> B \<and> lanes_in k B h l)"
| "writer_in k B (Storing h v left) = (footprint k h \<subseteq> B \<and> lanes_in k B h v)"

fun reader_in :: "nat \<Rightarrow> (nat \<times> nat) set \<Rightarrow> reader \<Rightarrow> bool" where
  "reader_in k B Off = True"
| "reader_in k B (Reading h e l) = lanes_in k B h l"

definition races_in :: "nat \<Rightarrow> (nat \<times> nat) set \<Rightarrow> conc \<Rightarrow> bool" where
  "races_in k B st \<longleftrightarrow> bitset (words st) \<subseteq> B \<and> (\<forall>w \<in> set (writers st). writer_in k B w) \<and>
     reader_in k B (reader st) \<and> (\<forall>(h, e, r) \<in> set (answers st). r = 1 \<longrightarrow> footprint k h \<subseteq> B)"

fun begun :: "event \<Rightarrow> u64 set" where
  "begun (W_Begin i h) = {h}"
| "begun ev = {}"

lemma lanes_in_load:
  "bitset ws \<subseteq> B \<Longrightarrow> rd_at ws (lane k h j) = Some x \<Longrightarrow> j < 8 \<Longrightarrow> lanes_in k B h l \<Longrightarrow> lanes_in k B h (l(j \<mapsto> x))"
  by (auto simp: lanes_in_def word_in_def bitset_def rd_at_def split: if_splits)

lemma footprint_lane: "bit (lane_mask h j) b \<Longrightarrow> j < 8 \<Longrightarrow> (lane k h j, b) \<in> footprint k h"
  by (simp add: footprint_def bits_at_def lane_def lane_mask_def)

lemma lanes_in_or:
  assumes "lanes_in k B h l" and "all_lanes l" and "footprint k h \<subseteq> B"
  shows "lanes_in k B h (\<lambda>j. if j < 8 then Some (mm256_or_si256 (vec l) (mask_for (ucast h)) ! j) else None)"
proof -
  have "word_in B (lane k h j) (mm256_or_si256 (vec l) (mask_for (ucast h)) ! j)" if j: "j < 8" for j
  proof -
    from j assms(2) have "l j \<noteq> None" by (simp add: all_lanes_def)
    then obtain x where x: "l j = Some x" by blast
    then have "mm256_or_si256 (vec l) (mask_for (ucast h)) ! j = x OR lane_mask h j"
      using j by (simp add: mm256_or_si256_def vec_def lane_mask_def)
    moreover have "word_in B (lane k h j) x" using assms(1) x by (auto simp: lanes_in_def)
    ultimately show ?thesis using footprint_lane [OF _ j, of h _ k] assms(3) by (auto simp: word_in_def bit_simps)
  qed
  then show ?thesis by (simp add: lanes_in_def)
qed

lemma bitset_store: "bitset ws \<subseteq> B \<Longrightarrow> word_in B i x \<Longrightarrow> bitset (ws[i := x]) \<subseteq> B"
  by (cases "i < length ws") (auto simp: bitset_def word_in_def nth_list_update split: if_splits)

lemma lanes_in_answer:
  assumes "all_lanes l" and "lanes_in k B h l" and "mm256_testc_si256 (vec l) (mask_for (ucast h)) = 1"
  shows "footprint k h \<subseteq> B"
proof
  fix p assume p: "p \<in> footprint k h"
  obtain i b where ib: "p = (i, b)" by (cases p)
  define j where "j = i - 8 * block_index k h"
  from p ib have j: "j < 8" "i = lane k h j" and bit: "bit (lane_mask h j) b"
    by (auto simp: footprint_def bits_at_def lane_def lane_mask_def j_def)
  from assms(3) j(1) have "lane_covers h j (the (l j))" by (simp add: testc_vec [OF assms(1)] split: if_splits)
  with bit have "bit (the (l j)) b" unfolding lane_covers_def by (metis bit_and_iff)
  moreover from assms(1) j(1) have "l j = Some (the (l j))" by (simp add: all_lanes_def)
  ultimately show "p \<in> B" using assms(2) j(2) ib unfolding lanes_in_def word_in_def by blast
qed

lemma races_set: "races_in k B st \<Longrightarrow> writer_in k B w \<Longrightarrow> races_in k B (set_writer i w st)"
  unfolding races_in_def set_writer_def by (auto dest: set_update_subset_insert [THEN subsetD] simp del: writer_in.simps)

lemma races_get: "races_in k B st \<Longrightarrow> rd_at (writers st) i = Some w \<Longrightarrow> writer_in k B w"
  by (auto simp: races_in_def rd_at_def split: if_splits)

lemma races_step:
  assumes ok: "races_in k B st" and new: "\<forall>h \<in> begun ev. footprint k h \<subseteq> B" and step: "conc_step k ev st = Some st'"
  shows "races_in k B st'"
proof (cases ev)
  case (W_Begin i h)
  with step have "st' = set_writer i (Loading h Map.empty) st" by (auto split: bind_splits writer.splits)
  with W_Begin new show ?thesis by (auto intro: races_set [OF ok] simp: lanes_in_def)
next
  case (W_Load i j)
  with step obtain h l x where w: "rd_at (writers st) i = Some (Loading h l)" "j < 8" "rd_at (words st) (lane k h j) = Some x"
    and st': "st' = set_writer i (Loading h (l(j \<mapsto> x))) st"
    by (auto split: bind_splits writer.splits if_splits)
  show ?thesis unfolding st'
    using races_get [OF ok w(1)] lanes_in_load [OF _ w(3,2)] ok by (intro races_set [OF ok]) (simp add: races_in_def)
next
  case (W_Or i)
  with step obtain h l where w: "rd_at (writers st) i = Some (Loading h l)" "all_lanes l"
    and st': "st' = set_writer i (Storing h
      (\<lambda>j. if j < 8 then Some (mm256_or_si256 (vec l) (mask_for (ucast h)) ! j) else None) [0..<8]) st"
    by (auto simp: Let_def split: bind_splits writer.splits if_splits)
  show ?thesis unfolding st' using races_get [OF ok w(1)] lanes_in_or [OF _ w(2)] by (intro races_set [OF ok]) simp
next
  case (W_Store i j)
  with step obtain h v left x where w: "rd_at (writers st) i = Some (Storing h v left)" and x: "v j = Some x" and
    st': "st' = set_writer i (Storing h v (removeAll j left)) (st\<lparr>words := (words st)[lane k h j := x]\<rparr>)"
    by (auto split: bind_splits writer.splits if_splits)
  have v: "footprint k h \<subseteq> B" "lanes_in k B h v" using races_get [OF ok w] by simp_all
  then have "word_in B (lane k h j) x" using x by (auto simp: lanes_in_def)
  then have "races_in k B (st\<lparr>words := (words st)[lane k h j := x]\<rparr>)"
    using ok by (simp add: races_in_def bitset_store)
  then show ?thesis unfolding st' using v by (intro races_set) simp_all
next
  case (W_End i)
  with step obtain h where "st' = set_writer i Idle (st\<lparr>finished := h # finished st\<rparr>)"
    by (auto split: bind_splits writer.splits if_splits)
  moreover have "races_in k B (st\<lparr>finished := h # finished st\<rparr>)" using ok by (simp add: races_in_def)
  ultimately show ?thesis by (simp add: races_set)
next
  case (R_Begin h)
  with step have "st' = st\<lparr>reader := Reading h (h \<in> set (finished st)) Map.empty\<rparr>" by (auto split: reader.splits)
  with ok show ?thesis by (simp add: races_in_def lanes_in_def)
next
  case (R_Load j)
  with step obtain h e l x where r: "reader st = Reading h e l" "j < 8" "rd_at (words st) (lane k h j) = Some x"
    and st': "st' = st\<lparr>reader := Reading h e (l(j \<mapsto> x))\<rparr>"
    by (auto split: reader.splits if_splits bind_splits)
  have "lanes_in k B h (l(j \<mapsto> x))" using ok r(1) by (intro lanes_in_load [OF _ r(3,2)]) (simp_all add: races_in_def)
  with ok show ?thesis unfolding st' by (simp add: races_in_def)
next
  case R_End
  with step obtain h e l where r: "reader st = Reading h e l" "all_lanes l"
    and st': "st' = st\<lparr>reader := Off,
      answers := (h, e, mm256_testc_si256 (vec l) (mask_for (ucast h))) # answers st\<rparr>"
    by (auto split: reader.splits if_splits)
  with ok lanes_in_answer [OF r(2)] show ?thesis by (simp add: races_in_def)
qed

lemma races_run:
  "races_in k B st \<Longrightarrow> \<forall>h \<in> \<Union> (begun ` set evs). footprint k h \<subseteq> B \<Longrightarrow> conc_run k evs st = Some st' \<Longrightarrow> races_in k B st'"
proof (induction evs arbitrary: st)
  case (Cons ev evs)
  then obtain st1 where st1: "conc_step k ev st = Some st1" "conc_run k evs st1 = Some st'"
    by (auto simp: conc_run_def bind_eq_Some_conv)
  have "races_in k B st1" by (rule races_step [OF Cons.prems(1) _ st1(1)]) (use Cons.prems(2) in simp)
  then show ?case using Cons.IH [OF _ _ st1(2)] Cons.prems(2) by simp
qed (simp add: conc_run_def)

text \<open>C12: races lose bits and invent none. However any number of inserting threads and a querying thread
  interleave, a bit set in memory was set at the start or belongs to the footprint of a hash whose
  insertion was begun, and a query answers 1 only for a hash whose whole footprint is among those.\<close>

theorem races_set_no_foreign_bit:
  assumes "conc_run k evs (conc_init n ws) = Some st"
  shows "bitset (words st) \<subseteq> bitset ws \<union> \<Union> (footprint k ` \<Union> (begun ` set evs)) \<and>
     (\<forall>(h, after, r) \<in> set (answers st).
        r = 1 \<longrightarrow> footprint k h \<subseteq> bitset ws \<union> \<Union> (footprint k ` \<Union> (begun ` set evs)))"
proof -
  let ?B = "bitset ws \<union> \<Union> (footprint k ` \<Union> (begun ` set evs))"
  have "races_in k ?B (conc_init n ws)" by (simp add: races_in_def conc_init_def)
  from races_run [OF this _ assms] have "races_in k ?B st" by blast
  then show ?thesis by (simp add: races_in_def)
qed

theorem races_set_no_foreign_bit_witness:
  "\<exists>st. conc_run 0 lost_update (conc_init 2 (replicate 8 0)) = Some st \<and> finished st = [1, 0] \<and>
     bitset (words st) \<subseteq> footprint 0 0 \<union> footprint 0 1"
proof -
  from lost_update_run obtain st where run: "conc_run 0 lost_update (conc_init 2 (replicate 8 0)) = Some st"
    and "finished st = [1, 0]" by auto
  moreover have "\<Union> (begun ` set lost_update) = {0, 1}" by (auto simp: lost_update_def)
  ultimately show ?thesis using races_set_no_foreign_bit [OF run] by auto
qed

end
