(* ===== verification/Xxh64.thy ===== *)
theory Xxh64
  imports Qb_Prelude
begin

text \<open>
  XXH64, the hash that the Parquet format mandates, in the repository's two copies:
  \<open>qb_xxh64\<close> of \<open>tools/xxh64.h\<close> and \<open>xxh64\<close> of \<open>comparisons/bloom_impala.c\<close>. Pointers into
  the input are offsets; reading past the input faults. The lemmas show that the copies are
  the same function and that it reads exactly the \<open>len\<close> bytes it is given.
\<close>

section \<open>tools/xxh64.h\<close>

definition QB_XXH_PRIME64_1 :: u64 where "QB_XXH_PRIME64_1 = 11400714785074694791"
definition QB_XXH_PRIME64_2 :: u64 where "QB_XXH_PRIME64_2 = 14029467366897019727"
definition QB_XXH_PRIME64_3 :: u64 where "QB_XXH_PRIME64_3 = 1609587929392839161"
definition QB_XXH_PRIME64_4 :: u64 where "QB_XXH_PRIME64_4 = 9650029242287828579"
definition QB_XXH_PRIME64_5 :: u64 where "QB_XXH_PRIME64_5 = 2870177450012600261"

definition qb_xxh_rotl64 :: "u64 \<Rightarrow> nat \<Rightarrow> u64" where
  "qb_xxh_rotl64 x n = push_bit n x OR drop_bit (64 - n) x"

text \<open>An unaligned load is a \<open>memcpy\<close> into a local variable.\<close>

definition qb_xxh_read64 :: "u8 list \<Rightarrow> nat \<Rightarrow> u64 option" where
  [simp]: "qb_xxh_read64 input p = rd_le 8 input p"

definition qb_xxh_read32 :: "u8 list \<Rightarrow> nat \<Rightarrow> u32 option" where
  [simp]: "qb_xxh_read32 input p = rd_le 4 input p"

definition qb_xxh_round :: "u64 \<Rightarrow> u64 \<Rightarrow> u64" where
  "qb_xxh_round acc input =
     (let acc = acc + input * QB_XXH_PRIME64_2;
          acc = qb_xxh_rotl64 acc 31
      in acc * QB_XXH_PRIME64_1)"

definition qb_xxh_merge_round :: "u64 \<Rightarrow> u64 \<Rightarrow> u64" where
  "qb_xxh_merge_round acc val =
     (let val = qb_xxh_round 0 val; acc = acc XOR val
      in acc * QB_XXH_PRIME64_1 + QB_XXH_PRIME64_4)"

text \<open>The do-while loop over 32-byte stripes; the result carries the offset it stops at.\<close>

type_synonym lanes = "u64 \<times> u64 \<times> u64 \<times> u64"

function qb_xxh_stripes :: "u8 list \<Rightarrow> nat \<Rightarrow> nat \<Rightarrow> lanes \<Rightarrow> (nat \<times> lanes) option" where
  "qb_xxh_stripes input limit p (v1, v2, v3, v4) = do {
     k1 \<leftarrow> qb_xxh_read64 input p;
     k2 \<leftarrow> qb_xxh_read64 input (p + 8);
     k3 \<leftarrow> qb_xxh_read64 input (p + 16);
     k4 \<leftarrow> qb_xxh_read64 input (p + 24);
     let v1 = qb_xxh_round v1 k1; v2 = qb_xxh_round v2 k2;
         v3 = qb_xxh_round v3 k3; v4 = qb_xxh_round v4 k4;
         p = p + 32
     in if p \<le> limit then qb_xxh_stripes input limit p (v1, v2, v3, v4)
        else Some (p, (v1, v2, v3, v4)) }"
  by pat_completeness auto
termination
  by (relation "measure (\<lambda>(input, limit, p, v). Suc limit - p)") auto

function qb_xxh_words :: "u8 list \<Rightarrow> nat \<Rightarrow> nat \<Rightarrow> u64 \<Rightarrow> (nat \<times> u64) option" where
  "qb_xxh_words input end p h64 =
     (if p + 8 \<le> end then do {
        k \<leftarrow> qb_xxh_read64 input p;
        let k1 = qb_xxh_round 0 k;
            h64 = h64 XOR k1;
            h64 = qb_xxh_rotl64 h64 27 * QB_XXH_PRIME64_1 + QB_XXH_PRIME64_4
        in qb_xxh_words input end (p + 8) h64 }
      else Some (p, h64))"
  by pat_completeness auto
termination
  by (relation "measure (\<lambda>(input, end, p, h64). end - p)") auto

function qb_xxh_bytes :: "u8 list \<Rightarrow> nat \<Rightarrow> nat \<Rightarrow> u64 \<Rightarrow> u64 option" where
  "qb_xxh_bytes input end p h64 =
     (if p < end then do {
        x \<leftarrow> rd_at input p;
        let h64 = h64 XOR (ucast x * QB_XXH_PRIME64_5);
            h64 = qb_xxh_rotl64 h64 11 * QB_XXH_PRIME64_1
        in qb_xxh_bytes input end (p + 1) h64 }
      else Some h64)"
  by pat_completeness auto
termination
  by (relation "measure (\<lambda>(input, end, p, h64). end - p)") auto

definition qb_xxh64 :: "u8 list \<Rightarrow> nat \<Rightarrow> u64 \<Rightarrow> u64 option" where
  "qb_xxh64 input len seed = do {
     (p, h64) \<leftarrow>
       (if 32 \<le> len then do {
          (p, (v1, v2, v3, v4)) \<leftarrow> qb_xxh_stripes input (len - 32) 0
            (seed + QB_XXH_PRIME64_1 + QB_XXH_PRIME64_2,
             seed + QB_XXH_PRIME64_2,
             seed + 0,
             seed - QB_XXH_PRIME64_1);
          let h64 = qb_xxh_rotl64 v1 1 + qb_xxh_rotl64 v2 7
                  + qb_xxh_rotl64 v3 12 + qb_xxh_rotl64 v4 18;
              h64 = qb_xxh_merge_round h64 v1;
              h64 = qb_xxh_merge_round h64 v2;
              h64 = qb_xxh_merge_round h64 v3;
              h64 = qb_xxh_merge_round h64 v4
          in Some (p, h64) }
        else Some (0, seed + QB_XXH_PRIME64_5));
     let h64 = h64 + of_nat len;
     (p, h64) \<leftarrow> qb_xxh_words input len p h64;
     (p, h64) \<leftarrow>
       (if p + 4 \<le> len then do {
          k \<leftarrow> qb_xxh_read32 input p;
          let h64 = h64 XOR (ucast k * QB_XXH_PRIME64_1);
              h64 = qb_xxh_rotl64 h64 23 * QB_XXH_PRIME64_2 + QB_XXH_PRIME64_3
          in Some (p + 4, h64) }
        else Some (p, h64));
     h64 \<leftarrow> qb_xxh_bytes input len p h64;
     let h64 = h64 XOR drop_bit 33 h64;
         h64 = h64 * QB_XXH_PRIME64_2;
         h64 = h64 XOR drop_bit 29 h64;
         h64 = h64 * QB_XXH_PRIME64_3
     in Some (h64 XOR drop_bit 32 h64) }"

section \<open>The copy in comparisons/bloom_impala.c\<close>

definition XXH_PRIME64_1 :: u64 where "XXH_PRIME64_1 = 0x9E3779B185EBCA87"
definition XXH_PRIME64_2 :: u64 where "XXH_PRIME64_2 = 0xC2B2AE3D27D4EB4F"
definition XXH_PRIME64_3 :: u64 where "XXH_PRIME64_3 = 0x165667B19E3779F9"
definition XXH_PRIME64_4 :: u64 where "XXH_PRIME64_4 = 0x85EBCA77C2B2AE63"
definition XXH_PRIME64_5 :: u64 where "XXH_PRIME64_5 = 0x27D4EB2F165667C5"

definition xxh_rotl64 :: "u64 \<Rightarrow> nat \<Rightarrow> u64" where
  "xxh_rotl64 x r = push_bit r x OR drop_bit (64 - r) x"

definition xxh_round :: "u64 \<Rightarrow> u64 \<Rightarrow> u64" where
  "xxh_round acc input =
     (let acc = acc + input * XXH_PRIME64_2; acc = xxh_rotl64 acc 31 in acc * XXH_PRIME64_1)"

definition xxh_merge_round :: "u64 \<Rightarrow> u64 \<Rightarrow> u64" where
  "xxh_merge_round acc val =
     (let val = xxh_round 0 val; acc = acc XOR val in acc * XXH_PRIME64_1 + XXH_PRIME64_4)"

function xxh_stripes :: "u8 list \<Rightarrow> nat \<Rightarrow> nat \<Rightarrow> lanes \<Rightarrow> (nat \<times> lanes) option" where
  "xxh_stripes data limit p (v1, v2, v3, v4) = do {
     k \<leftarrow> rd_le 8 data p; let v1 = xxh_round v1 k; let p = p + 8;
     k \<leftarrow> rd_le 8 data p; let v2 = xxh_round v2 k; let p = p + 8;
     k \<leftarrow> rd_le 8 data p; let v3 = xxh_round v3 k; let p = p + 8;
     k \<leftarrow> rd_le 8 data p; let v4 = xxh_round v4 k; let p = p + 8;
     if p \<le> limit then xxh_stripes data limit p (v1, v2, v3, v4)
     else Some (p, (v1, v2, v3, v4)) }"
  by pat_completeness auto
termination
  by (relation "measure (\<lambda>(data, limit, p, v). Suc limit - p)") auto

function xxh_words :: "u8 list \<Rightarrow> nat \<Rightarrow> nat \<Rightarrow> u64 \<Rightarrow> (nat \<times> u64) option" where
  "xxh_words data end p h =
     (if p + 8 \<le> end then do {
        k \<leftarrow> rd_le 8 data p;
        let h = h XOR xxh_round 0 k;
            h = xxh_rotl64 h 27 * XXH_PRIME64_1 + XXH_PRIME64_4
        in xxh_words data end (p + 8) h }
      else Some (p, h))"
  by pat_completeness auto
termination
  by (relation "measure (\<lambda>(data, end, p, h). end - p)") auto

function xxh_bytes :: "u8 list \<Rightarrow> nat \<Rightarrow> nat \<Rightarrow> u64 \<Rightarrow> u64 option" where
  "xxh_bytes data end p h =
     (if p < end then do {
        x \<leftarrow> rd_at data p;
        let h = h XOR (ucast x * XXH_PRIME64_5);
            h = xxh_rotl64 h 11 * XXH_PRIME64_1
        in xxh_bytes data end (p + 1) h }
      else Some h)"
  by pat_completeness auto
termination
  by (relation "measure (\<lambda>(data, end, p, h). end - p)") auto

definition xxh64 :: "u8 list \<Rightarrow> nat \<Rightarrow> u64 \<Rightarrow> u64 option" where
  "xxh64 data len seed = do {
     (p, h) \<leftarrow>
       (if 32 \<le> len then do {
          (p, (v1, v2, v3, v4)) \<leftarrow> xxh_stripes data (len - 32) 0
            (seed + XXH_PRIME64_1 + XXH_PRIME64_2, seed + XXH_PRIME64_2, seed, seed - XXH_PRIME64_1);
          let h = xxh_rotl64 v1 1 + xxh_rotl64 v2 7 + xxh_rotl64 v3 12 + xxh_rotl64 v4 18;
              h = xxh_merge_round h v1;
              h = xxh_merge_round h v2;
              h = xxh_merge_round h v3;
              h = xxh_merge_round h v4
          in Some (p, h) }
        else Some (0, seed + XXH_PRIME64_5));
     let h = h + of_nat len;
     (p, h) \<leftarrow> xxh_words data len p h;
     (p, h) \<leftarrow>
       (if p + 4 \<le> len then do {
          k \<leftarrow> rd_le 4 data p;
          let h = h XOR (ucast (k :: u32) * XXH_PRIME64_1);
              h = xxh_rotl64 h 23 * XXH_PRIME64_2 + XXH_PRIME64_3
          in Some (p + 4, h) }
        else Some (p, h));
     h \<leftarrow> xxh_bytes data len p h;
     let h = h XOR drop_bit 33 h;
         h = h * XXH_PRIME64_2;
         h = h XOR drop_bit 29 h;
         h = h * XXH_PRIME64_3
     in Some (h XOR drop_bit 32 h) }"

lemmas qb_xxh64_unfold = qb_xxh64_def [unfolded qb_xxh_read32_def]

declare qb_xxh_stripes.simps [simp del] qb_xxh_words.simps [simp del] qb_xxh_bytes.simps [simp del]
  xxh_stripes.simps [simp del] xxh_words.simps [simp del] xxh_bytes.simps [simp del]

section \<open>The copies agree\<close>

lemma xxh_primes:
  "XXH_PRIME64_1 = QB_XXH_PRIME64_1" "XXH_PRIME64_2 = QB_XXH_PRIME64_2"
  "XXH_PRIME64_3 = QB_XXH_PRIME64_3" "XXH_PRIME64_4 = QB_XXH_PRIME64_4"
  "XXH_PRIME64_5 = QB_XXH_PRIME64_5"
  by (simp_all add: XXH_PRIME64_1_def XXH_PRIME64_2_def XXH_PRIME64_3_def XXH_PRIME64_4_def
      XXH_PRIME64_5_def QB_XXH_PRIME64_1_def QB_XXH_PRIME64_2_def QB_XXH_PRIME64_3_def
      QB_XXH_PRIME64_4_def QB_XXH_PRIME64_5_def)

lemma xxh_rotl64_eq: "xxh_rotl64 = qb_xxh_rotl64"
  by (simp add: fun_eq_iff xxh_rotl64_def qb_xxh_rotl64_def)

lemma xxh_round_eq: "xxh_round = qb_xxh_round"
  by (simp add: fun_eq_iff xxh_round_def qb_xxh_round_def xxh_primes xxh_rotl64_eq)

lemma xxh_merge_round_eq: "xxh_merge_round = qb_xxh_merge_round"
  by (simp add: fun_eq_iff xxh_merge_round_def qb_xxh_merge_round_def xxh_primes xxh_round_eq)

lemmas xxh_same = xxh_primes xxh_rotl64_eq xxh_round_eq xxh_merge_round_eq

lemma xxh_stripes_eq: "xxh_stripes data limit p v = qb_xxh_stripes data limit p v"
proof (induction data limit p v rule: qb_xxh_stripes.induct)
  case (1 input limit p v1 v2 v3 v4)
  then show ?case
    by (simp add: xxh_stripes.simps [of input limit p] qb_xxh_stripes.simps [of input limit p]
        xxh_same Let_def add.assoc cong: Option.bind_cong if_cong)
qed

lemma xxh_words_eq: "xxh_words data end p h = qb_xxh_words data end p h"
proof (induction data "end" p h rule: qb_xxh_words.induct)
  case (1 input "end" p h)
  then show ?case
    by (simp add: xxh_words.simps [of input "end" p] qb_xxh_words.simps [of input "end" p]
        xxh_same Let_def cong: Option.bind_cong if_cong)
qed

lemma xxh_bytes_eq: "xxh_bytes data end p h = qb_xxh_bytes data end p h"
proof (induction data "end" p h rule: qb_xxh_bytes.induct)
  case (1 input "end" p h)
  then show ?case
    by (simp add: xxh_bytes.simps [of input "end" p] qb_xxh_bytes.simps [of input "end" p]
        xxh_same Let_def cong: Option.bind_cong if_cong)
qed

lemma xxh64_eq: "xxh64 data len seed = qb_xxh64 data len seed"
  unfolding xxh64_def qb_xxh64_unfold xxh_stripes_eq xxh_words_eq xxh_bytes_eq xxh_same add_0_right
  by (rule refl)

section \<open>Which bytes are read\<close>

lemma take_drop_take: "p + n \<le> len \<Longrightarrow> take n (drop p (take len input)) = take n (drop p input)"
  by (simp add: drop_take min_def)

lemma rd_le_take:
  "p + n \<le> len \<Longrightarrow> len \<le> length input \<Longrightarrow> rd_le n (take len input) p = rd_le n input p"
  by (simp add: rd_le_def take_drop_take)

lemma rd_at_take: "p < len \<Longrightarrow> len \<le> length input \<Longrightarrow> rd_at (take len input) p = rd_at input p"
  by (simp add: rd_at_def)

lemma qb_xxh_stripes_take:
  "p \<le> limit \<Longrightarrow> limit + 32 \<le> length input \<Longrightarrow>
     qb_xxh_stripes (take (limit + 32) input) limit p v = qb_xxh_stripes input limit p v \<and>
     (\<exists>q v'. qb_xxh_stripes input limit p v = Some (q, v') \<and> q \<le> limit + 32)"
proof (induction input limit p v rule: qb_xxh_stripes.induct)
  case (1 input limit p v1 v2 v3 v4)
  then show ?case
    by (simp add: qb_xxh_stripes.simps [of input limit p]
        qb_xxh_stripes.simps [of "take (limit + 32) input" limit p]
        take_drop_take rd_le_Some Let_def)
qed

lemma qb_xxh_words_take:
  "p \<le> len \<Longrightarrow> len \<le> length input \<Longrightarrow>
     qb_xxh_words (take len input) len p h = qb_xxh_words input len p h \<and>
     (\<exists>q h'. qb_xxh_words input len p h = Some (q, h') \<and> q \<le> len)"
proof (induction input len p h rule: qb_xxh_words.induct)
  case (1 input len p h)
  then show ?case
    by (simp add: qb_xxh_words.simps [of input len p] qb_xxh_words.simps [of "take len input" len p]
        take_drop_take rd_le_Some Let_def)
qed

lemma qb_xxh_bytes_take:
  "p \<le> len \<Longrightarrow> len \<le> length input \<Longrightarrow>
     qb_xxh_bytes (take len input) len p h = qb_xxh_bytes input len p h \<and>
     (\<exists>h'. qb_xxh_bytes input len p h = Some h')"
proof (induction input len p h rule: qb_xxh_bytes.induct)
  case (1 input len p h)
  then show ?case
    by (simp add: qb_xxh_bytes.simps [of input len p] qb_xxh_bytes.simps [of "take len input" len p]
        rd_at_take rd_at_Some Let_def)
qed

lemma qb_xxh_words_end: "qb_xxh_words input len p h = Some (q, h') \<Longrightarrow> p \<le> length input \<Longrightarrow> q \<le> length input"
proof (induction input len p h rule: qb_xxh_words.induct)
  case (1 input len p h)
  then show ?case
    by (auto simp: qb_xxh_words.simps [of input len p] rd_le_def Let_def split: if_splits)
qed

lemma qb_xxh_bytes_end: "qb_xxh_bytes input len p h = Some h' \<Longrightarrow> p \<le> length input \<Longrightarrow> len \<le> length input"
proof (induction input len p h rule: qb_xxh_bytes.induct)
  case (1 input len p h)
  then show ?case
    by (auto simp: qb_xxh_bytes.simps [of input len p] rd_at_def Let_def split: if_splits)
qed

lemma qb_xxh_stripes_end:
  "qb_xxh_stripes input limit p v = Some (q, v') \<Longrightarrow> q \<le> length input"
proof (induction input limit p v rule: qb_xxh_stripes.induct)
  case (1 input limit p v1 v2 v3 v4)
  then show ?case
    by (auto simp: qb_xxh_stripes.simps [of input limit p] rd_le_def Let_def split: if_splits)
qed

lemma qb_xxh64_Some_len:
  assumes "qb_xxh64 input len seed = Some h"
  shows "len \<le> length input"
  using assms
  by (auto simp: qb_xxh64_unfold bind_eq_Some_conv Let_def rd_le_def split: if_splits
      dest!: qb_xxh_bytes_end dest: qb_xxh_words_end qb_xxh_stripes_end)

text \<open>Everything after the stripes: the word loop, the four-byte step, the byte loop.\<close>

lemma qb_xxh_rest_take:
  fixes m :: "u64 \<Rightarrow> u32 \<Rightarrow> u64" and g :: "u64 \<Rightarrow> u64"
    and h64 :: u64
  assumes "len \<le> length input" and "p \<le> len"
  defines "rest \<equiv> \<lambda>input. do {
     (p, h64) \<leftarrow> qb_xxh_words input len p h64;
     (p, h64) \<leftarrow> (if p + 4 \<le> len then do { k \<leftarrow> rd_le 4 input p; Some (p + 4, m h64 k) } else Some (p, h64));
     h64 \<leftarrow> qb_xxh_bytes input len p h64;
     Some (g h64) }"
  shows "rest (take len input) = rest input \<and> rest input \<noteq> None"
proof -
  from qb_xxh_words_take [OF assms(2,1), of h64] obtain q h where
    w: "qb_xxh_words input len p h64 = Some (q, h)" "qb_xxh_words (take len input) len p h64 = Some (q, h)"
    and q: "q \<le> len" by auto
  show ?thesis
  proof (cases "q + 4 \<le> len")
    case True
    with qb_xxh_bytes_take [OF True assms(1), of "m h (le_word (take 4 (drop q input)))"] w assms(1)
    show ?thesis
      by (auto simp: rest_def rd_le_Some take_drop_take)
  next
    case False
    with qb_xxh_bytes_take [OF q assms(1), of h] w show ?thesis by (auto simp: rest_def)
  qed
qed

lemma qb_xxh64_prefix:
  assumes "len \<le> length input"
  shows "qb_xxh64 (take len input) len seed = qb_xxh64 input len seed \<and> qb_xxh64 input len seed \<noteq> None"
proof (cases "32 \<le> len")
  case False
  then show ?thesis
    using qb_xxh_rest_take [OF assms, of 0]
    by (simp add: qb_xxh64_unfold Let_def del: not_None_eq cong: if_cong)
next
  case True
  let ?v = "(seed + QB_XXH_PRIME64_1 + QB_XXH_PRIME64_2, seed + QB_XXH_PRIME64_2, seed, seed - QB_XXH_PRIME64_1)"
  from qb_xxh_stripes_take [of 0 "len - 32" input ?v] True assms obtain q a b c d where
    "qb_xxh_stripes input (len - 32) 0 ?v = Some (q, (a, b, c, d))"
    "qb_xxh_stripes (take len input) (len - 32) 0 ?v = Some (q, (a, b, c, d))" and q: "q \<le> len"
    by (metis add_diff_inverse_nat diff_add less_numeral_extra(3) not_less prod_cases4 zero_le le_add_diff_inverse2)
  with True show ?thesis
    using qb_xxh_rest_take [OF assms q]
    by (simp add: qb_xxh64_unfold Let_def del: not_None_eq cong: if_cong)
qed

section \<open>Properties\<close>

text \<open>The two copies of XXH64 in the repository, written differently, are the same function of
  the buffer, the length and the seed, faults included.\<close>

theorem xxh64_copies_agree: "xxh64 data len seed = qb_xxh64 data len seed"
  by (rule xxh64_eq)

text \<open>\<open>qb_xxh64\<close> reads the \<open>len\<close> bytes it is given and nothing else: it faults exactly when the
  buffer is shorter, and its value depends on those bytes only.\<close>

theorem qb_xxh64_reads_key:
  "(if len \<le> length input then qb_xxh64 input len seed = qb_xxh64 (take len input) len seed \<and>
      qb_xxh64 input len seed \<noteq> None
    else qb_xxh64 input len seed = None)"
  using qb_xxh64_prefix [of len input seed] qb_xxh64_Some_len [of input len seed] by force

text \<open>\<open>qb_xxh64\<close> gives the published XXH64 values for the empty input, the short inputs \<open>a\<close> and
  \<open>abc\<close> and a 39-byte input that goes through the stripe, word, four-byte and byte steps.\<close>

theorem qb_xxh64_test_vectors:
  "qb_xxh64 [] 0 0 = Some 0xEF46DB3751D8E999 \<and>
   qb_xxh64 [0x61] 1 0 = Some 0xD24EC4F1A98C6E5B \<and>
   qb_xxh64 [0x61, 0x62, 0x63] 3 0 = Some 0x44BC2CF5AD770999 \<and>
   qb_xxh64 [0x4E, 0x6F, 0x62, 0x6F, 0x64, 0x79, 0x20, 0x69, 0x6E, 0x73, 0x70, 0x65, 0x63, 0x74, 0x73, 0x20,
     0x74, 0x68, 0x65, 0x20, 0x73, 0x70, 0x61, 0x6D, 0x6D, 0x69, 0x73, 0x68, 0x20, 0x72, 0x65, 0x70,
     0x65, 0x74, 0x69, 0x74, 0x69, 0x6F, 0x6E] 39 0 = Some 0xFBCEA83C8A378BF1"
  by code_simp

end
