(* ===== verification/Impala.thy ===== *)
theory Impala
  imports Xxh64 Qb_Contract
begin

text \<open>
  The reference filter of \<open>comparisons/bloom_impala.c\<close>: the Parquet specification written
  with scalar code, a loop over the eight words of a block and the general fastrange block
  index for any number of blocks. It is the specification that \<open>quickbloom.c\<close> is compared
  with in the theory of bit compatibility.
\<close>

section \<open>Definitions\<close>

record impala_t =
  ibits :: addr
  inblocks :: size_t

type_synonym impala_heap = "(impala_t, u32) heap"

definition SBBF_SALT :: "u32 list" where
  "SBBF_SALT = [0x47b6137b, 0x44974d91, 0x8824ad5b, 0xa2b7289d,
                0x705495c7, 0x2df1424b, 0x9efc4947, 0x5c6bfb31]"

definition block_mask :: "u32 \<Rightarrow> u32 list" where
  "block_mask h32 =
     map (\<lambda>i. let b = drop_bit 27 (h32 * SBBF_SALT ! i) in push_bit (unat b) 1) [0..<8]"

definition impala_block_for :: "impala_t \<Rightarrow> u64 \<Rightarrow> wptr" where
  "impala_block_for b h64 =
     (let hi = ucast (drop_bit 32 h64) :: u32;
          idx = drop_bit 32 ((ucast hi :: u64) * inblocks b)
      in (ibits b, unat idx * 8))"

text \<open>
  \<open>bloom_new\<close> uses the result of \<open>malloc\<close> unchecked and falls back to \<open>calloc\<close>; the three
  answers of the allocator are its first arguments.
\<close>

definition impala_new ::
  "addr \<Rightarrow> addr \<Rightarrow> addr \<Rightarrow> size_t \<Rightarrow> impala_heap \<Rightarrow> (addr \<times> impala_heap) option" where
  "impala_new ans_b ans_mem ans_calloc nbits hp =
     (let nblocks = (nbits + 255) div 256;
          nblocks = (if nblocks = 0 then 1 else nblocks);
          (b, hp) = malloc ans_b 16 hp
      in if b = NULL then None
         else
           let nbytes = nblocks * 32;
               (failed, mem, hp) = posix_memalign ans_mem (unat nbytes) hp
           in do {
             (mem, hp) \<leftarrow>
               (if failed then
                  (if ans_calloc = NULL then Some (NULL, hp)
                   else Some (ans_calloc, hp(ans_calloc \<mapsto> Words (replicate (unat nbytes div 4) 0))))
                else do { hp \<leftarrow> memset_zero 4 mem (unat nbytes) hp; Some (mem, hp) });
             hp \<leftarrow> write_struct b \<lparr>ibits = mem, inblocks = nblocks\<rparr> hp;
             Some (b, hp) })"

definition impala_free :: "addr \<Rightarrow> impala_heap \<Rightarrow> impala_heap option" where
  "impala_free p hp = do {
     b \<leftarrow> read_struct p hp;
     hp \<leftarrow> free (ibits b) hp;
     free p hp }"

text \<open>\<open>for (int i = 0; i < 8; i++) blk[i] |= mask[i]\<close>, over the masks that are left.\<close>

fun or_words :: "wptr \<Rightarrow> u32 list \<Rightarrow> impala_heap \<Rightarrow> impala_heap option" where
  "or_words blk [] hp = Some hp"
| "or_words blk (m # ms) hp = do {
     w \<leftarrow> read_word blk hp;
     hp \<leftarrow> write_word blk (w OR m) hp;
     or_words (fst blk, snd blk + 1) ms hp }"

text \<open>\<open>if ((blk[i] & mask[i]) != mask[i]) return 0\<close> in the same loop.\<close>

fun has_words :: "wptr \<Rightarrow> u32 list \<Rightarrow> impala_heap \<Rightarrow> nat option" where
  "has_words blk [] hp = Some 1"
| "has_words blk (m # ms) hp = do {
     w \<leftarrow> read_word blk hp;
     if w AND m \<noteq> m then Some 0 else has_words (fst blk, snd blk + 1) ms hp }"

definition impala_insert_prehash :: "addr \<Rightarrow> u64 \<Rightarrow> impala_heap \<Rightarrow> impala_heap option" where
  "impala_insert_prehash p h hp = do {
     b \<leftarrow> read_struct p hp;
     let blk = impala_block_for b h;
     let mask = block_mask (ucast h);
     or_words blk mask hp }"

definition impala_contains_prehash :: "addr \<Rightarrow> u64 \<Rightarrow> impala_heap \<Rightarrow> nat option" where
  "impala_contains_prehash p h hp = do {
     b \<leftarrow> read_struct p hp;
     let blk = impala_block_for b h;
     let mask = block_mask (ucast h);
     has_words blk mask hp }"

definition impala_insert :: "addr \<Rightarrow> u8 list \<Rightarrow> nat \<Rightarrow> impala_heap \<Rightarrow> impala_heap option" where
  "impala_insert p key len hp = do {
     h \<leftarrow> xxh64 key len 0;
     b \<leftarrow> read_struct p hp;
     let blk = impala_block_for b h;
     let mask = block_mask (ucast h);
     or_words blk mask hp }"

definition impala_contains :: "addr \<Rightarrow> u8 list \<Rightarrow> nat \<Rightarrow> impala_heap \<Rightarrow> nat option" where
  "impala_contains p key len hp = do {
     h \<leftarrow> xxh64 key len 0;
     b \<leftarrow> read_struct p hp;
     let blk = impala_block_for b h;
     let mask = block_mask (ucast h);
     has_words blk mask hp }"

text \<open>The bulk forms are loops over the single-key ones.\<close>

definition impala_insert_bulk :: "addr \<Rightarrow> u8 list \<Rightarrow> nat \<Rightarrow> nat \<Rightarrow> impala_heap \<Rightarrow> impala_heap option" where
  "impala_insert_bulk p keys klen n hp =
     foldM (\<lambda>i. impala_insert p (drop (i * klen) keys) klen) [0..<n] hp"

definition impala_contains_bulk :: "addr \<Rightarrow> u8 list \<Rightarrow> nat \<Rightarrow> nat \<Rightarrow> impala_heap \<Rightarrow> nat option" where
  "impala_contains_bulk p keys klen n hp =
     foldM (\<lambda>i hits. do {
       r \<leftarrow> impala_contains p (drop (i * klen) keys) klen hp;
       Some (if r \<noteq> 0 then hits + 1 else hits) }) [0..<n] 0"

definition impala_insert_prehash_bulk :: "addr \<Rightarrow> u64 list \<Rightarrow> nat \<Rightarrow> impala_heap \<Rightarrow> impala_heap option" where
  "impala_insert_prehash_bulk p hashes n hp =
     foldM (\<lambda>i hp. do { h \<leftarrow> rd_at hashes i; impala_insert_prehash p h hp }) [0..<n] hp"

definition impala_contains_prehash_bulk :: "addr \<Rightarrow> u64 list \<Rightarrow> nat \<Rightarrow> impala_heap \<Rightarrow> nat option" where
  "impala_contains_prehash_bulk p hashes n hp =
     foldM (\<lambda>i hits. do {
       h \<leftarrow> rd_at hashes i;
       r \<leftarrow> impala_contains_prehash p h hp;
       Some (if r \<noteq> 0 then hits + 1 else hits) }) [0..<n] 0"

section \<open>The loops over a block\<close>

lemma length_block_mask [simp]: "length (block_mask h32) = 8"
  by (simp add: block_mask_def)

lemma or_at_Cons:
  assumes "off < length ws" and "off + Suc (length ms) \<le> length ws"
  shows "or_at off (m # ms) ws = or_at (Suc off) ms (ws[off := ws ! off OR m])"
  using assms by (intro nth_equalityI) (auto simp: nth_or_at nth_list_update nth_Cons' not_less_eq)

lemma or_words_eq:
  "hp a = Some (Words ws) \<Longrightarrow> off + length ms \<le> length ws \<Longrightarrow>
     or_words (a, off) ms hp = Some (hp(a \<mapsto> Words (or_at off ms ws)))"
proof (induction ms arbitrary: off hp ws)
  case Nil
  then show ?case by (simp add: or_at_def fun_upd_idem)
next
  case (Cons m ms)
  let ?hp = "hp(a \<mapsto> Words (ws[off := ws ! off OR m]))"
  have "or_words (a, Suc off) ms ?hp = Some (?hp(a \<mapsto> Words (or_at (Suc off) ms (ws[off := ws ! off OR m]))))"
    using Cons.prems by (intro Cons.IH) auto
  with Cons.prems show ?case
    by (simp add: read_word_Some write_word_Some or_at_Cons fun_eq_iff)
qed

lemma has_words_eq:
  "hp a = Some (Words ws) \<Longrightarrow> off + length ms \<le> length ws \<Longrightarrow>
     has_words (a, off) ms hp = Some (if covered_at off ms ws then 1 else 0)"
proof (induction ms arbitrary: off)
  case Nil
  then show ?case by (simp add: covered_at_iff)
next
  case (Cons m ms)
  then have "has_words (a, Suc off) ms hp = Some (if covered_at (Suc off) ms ws then 1 else 0)"
    by (intro Cons.IH) auto
  with Cons.prems show ?case
    by (simp add: read_word_Some covered_at_iff All_less_Suc2)
qed

section \<open>The filter in the heap\<close>

definition impala_at :: "impala_heap \<Rightarrow> addr \<Rightarrow> nat \<Rightarrow> impala_t \<Rightarrow> u32 list \<Rightarrow> bool" where
  "impala_at hp p n b ws \<longleftrightarrow>
     hp p = Some (Struct b) \<and> hp (ibits b) = Some (Words ws) \<and> p \<noteq> NULL \<and> ibits b \<noteq> NULL \<and>
     0 < n \<and> n \<le> 2 ^ 32 \<and> inblocks b = of_nat n \<and> length ws = 8 * n"

text \<open>Fastrange over whole numbers: the upper half of the hash scaled to \<open>n\<close>.\<close>

definition fastrange :: "nat \<Rightarrow> u64 \<Rightarrow> nat" where
  "fastrange n h = unat (drop_bit 32 h) * n div 2 ^ 32"

definition impala_footprint :: "nat \<Rightarrow> u64 \<Rightarrow> (nat \<times> nat) set" where
  "impala_footprint n h = bits_at (8 * fastrange n h) (block_mask (ucast h))"

lemma upper_half_less: "unat (drop_bit 32 h :: u64) < 2 ^ 32"
  using unat_drop_bit_less [of 32 h] by simp

lemma fastrange_less:
  assumes "0 < n"
  shows "fastrange n h < n"
proof -
  have "unat (drop_bit 32 h) * n < 2 ^ 32 * n"
    using assms upper_half_less [of h] by (intro mult_strict_right_mono) simp_all
  then show ?thesis by (simp add: fastrange_def less_mult_imp_div_less mult.commute)
qed

lemma ucast_upper_half: "(ucast (ucast (drop_bit 32 h :: u64) :: u32) :: u64) = drop_bit 32 h"
  by (rule bit_word_eqI) (auto simp: bit_simps dest: bit_imp_le_length)

lemma impala_block_for_eq:
  assumes "impala_at hp p n b ws"
  shows "impala_block_for b h = (ibits b, 8 * fastrange n h)"
proof -
  from assms have n: "0 < n" "n \<le> 2 ^ 32" "inblocks b = of_nat n" by (auto simp: impala_at_def)
  have "unat (drop_bit 32 h) * n < 2 ^ 32 * 2 ^ 32"
    using n upper_half_less [of h] by (intro mult_less_le_imp_less) simp_all
  moreover have "unat (of_nat n :: u64) = n" using n by (intro unat_of_nat_small) simp
  ultimately have "unat (drop_bit 32 h * of_nat n) = unat (drop_bit 32 h) * n"
    by (simp add: unat_word_ariths)
  then show ?thesis
    by (simp add: impala_block_for_def ucast_upper_half n(3) fastrange_def unat_drop_bit_eq
        drop_bit_eq_div [where 'a = nat] Let_def)
qed

lemma impala_in_bounds:
  assumes "impala_at hp p n b ws"
  shows "8 * fastrange n h + 8 \<le> length ws"
  using assms fastrange_less [of n h] by (simp add: impala_at_def)

lemma impala_insert_eq:
  assumes "impala_at hp p n b ws"
  shows "impala_insert_prehash p h hp
     = Some (hp(ibits b \<mapsto> Words (or_at (8 * fastrange n h) (block_mask (ucast h)) ws)))"
  using assms impala_in_bounds [OF assms, of h]
  by (simp add: impala_insert_prehash_def impala_block_for_eq [OF assms] or_words_eq Let_def impala_at_def)

lemma impala_contains_eq:
  assumes "impala_at hp p n b ws"
  shows "impala_contains_prehash p h hp = Some (if impala_footprint n h \<subseteq> bitset ws then 1 else 0)"
  using assms impala_in_bounds [OF assms, of h]
  by (simp add: impala_contains_prehash_def impala_block_for_eq [OF assms] has_words_eq Let_def
      impala_at_def impala_footprint_def covered_at_def)

lemma impala_at_update:
  "impala_at hp p n b ws \<Longrightarrow> length ws' = length ws \<Longrightarrow> impala_at (hp(ibits b \<mapsto> Words ws')) p n b ws'"
  by (auto simp: impala_at_def)

section \<open>The contract\<close>

definition impala_ok :: "addr \<Rightarrow> nat \<Rightarrow> impala_t \<Rightarrow> impala_heap \<Rightarrow> bool" where
  "impala_ok p n b hp \<longleftrightarrow> (\<exists>ws. impala_at hp p n b ws)"

definition impala_bits :: "impala_t \<Rightarrow> impala_heap \<Rightarrow> (nat \<times> nat) set" where
  "impala_bits b hp = (case read_words (ibits b) hp of Some ws \<Rightarrow> bitset ws | None \<Rightarrow> {})"

definition impala_query :: "addr \<Rightarrow> u64 \<Rightarrow> impala_heap \<Rightarrow> bool option" where
  "impala_query p h hp = map_option (\<lambda>r. r \<noteq> 0) (impala_contains_prehash p h hp)"

lemma impala_bits_eq: "impala_at hp p n b ws \<Longrightarrow> impala_bits b hp = bitset ws"
  by (simp add: impala_bits_def impala_at_def)

lemma impala_insert_contract:
  assumes "impala_ok p n b hp"
  shows "\<exists>hp'. impala_insert_prehash p h hp = Some hp' \<and> impala_ok p n b hp'
     \<and> impala_bits b hp' = impala_bits b hp \<union> impala_footprint n h"
proof -
  from assms obtain ws where i: "impala_at hp p n b ws" by (auto simp: impala_ok_def)
  let ?ws = "or_at (8 * fastrange n h) (block_mask (ucast h)) ws"
  have "impala_at (hp(ibits b \<mapsto> Words ?ws)) p n b ?ws"
    using i impala_in_bounds [OF i, of h] by (intro impala_at_update) simp_all
  with i impala_in_bounds [OF i, of h] show ?thesis
    by (auto simp: impala_insert_eq impala_ok_def impala_bits_eq impala_footprint_def bitset_or_at)
qed

lemma impala_query_contract:
  "impala_ok p n b hp \<Longrightarrow> impala_query p h hp = Some (impala_footprint n h \<subseteq> impala_bits b hp)"
  by (auto simp: impala_ok_def impala_query_def impala_contains_eq impala_bits_eq)

interpretation imp: bloom_filter "impala_ok p n b" "impala_insert_prehash p" "impala_query p"
  "impala_bits b" "impala_footprint n" for p n b
  by unfold_locales (simp_all add: impala_insert_contract impala_query_contract)

section \<open>Properties\<close>

text \<open>The scalar Parquet filter has no false negatives: for every block count up to
  \<open>2 ^ 32\<close>, a power of two or not, its insertions never fault and every inserted hash is found.\<close>

theorem impala_no_false_negatives:
  assumes "impala_at hp p n b ws"
  shows "\<exists>hp'. foldM (impala_insert_prehash p) hs hp = Some hp' \<and>
     (\<forall>h \<in> set hs. impala_contains_prehash p h hp' = Some 1)"
proof -
  from assms have "impala_ok p n b hp" by (auto simp: impala_ok_def)
  from imp.ins_all [OF this, of hs] obtain hp' where
    hp': "foldM (impala_insert_prehash p) hs hp = Some hp'" "impala_ok p n b hp'"
      "impala_bits b hp' = impala_bits b hp \<union> \<Union> (impala_footprint n ` set hs)" by blast
  then obtain ws' where i: "impala_at hp' p n b ws'" by (auto simp: impala_ok_def)
  have "impala_contains_prehash p h hp' = Some 1" if "h \<in> set hs" for h
    using hp'(3) that by (simp add: impala_contains_eq [OF i] impala_bits_eq [OF i]) blast
  with hp'(1) show ?thesis by blast
qed

theorem impala_no_false_negatives_witness:
  "\<exists>hp'. foldM (impala_insert_prehash 64) [0, 1]
       [64 \<mapsto> Struct \<lparr>ibits = 128, inblocks = 3\<rparr>, 128 \<mapsto> Words (replicate 24 0)] = Some hp' \<and>
     impala_contains_prehash 64 1 hp' = Some 1"
proof -
  have "impala_at [64 \<mapsto> Struct \<lparr>ibits = 128, inblocks = 3\<rparr>, 128 \<mapsto> Words (replicate 24 0)]
      64 3 \<lparr>ibits = 128, inblocks = 3\<rparr> (replicate 24 0)"
    by (simp add: impala_at_def)
  from impala_no_false_negatives [OF this, of "[0, 1]"] show ?thesis by auto
qed

end
