(* ===== verification/Parquet_Compat.thy ===== *)
theory Parquet_Compat
  imports Qb_Bulk Qb_Serialize Impala
begin

text \<open>
  Bit compatibility: for a power-of-two number of blocks the single right shift of
  \<open>quickbloom.c\<close> is the fastrange index of the Parquet specification, its vector mask is the
  scalar one, and so the two filters hold the same words after the same hashes and answer
  every query alike.
\<close>

lemma mask_for_block_mask: "mask_for h32 = block_mask h32"
proof -
  have "[0..<8] = [0, 1, 2, 3, 4, 5, 6, 7 :: nat]" by (simp add: upt_conv_Cons)
  then show ?thesis by (simp add: mask_for_eq block_mask_def salts_def SBBF_SALT_def)
qed

lemma fastrange_pow2:
  assumes "k \<le> 32"
  shows "fastrange (2 ^ k) h = block_index k h"
proof -
  have "(2 :: nat) ^ 32 = 2 ^ (32 - k) * 2 ^ k" unfolding power_add [symmetric] using assms by simp
  then have "unat (drop_bit 32 h) * 2 ^ k div 2 ^ 32 = unat (drop_bit 32 h) div 2 ^ (32 - k)"
    by (metis div_mult_mult2 power_not_zero zero_neq_numeral)
  moreover have "(2 :: nat) ^ 32 * 2 ^ (32 - k) = 2 ^ (64 - k)"
    unfolding power_add [symmetric] using assms by simp
  ultimately have "unat (drop_bit 32 h) * 2 ^ k div 2 ^ 32 = unat h div 2 ^ (64 - k)"
    by (simp add: unat_drop_bit_eq drop_bit_eq_div [where 'a = nat] div_mult2_eq [symmetric] del: power_numeral)
  then show ?thesis
    by (simp add: fastrange_def block_index_def unat_drop_bit_eq drop_bit_eq_div [where 'a = nat])
qed

text \<open>Two filters of the same size that hold the same words stay so.\<close>

definition same_words ::
  "addr \<Rightarrow> bloom_t \<Rightarrow> qb_heap \<Rightarrow> addr \<Rightarrow> impala_t \<Rightarrow> impala_heap \<Rightarrow> nat \<Rightarrow> u32 list \<Rightarrow> bool" where
  "same_words p b hp ip ib ihp k ws \<longleftrightarrow> filter_at hp p k b ws \<and> impala_at ihp ip (2 ^ k) ib ws"

lemma same_words_insert:
  assumes "same_words p b hp ip ib ihp k ws"
  shows "\<exists>hp' ihp'. qb_insert_prehash p h hp = Some hp' \<and> impala_insert_prehash ip h ihp = Some ihp'
     \<and> same_words p b hp' ip ib ihp' k (set_hash k h ws)"
proof -
  from assms have f: "filter_at hp p k b ws" and i: "impala_at ihp ip (2 ^ k) ib ws" and k: "k \<le> 32"
    by (auto simp: same_words_def filter_at_def)
  have len: "length (set_hash k h ws) = length ws" using block_in_bounds [OF f] by simp
  have "impala_insert_prehash ip h ihp = Some (ihp(ibits ib \<mapsto> Words (set_hash k h ws)))"
    by (simp add: impala_insert_eq [OF i] fastrange_pow2 [OF k] mask_for_block_mask [symmetric] set_hash_def)
  with f i len show ?thesis
    by (auto simp: insert_prehash_eq same_words_def filter_at_update impala_at_update)
qed

lemma same_words_inserts:
  "same_words p b hp ip ib ihp k ws \<Longrightarrow>
     \<exists>hp' ihp' ws'. foldM (qb_insert_prehash p) hs hp = Some hp' \<and>
       foldM (impala_insert_prehash ip) hs ihp = Some ihp' \<and> same_words p b hp' ip ib ihp' k ws'"
proof (induction hs arbitrary: hp ihp ws)
  case (Cons h hs)
  from same_words_insert [OF Cons.prems, of h] obtain hp1 ihp1 where
    1: "qb_insert_prehash p h hp = Some hp1" "impala_insert_prehash ip h ihp = Some ihp1"
      "same_words p b hp1 ip ib ihp1 k (set_hash k h ws)" by blast
  from Cons.IH [OF 1(3)] 1 show ?case by simp
qed auto

lemma same_words_contains:
  assumes "same_words p b hp ip ib ihp k ws"
  shows "qb_contains_prehash p h hp = impala_contains_prehash ip h ihp"
proof -
  from assms have f: "filter_at hp p k b ws" and i: "impala_at ihp ip (2 ^ k) ib ws" and k: "k \<le> 32"
    by (auto simp: same_words_def filter_at_def)
  then show ?thesis
    by (simp add: contains_prehash_eq [OF f] impala_contains_eq [OF i] footprint_def
        impala_footprint_def fastrange_pow2 [OF k] mask_for_block_mask)
qed

section \<open>Properties\<close>

text \<open>The AVX2 mask is the scalar mask of the Parquet specification, and for a power-of-two
  number of blocks the shift in \<open>block_for\<close> selects the block of the specification's fastrange
  multiplication.\<close>

theorem block_and_mask_match_parquet:
  assumes "filter_at hp p k b ws" and "impala_at ihp ip (2 ^ k) ib iws"
  shows "mask_for h32 = block_mask h32 \<and>
     map_option snd (block_for b h) = Some (snd (impala_block_for ib h))"
proof -
  from assms(1) have "k \<le> 32" by (simp add: filter_at_def)
  then show ?thesis
    by (simp add: mask_for_block_mask block_for_eq [OF assms(1)] impala_block_for_eq [OF assms(2)]
        fastrange_pow2)
qed

definition demo_impala :: impala_t where
  "demo_impala = \<lparr>ibits = 128, inblocks = 1\<rparr>"

lemma demo_impala_at:
  "impala_at [64 \<mapsto> Struct demo_impala, 128 \<mapsto> Words (replicate 8 0)] 64 (2 ^ 0) demo_impala (replicate 8 0)"
  by (simp add: impala_at_def demo_impala_def)

theorem block_and_mask_match_parquet_witness:
  "mask_for 5 = block_mask 5 \<and> map_option snd (block_for demo_struct 5) = Some (snd (impala_block_for demo_impala 5))"
  by (rule block_and_mask_match_parquet [OF demo_filter demo_impala_at])

text \<open>C7: bit compatibility. A quickbloom filter and a scalar Parquet filter of the same
  power-of-two size that start with the same words hold the same words after the same sequence of
  hashes, so the bytes quickbloom serializes are the Parquet image, and both answer every query
  alike.\<close>

theorem quickbloom_is_parquet_compatible:
  assumes "filter_at hp p k b ws" and "impala_at ihp ip (2 ^ k) ib ws" and "length dst = 32 * 2 ^ k"
  shows "\<exists>hp' ihp' ws'. foldM (qb_insert_prehash p) hs hp = Some hp' \<and>
     foldM (impala_insert_prehash ip) hs ihp = Some ihp' \<and>
     read_words (ibits ib) ihp' = Some ws' \<and>
     qb_serialize ndebug p (Some dst) hp' = Some (Done (Some (bytes_of ws'))) \<and>
     qb_contains_prehash p h hp' = impala_contains_prehash ip h ihp'"
proof -
  from assms have "same_words p b hp ip ib ihp k ws" by (simp add: same_words_def)
  from same_words_inserts [OF this, of hs] obtain hp' ihp' ws' where
    run: "foldM (qb_insert_prehash p) hs hp = Some hp'" "foldM (impala_insert_prehash ip) hs ihp = Some ihp'"
    and same: "same_words p b hp' ip ib ihp' k ws'" by blast
  then have "filter_at hp' p k b ws'" and "impala_at ihp' ip (2 ^ k) ib ws'" by (auto simp: same_words_def)
  with run same_words_contains [OF same] serialize_eq [of hp' p k b ws' dst ndebug] assms(3)
  show ?thesis by (auto simp: impala_at_def)
qed

theorem quickbloom_is_parquet_compatible_witness:
  "\<exists>hp' ihp'. foldM (qb_insert_prehash 64) [1, 2] demo_heap = Some hp' \<and>
     foldM (impala_insert_prehash 64) [1, 2] [64 \<mapsto> Struct demo_impala, 128 \<mapsto> Words (replicate 8 0)] = Some ihp' \<and>
     qb_contains_prehash 64 3 hp' = impala_contains_prehash 64 3 ihp'"
  using quickbloom_is_parquet_compatible [OF demo_filter demo_impala_at, of "replicate 32 0" "[1, 2]" True 3]
  by auto

end
