(* ===== verification/Qb_Estimate.thy ===== *)
theory Qb_Estimate
  imports Complex_Main Qb_Lifecycle Qb_Serialize
begin

text \<open>
  The sizing helper \<open>qb_estimate_bits\<close> of \<open>qb_util.c\<close>. A double is a not-a-number, an infinity or
  a finite real; an arithmetic operation computes on reals and rounds. Two things are not the
  program's and are arguments: \<open>rnd\<close>, the rounding of the floating-point unit, and \<open>flog\<close>, the C
  library's \<open>log\<close>. Converting a double outside the range of \<open>size_t\<close> is undefined in C and gives
  \<open>None\<close>.
\<close>

section \<open>Doubles\<close>

datatype dbl = NaN | PInf | NInf | Fin real

fun dlt :: "dbl \<Rightarrow> dbl \<Rightarrow> bool" where
  "dlt (Fin x) (Fin y) = (x < y)"
| "dlt NInf (Fin y) = True"
| "dlt (Fin x) PInf = True"
| "dlt NInf PInf = True"
| "dlt _ _ = False"

fun dneg :: "dbl \<Rightarrow> dbl" where
  "dneg (Fin x) = Fin (- x)"
| "dneg PInf = NInf"
| "dneg NInf = PInf"
| "dneg NaN = NaN"

text \<open>The sign of a non-zero operand; an infinity times or over it keeps or flips its sign.\<close>

definition dinf :: "bool \<Rightarrow> dbl" where
  "dinf neg = (if neg then NInf else PInf)"

fun dmul :: "(real \<Rightarrow> dbl) \<Rightarrow> dbl \<Rightarrow> dbl \<Rightarrow> dbl" where
  "dmul rnd (Fin x) (Fin y) = rnd (x * y)"
| "dmul rnd NaN _ = NaN"
| "dmul rnd _ NaN = NaN"
| "dmul rnd (Fin x) PInf = (if x = 0 then NaN else dinf (x < 0))"
| "dmul rnd (Fin x) NInf = (if x = 0 then NaN else dinf (0 < x))"
| "dmul rnd PInf (Fin y) = (if y = 0 then NaN else dinf (y < 0))"
| "dmul rnd NInf (Fin y) = (if y = 0 then NaN else dinf (0 < y))"
| "dmul rnd PInf PInf = PInf"
| "dmul rnd NInf NInf = PInf"
| "dmul rnd PInf NInf = NInf"
| "dmul rnd NInf PInf = NInf"

text \<open>Division by a positive constant and addition of a finite constant are all that is used.\<close>

fun ddiv_pos :: "(real \<Rightarrow> dbl) \<Rightarrow> dbl \<Rightarrow> real \<Rightarrow> dbl" where
  "ddiv_pos rnd (Fin x) c = rnd (x / c)"
| "ddiv_pos rnd d c = d"

fun dadd_fin :: "(real \<Rightarrow> dbl) \<Rightarrow> dbl \<Rightarrow> real \<Rightarrow> dbl" where
  "dadd_fin rnd (Fin x) c = rnd (x + c)"
| "dadd_fin rnd d c = d"

fun size_of_dbl :: "dbl \<Rightarrow> size_t option" where
  "size_of_dbl (Fin x) =
     (if - 1 < x \<and> x < 2 ^ 64 then Some (of_int (if x < 0 then 0 else floor x)) else None)"
| "size_of_dbl _ = None"

section \<open>Definition\<close>

definition LN2_SQ :: real where
  "LN2_SQ = 4327536028902087 / 2 ^ 53"

definition qb_estimate_bits ::
  "(real \<Rightarrow> dbl) \<Rightarrow> (dbl \<Rightarrow> dbl) \<Rightarrow> bool \<Rightarrow> size_t \<Rightarrow> dbl \<Rightarrow> size_t outcome option" where
  "qb_estimate_bits rnd flog ndebug n fp =
     (if n = 0 then Some (Done 256)
      else if \<not> ndebug \<and> \<not> (dlt (Fin 0) fp \<and> dlt fp (Fin 1)) then Some Aborted
      else if \<not> dlt (Fin 0) fp \<or> \<not> dlt fp (Fin 1) then Some (Done (n * 32))
      else
        let m = ddiv_pos rnd (dmul rnd (dneg (rnd (real (unat n)))) (flog fp)) LN2_SQ;
            m = (if dlt m (Fin 256) then Fin 256 else m)
        in map_option Done (size_of_dbl (dadd_fin rnd m (1 / 2))))"

section \<open>Rounding\<close>

text \<open>
  What IEEE 754 promises of the rounding \<open>r\<close> of results within the range: it is monotone and leaves
  representable numbers, here \<open>a * 2 ^ e\<close> with a 53-bit \<open>a\<close>, as they are.
\<close>

definition rounds_with :: "(real \<Rightarrow> dbl) \<Rightarrow> (real \<Rightarrow> real) \<Rightarrow> bool" where
  "rounds_with rnd r \<longleftrightarrow>
     (\<forall>x. \<bar>x\<bar> \<le> 2 ^ 100 \<longrightarrow> rnd x = Fin (r x)) \<and> mono r \<and>
     (\<forall>a e. \<bar>a\<bar> \<le> 2 ^ 53 \<and> e \<le> 100 \<longrightarrow> r (of_int a * 2 ^ e) = of_int a * 2 ^ e)"

text \<open>What the C library promises of \<open>log\<close> at a double strictly between 0 and 1.\<close>

definition log_value :: "(dbl \<Rightarrow> dbl) \<Rightarrow> real \<Rightarrow> real \<Rightarrow> bool" where
  "log_value flog x l \<longleftrightarrow> 0 < x \<and> x < 1 \<and> flog (Fin x) = Fin l \<and> - 746 \<le> l \<and> l \<le> 0"

lemma round_exact:
  assumes "rounds_with rnd r" and "\<bar>a\<bar> \<le> 2 ^ 53" and "e \<le> 100"
  shows "r (of_int a * 2 ^ e) = of_int a * 2 ^ e"
  using assms by (simp add: rounds_with_def)

lemma round_mono: "rounds_with rnd r \<Longrightarrow> x \<le> y \<Longrightarrow> r x \<le> r y"
  by (auto simp: rounds_with_def dest: monoD)

lemma round_le: "rounds_with rnd r \<Longrightarrow> \<bar>a\<bar> \<le> 2 ^ 53 \<Longrightarrow> e \<le> 100 \<Longrightarrow> x \<le> of_int a * 2 ^ e \<Longrightarrow> r x \<le> of_int a * 2 ^ e"
  by (metis round_exact round_mono)

lemma round_ge: "rounds_with rnd r \<Longrightarrow> \<bar>a\<bar> \<le> 2 ^ 53 \<Longrightarrow> e \<le> 100 \<Longrightarrow> of_int a * 2 ^ e \<le> x \<Longrightarrow> of_int a * 2 ^ e \<le> r x"
  by (metis round_exact round_mono)

lemma round_int: "rounds_with rnd r \<Longrightarrow> n \<le> 2 ^ 53 \<Longrightarrow> r (real n) = real n"
  using round_exact [of rnd r "int n" 0] by simp

text \<open>The chain of roundings, as one function of the count.\<close>

definition bit_budget :: "(real \<Rightarrow> real) \<Rightarrow> real \<Rightarrow> nat \<Rightarrow> real" where
  "bit_budget r l n = r (max 256 (r (r (- real n * l) / LN2_SQ)) + 1 / 2)"

lemma LN2_SQ_bounds: "2 / 5 \<le> LN2_SQ" "LN2_SQ \<le> 1 / 2"
  by (simp_all add: LN2_SQ_def)

lemma product_bounds:
  assumes "rounds_with rnd r" and "n \<le> 2 ^ 51" and "- 746 \<le> l" and "l \<le> 0"
  shows "0 \<le> - real n * l" and "- real n * l \<le> 2 ^ 61" and "0 \<le> r (- real n * l)" and "r (- real n * l) \<le> 2 ^ 61"
proof -
  show ge: "0 \<le> - real n * l" using assms by (simp add: mult_nonneg_nonpos)
  have "real n * (- l) \<le> 2 ^ 51 * 746"
    using assms of_nat_mono [OF assms(2), where 'a = real] by (intro mult_mono) simp_all
  then show le: "- real n * l \<le> 2 ^ 61" by simp
  show "0 \<le> r (- real n * l)" using round_ge [OF assms(1), of 0 0] ge by simp
  show "r (- real n * l) \<le> 2 ^ 61" using round_le [OF assms(1), of 1 61] le by simp
qed

lemma quotient_bounds:
  assumes "rounds_with rnd r" and "0 \<le> y" and "y \<le> 2 ^ 61"
  shows "0 \<le> y / LN2_SQ" and "y / LN2_SQ \<le> 2 ^ 63" and "r (y / LN2_SQ) \<le> 2 ^ 63"
proof -
  show "0 \<le> y / LN2_SQ" using assms(2) LN2_SQ_bounds by simp
  have "y / LN2_SQ \<le> 2 ^ 61 / (2 / 5)" using assms(2,3) LN2_SQ_bounds by (intro frac_le) simp_all
  then show le: "y / LN2_SQ \<le> 2 ^ 63" by simp
  show "r (y / LN2_SQ) \<le> 2 ^ 63" using round_le [OF assms(1), of 1 63] le by simp
qed

lemma bit_budget_bounds:
  assumes "rounds_with rnd r" and "n \<le> 2 ^ 51" and "- 746 \<le> l" and "l \<le> 0"
  shows "256 \<le> bit_budget r l n" and "bit_budget r l n < 2 ^ 64"
proof -
  note p = product_bounds [OF assms]
  note q = quotient_bounds [OF assms(1) p(3,4)]
  show "256 \<le> bit_budget r l n"
    using round_ge [OF assms(1), of 1 8] by (simp add: bit_budget_def)
  have "bit_budget r l n \<le> 3 * 2 ^ 62"
    using round_le [OF assms(1), of 3 62] q(3) by (simp add: bit_budget_def)
  then show "bit_budget r l n < 2 ^ 64" by simp
qed

lemma bit_budget_mono:
  assumes "rounds_with rnd r" and "l \<le> 0" and "n \<le> n'"
  shows "bit_budget r l n \<le> bit_budget r l n'"
proof -
  have "- real n * l \<le> - real n' * l" using assms(2,3) by (simp add: mult_right_mono_neg)
  then have "r (- real n * l) / LN2_SQ \<le> r (- real n' * l) / LN2_SQ"
    using round_mono [OF assms(1)] LN2_SQ_bounds by (intro divide_right_mono) auto
  then have "r (r (- real n * l) / LN2_SQ) \<le> r (r (- real n' * l) / LN2_SQ)"
    by (rule round_mono [OF assms(1)])
  then show ?thesis unfolding bit_budget_def by (intro round_mono [OF assms(1)]) simp
qed

lemma estimate_eq:
  assumes rnd: "rounds_with rnd r" and log: "log_value flog x l" and n: "n \<noteq> 0" "unat n \<le> 2 ^ 51"
  shows "qb_estimate_bits rnd flog ndebug n (Fin x) = Some (Done (of_int (floor (bit_budget r l (unat n)))))"
proof -
  have l: "- 746 \<le> l" "l \<le> 0" "0 < x" "x < 1" "flog (Fin x) = Fin l" using log by (auto simp: log_value_def)
  note p = product_bounds [OF rnd n(2) l(1,2)]
  note q = quotient_bounds [OF rnd p(3,4)]
  note b = bit_budget_bounds [OF rnd n(2) l(1,2)]
  have in_range: "\<And>x. \<bar>x\<bar> \<le> 2 ^ 100 \<Longrightarrow> rnd x = Fin (r x)" using rnd by (simp add: rounds_with_def)
  have "real (unat n) \<le> 2 ^ 51" using of_nat_mono [OF n(2), where 'a = real] by simp
  then have "\<bar>real (unat n)\<bar> \<le> 2 ^ 100" unfolding abs_of_nat by simp
  then have "rnd (real (unat n)) = Fin (real (unat n))"
    using in_range [of "real (unat n)"] round_int [OF rnd, of "unat n"] n(2) by simp
  moreover have "rnd (- real (unat n) * l) = Fin (r (- real (unat n) * l))"
    using p(1,2) by (intro in_range) simp
  moreover have "rnd (r (- real (unat n) * l) / LN2_SQ) = Fin (r (r (- real (unat n) * l) / LN2_SQ))"
    using q(1,2) by (intro in_range) simp
  moreover have "rnd (max 256 (r (r (- real (unat n) * l) / LN2_SQ)) + 1 / 2) = Fin (bit_budget r l (unat n))"
    using q(3) unfolding bit_budget_def by (intro in_range) simp
  ultimately show ?thesis
    using l n(1) b by (simp add: qb_estimate_bits_def max_def Let_def split: if_splits)
qed

lemma budget_word:
  assumes "rounds_with rnd r" and "log_value flog x l" and "n \<le> 2 ^ 51"
  shows "unat (of_int (floor (bit_budget r l n)) :: size_t) = nat (floor (bit_budget r l n))"
    and "256 \<le> nat (floor (bit_budget r l n))"
proof -
  have "- 746 \<le> l" and "l \<le> 0" using assms(2) by (simp_all add: log_value_def)
  note b = bit_budget_bounds [OF assms(1,3) this]
  from b(1) have ge: "256 \<le> floor (bit_budget r l n)" by (simp add: le_floor_iff)
  then show "256 \<le> nat (floor (bit_budget r l n))" by linarith
  note ge
  moreover have "floor (bit_budget r l n) < 2 ^ 64" using b(2) by (simp add: floor_less_iff)
  ultimately show "unat (of_int (floor (bit_budget r l n)) :: size_t) = nat (floor (bit_budget r l n))"
    by (simp add: unsigned_of_int take_bit_int_eq_self)
qed

section \<open>Properties\<close>

text \<open>C37: for every valid rate and every count up to \<open>2 ^ 51\<close> the estimate is defined (no conversion
  overflows), never below one 256-bit block, and does not shrink as the count grows, whatever
  the rounding mode and the accuracy of the library's logarithm.\<close>

theorem estimate_bits_sound:
  assumes "rounds_with rnd r" and "log_value flog x l" and "unat n \<le> unat n'" and "unat n' \<le> 2 ^ 51"
  shows "\<exists>bits bits'. qb_estimate_bits rnd flog ndebug n (Fin x) = Some (Done bits) \<and>
     qb_estimate_bits rnd flog ndebug n' (Fin x) = Some (Done bits') \<and>
     256 \<le> unat bits \<and> unat bits \<le> unat bits'"
proof (cases "n = 0")
  case True
  have zero: "qb_estimate_bits rnd flog ndebug 0 (Fin x) = Some (Done 256)" by (simp add: qb_estimate_bits_def)
  show ?thesis
  proof (cases "n' = 0")
    case False
    then show ?thesis
      using estimate_eq [OF assms(1,2) False assms(4)] budget_word [OF assms(1,2,4)] True zero by auto
  qed (use True zero in simp)
next
  case False
  then have n': "n' \<noteq> 0" "unat n \<le> 2 ^ 51" using assms(3,4) by (auto simp: unat_eq_zero)
  have "l \<le> 0" using assms(2) by (simp add: log_value_def)
  from bit_budget_mono [OF assms(1) this assms(3)]
  have "floor (bit_budget r l (unat n)) \<le> floor (bit_budget r l (unat n'))" by (rule floor_mono)
  then show ?thesis
    using estimate_eq [OF assms(1,2) False n'(2)] estimate_eq [OF assms(1,2) n'(1) assms(4)]
      budget_word [OF assms(1,2) n'(2)] budget_word [OF assms(1,2,4)] by (auto simp: nat_mono)
qed

theorem estimate_bits_sound_witness:
  "\<exists>bits bits'. qb_estimate_bits Fin (\<lambda>_. Fin (- 1)) True 10 (Fin (1 / 3)) = Some (Done bits) \<and>
     qb_estimate_bits Fin (\<lambda>_. Fin (- 1)) True 1000 (Fin (1 / 3)) = Some (Done bits') \<and>
     256 \<le> unat bits \<and> unat bits \<le> unat bits'"
  by (rule estimate_bits_sound [where r = "\<lambda>x. x" and l = "- 1"])
    (simp_all add: rounds_with_def log_value_def mono_def)

text \<open>An invalid rate (not a number, an infinity, zero or below, one or above) aborts a debug
  build; a release build returns 32 bits per item modulo \<open>2 ^ 64\<close>. The product is not guarded: for
  a count of \<open>2 ^ 59\<close> the answer is zero bits.\<close>

theorem estimate_bits_invalid_rate:
  assumes "n \<noteq> 0" and "\<not> (dlt (Fin 0) fp \<and> dlt fp (Fin 1))"
  shows "qb_estimate_bits rnd flog True n fp = Some (Done (of_nat (32 * unat n mod 2 ^ 64))) \<and>
     qb_estimate_bits rnd flog False n fp = Some Aborted \<and>
     qb_estimate_bits rnd flog True (2 ^ 59) fp = Some (Done 0)"
proof -
  have "n * 32 = of_nat (32 * unat n mod 2 ^ 64)"
    by (simp add: word_unat_eq_iff unat_word_ariths unsigned_of_nat take_bit_eq_mod mult.commute)
  with assms show ?thesis by (auto simp: qb_estimate_bits_def)
qed

theorem estimate_bits_invalid_rate_witness:
  "qb_estimate_bits Fin (\<lambda>_. NaN) True 5 NaN = Some (Done 160) \<and>
   qb_estimate_bits Fin (\<lambda>_. NaN) False 5 NaN = Some Aborted"
  using estimate_bits_invalid_rate [of 5 NaN Fin "\<lambda>_. NaN"] by simp

text \<open>A valid rate does not save a huge count. Where the rounded bit budget reaches \<open>2 ^ 64\<close> the
  conversion to \<open>size_t\<close> is out of range, which C does not define; nothing in the function guards
  against it.\<close>

theorem estimate_bits_overflow:
  assumes "0 < x" and "x < 1" and "n \<noteq> 0"
    and "ddiv_pos rnd (dmul rnd (dneg (rnd (real (unat n)))) (flog (Fin x))) LN2_SQ = Fin m"
    and "2 ^ 64 \<le> m" and "rnd (m + 1 / 2) = Fin m'" and "m \<le> m'"
  shows "qb_estimate_bits rnd flog ndebug n (Fin x) = None"
  using assms by (simp add: qb_estimate_bits_def)

theorem estimate_bits_overflow_witness:
  "qb_estimate_bits Fin (\<lambda>_. Fin (- 690)) True (2 ^ 60) (Fin (1 / 10 ^ 300)) = None"
  by (rule estimate_bits_overflow [where m = "690 * 2 ^ 60 / LN2_SQ" and m' = "690 * 2 ^ 60 / LN2_SQ + 1 / 2"])
    (simp_all add: LN2_SQ_def unat_2_power flip: unat_eq_zero)

end
