(* ===== verification/Fuzz_Harness.thy ===== *)
theory Fuzz_Harness
  imports Qb_Api Qb_Estimate
begin

text \<open>
  The three fuzz targets of \<open>tools/\<close>: each drives the whole public interface on bytes it does not
  control and traps when a promise of the library is broken. A run ends in a crash (a trap or a
  failed assertion) or returns with a heap. The theorems say that no target can ever crash or
  fault and that each returns with the heap it started from, for every input, every allocator and
  every outcome of an allocation, its own scratch buffers freed as well. The arguments that are not
  the program's: \<open>alloc\<close> gives the library's answers from \<open>malloc\<close> and \<open>posix_memalign\<close> in a heap, and
  \<open>mal i n\<close> the answer to the harness's own call number \<open>i\<close> of \<open>malloc\<close>, for \<open>n\<close> bytes: nothing, or a
  buffer with some contents. Each call has an outcome of its own. The contents of a scratch buffer
  are a value; that it is allocated is an entry of the list of live buffers, which every run carries
  along, and freeing a buffer that is not in it is a fault.
\<close>

section \<open>Definitions\<close>

type_synonym scratch = "nat \<Rightarrow> nat \<Rightarrow> u8 list option"

text \<open>A run ends in a crash, or returns with the heap and the scratch buffers that are still live.\<close>

datatype fuzz = Crashed | Returned qb_heap "nat list"

definition scratch_new :: "scratch \<Rightarrow> nat \<Rightarrow> nat \<Rightarrow> nat list \<Rightarrow> u8 list option \<times> nat list" where
  "scratch_new mal i n bufs = (case mal i n of None \<Rightarrow> (None, bufs) | Some b \<Rightarrow> (Some b, i # bufs))"

definition scratch_free :: "nat \<Rightarrow> nat list \<Rightarrow> nat list option" where
  "scratch_free i bufs = (if i \<in> set bufs then Some (remove1 i bufs) else None)"

type_synonym allocator = "qb_heap \<Rightarrow> addr \<times> addr"

definition qb_load :: "allocator \<Rightarrow> u8 list option \<Rightarrow> size_t \<Rightarrow> qb_heap \<Rightarrow> (addr \<times> qb_heap) option" where
  "qb_load alloc bytes nbytes hp =
     qb_deserialize QB_DESERIALIZE_MAX_BYTES (fst (alloc hp)) (snd (alloc hp)) bytes nbytes hp"

text \<open>\<open>fuzz_deserialize.c\<close>: the inner round trip, then the whole target.\<close>

definition fuzz_reload ::
  "bool \<Rightarrow> allocator \<Rightarrow> scratch \<Rightarrow> addr \<Rightarrow> size_t \<Rightarrow> qb_heap \<Rightarrow> nat list \<Rightarrow> fuzz option" where
  "fuzz_reload ndebug alloc mal f out_n hp bufs =
     (case scratch_new mal 0 (unat out_n) bufs of
        (None, bufs) \<Rightarrow> Some (Returned hp bufs)
      | (Some out, bufs) \<Rightarrow> do {
          written \<leftarrow> qb_serialize ndebug f (Some out) hp;
          (case written of
             Aborted \<Rightarrow> Some Crashed
           | Done out \<Rightarrow> do {
               (g, hp) \<leftarrow> qb_load alloc out out_n hp;
               if g = NULL then do { bufs \<leftarrow> scratch_free 0 bufs; Some (Returned hp bufs) }
               else do {
                 gn \<leftarrow> qb_serialized_size ndebug g hp;
                 (case gn of
                    Aborted \<Rightarrow> Some Crashed
                  | Done gn \<Rightarrow>
                      if gn \<noteq> out_n then Some Crashed
                      else
                        (case scratch_new mal 1 (unat gn) bufs of
                           (None, bufs) \<Rightarrow> do {
                             hp \<leftarrow> qb_free g hp;
                             bufs \<leftarrow> scratch_free 0 bufs;
                             Some (Returned hp bufs) }
                         | (Some out2, bufs) \<Rightarrow> do {
                             written2 \<leftarrow> qb_serialize ndebug g (Some out2) hp;
                             (case written2 of
                                Aborted \<Rightarrow> Some Crashed
                              | Done out2 \<Rightarrow>
                                  if map_option (take (unat out_n)) out \<noteq> map_option (take (unat out_n)) out2
                                  then Some Crashed
                                  else do {
                                    bufs \<leftarrow> scratch_free 1 bufs;
                                    hp \<leftarrow> qb_free g hp;
                                    bufs \<leftarrow> scratch_free 0 bufs;
                                    Some (Returned hp bufs) }) })) } }) })"

definition fuzz_deserialize ::
  "bool \<Rightarrow> allocator \<Rightarrow> scratch \<Rightarrow> u8 list option \<Rightarrow> size_t \<Rightarrow> qb_heap \<Rightarrow> fuzz option" where
  "fuzz_deserialize ndebug alloc mal data sz hp = do {
     let nbytes = (if push_bit 24 1 < sz then push_bit 24 1 else sz);
     (f, hp) \<leftarrow> qb_load alloc data nbytes hp;
     if f = NULL then Some (Returned hp [])
     else do {
       key \<leftarrow> those (map (\<lambda>i. case data of None \<Rightarrow> Some 0 | Some d \<Rightarrow> rd_at d (i mod unat nbytes)) [0..<16]);
       _ \<leftarrow> qb_contains f key 16 hp;
       _ \<leftarrow> qb_contains_prehash f 0xC0FFEE hp;
       out_n \<leftarrow> qb_serialized_size ndebug f hp;
       (case out_n of
          Aborted \<Rightarrow> Some Crashed
        | Done out_n \<Rightarrow> do {
            res \<leftarrow> (if out_n \<noteq> 0 then fuzz_reload ndebug alloc mal f out_n hp [] else Some (Returned hp []));
            (case res of
               Crashed \<Rightarrow> Some Crashed
             | Returned hp bufs \<Rightarrow> do { hp \<leftarrow> qb_free f hp; Some (Returned hp bufs) }) }) } }"

text \<open>The loops over \<open>if (!qb_contains(...)) __builtin_trap()\<close>: whether they get through.\<close>

fun all_present :: "addr \<Rightarrow> u8 list \<Rightarrow> nat \<Rightarrow> nat \<Rightarrow> nat \<Rightarrow> qb_heap \<Rightarrow> bool option" where
  "all_present p keys klen 0 i hp = Some True"
| "all_present p keys klen (Suc r) i hp = do {
     c \<leftarrow> qb_contains p (drop (i * klen) keys) klen hp;
     if c = 0 then Some False else all_present p keys klen r (i + 1) hp }"

definition qb_sized ::
  "bool \<Rightarrow> (real \<Rightarrow> dbl) \<Rightarrow> (dbl \<Rightarrow> dbl) \<Rightarrow> allocator \<Rightarrow> nat \<Rightarrow> qb_heap \<Rightarrow> (addr \<times> qb_heap) outcome option" where
  "qb_sized ndebug rnd flog alloc n hp = do {
     est \<leftarrow> qb_estimate_bits rnd flog ndebug (of_nat n) (rnd (1 / 100));
     (case est of
        Aborted \<Rightarrow> Some Aborted
      | Done nbits \<Rightarrow> map_option Done (qb_new (fst (alloc hp)) (snd (alloc hp)) nbits hp)) }"

text \<open>\<open>fuzz_insert.c\<close>.\<close>

definition fuzz_reload_keys ::
  "bool \<Rightarrow> allocator \<Rightarrow> scratch \<Rightarrow> addr \<Rightarrow> u8 list \<Rightarrow> nat \<Rightarrow> nat \<Rightarrow> qb_heap \<Rightarrow> nat list \<Rightarrow> fuzz option" where
  "fuzz_reload_keys ndebug alloc mal f data klen n hp bufs = do {
     nbytes \<leftarrow> qb_serialized_size ndebug f hp;
     (case nbytes of
        Aborted \<Rightarrow> Some Crashed
      | Done nbytes \<Rightarrow>
          (case scratch_new mal 0 (unat nbytes) bufs of
             (None, bufs) \<Rightarrow> Some (Returned hp bufs)
           | (Some buf, bufs) \<Rightarrow> do {
               written \<leftarrow> qb_serialize ndebug f (Some buf) hp;
               (case written of
                  Aborted \<Rightarrow> Some Crashed
                | Done buf \<Rightarrow> do {
                    (g, hp) \<leftarrow> qb_load alloc buf nbytes hp;
                    if g = NULL then do { bufs \<leftarrow> scratch_free 0 bufs; Some (Returned hp bufs) }
                    else do {
                      ok \<leftarrow> all_present g data klen n 0 hp;
                      if \<not> ok then Some Crashed
                      else do {
                        hp \<leftarrow> qb_free g hp;
                        bufs \<leftarrow> scratch_free 0 bufs;
                        Some (Returned hp bufs) } } }) })) }"

definition fuzz_insert ::
  "bool \<Rightarrow> (real \<Rightarrow> dbl) \<Rightarrow> (dbl \<Rightarrow> dbl) \<Rightarrow> allocator \<Rightarrow> scratch \<Rightarrow>
     u8 list \<Rightarrow> nat \<Rightarrow> qb_heap \<Rightarrow> fuzz option" where
  "fuzz_insert ndebug rnd flog alloc mal data sz hp =
     (if sz < 16 then Some (Returned hp [])
      else do {
        d0 \<leftarrow> rd_at data 0;
        let klen = unat d0 mod 64 + 1;
        let data = drop 1 data;
        let sz = sz - 1;
        if sz < klen then Some (Returned hp [])
        else do {
          let n = sz div klen;
          if n = 0 then Some (Returned hp [])
          else do {
            let n = (if 4096 < n then 4096 else n);
            made \<leftarrow> qb_sized ndebug rnd flog alloc n hp;
            (case made of
               Aborted \<Rightarrow> Some Crashed
             | Done (f, hp) \<Rightarrow>
                 if f = NULL then Some (Returned hp [])
                 else do {
                   hp \<leftarrow> qb_insert_bulk f data klen n hp;
                   ok \<leftarrow> all_present f data klen n 0 hp;
                   if \<not> ok then Some Crashed
                   else do {
                     hits \<leftarrow> qb_contains_bulk f data klen n hp;
                     if hits < n then Some Crashed
                     else do {
                       res \<leftarrow> fuzz_reload_keys ndebug alloc mal f data klen n hp [];
                       (case res of
                          Crashed \<Rightarrow> Some Crashed
                        | Returned hp bufs \<Rightarrow> do { hp \<leftarrow> qb_free f hp; Some (Returned hp bufs) }) } } }) } } })"

text \<open>\<open>fuzz_fasthash_var.c\<close>.\<close>

definition fuzz_fasthash_var ::
  "bool \<Rightarrow> (real \<Rightarrow> dbl) \<Rightarrow> (dbl \<Rightarrow> dbl) \<Rightarrow> allocator \<Rightarrow> u8 list \<Rightarrow> nat \<Rightarrow> qb_heap \<Rightarrow> fuzz option" where
  "fuzz_fasthash_var ndebug rnd flog alloc data sz hp =
     (if sz < 2 then Some (Returned hp [])
      else do {
        d0 \<leftarrow> rd_at data 0;
        let klen = unat d0 mod 23 + 1;
        let data = drop 1 data;
        let sz = sz - 1;
        let max_keys = sz div klen;
        if max_keys = 0 then Some (Returned hp [])
        else do {
          let max_keys = (if 2048 < max_keys then 2048 else max_keys);
          made \<leftarrow> qb_sized ndebug rnd flog alloc max_keys hp;
          (case made of
             Aborted \<Rightarrow> Some Crashed
           | Done (f, hp) \<Rightarrow>
               if f = NULL then Some (Returned hp [])
               else do {
                 hp \<leftarrow> foldM (\<lambda>i. qb_insert f (drop (i * klen) data) klen) [0..<max_keys] hp;
                 ok \<leftarrow> all_present f data klen max_keys 0 hp;
                 if \<not> ok then Some Crashed
                 else do { hp \<leftarrow> qb_free f hp; Some (Returned hp []) } }) } })"

section \<open>The pieces on a live filter\<close>

text \<open>What the targets rely on: the C library's promises about every answer.\<close>

definition allocator_ok :: "allocator \<Rightarrow> bool" where
  "allocator_ok alloc \<longleftrightarrow> (\<forall>hp. answers_ok hp (fst (alloc hp)) (snd (alloc hp)))"

definition buffers_ok :: "(nat \<Rightarrow> u8 list option) \<Rightarrow> bool" where
  "buffers_ok mal \<longleftrightarrow> (\<forall>n xs. mal n = Some xs \<longrightarrow> length xs = n)"

definition with_words :: "bloom_t \<Rightarrow> u32 list \<Rightarrow> qb_heap \<Rightarrow> qb_heap" where
  "with_words b ws hp = hp(bits b \<mapsto> Words ws)"

lemma all_present_eq:
  assumes "filter_at hp p k b ws" and "\<And>i. i < n \<Longrightarrow> i * klen + klen \<le> length keys"
    and "\<And>i. i < n \<Longrightarrow> footprint k (key_hash (take klen (drop (i * klen) keys))) \<subseteq> bitset ws"
  shows "i + r \<le> n \<Longrightarrow> all_present p keys klen r i hp = Some True"
  by (induction r arbitrary: i) (simp_all add: contains_inserted [OF assms(1) assms(2,3)])

lemma load_result:
  assumes "allocator_ok alloc" and "\<forall>bs \<in> set_option bytes. unat nbytes \<le> length bs"
  shows "qb_load alloc bytes nbytes hp = Some (NULL, hp) \<or>
     (\<exists>k p mem bs. bytes = Some bs \<and> k \<le> 25 \<and> nbytes = 2 ^ k * SBBF_BLOCK_BYTES \<and> answers_ok hp p mem \<and>
       p \<noteq> NULL \<and> mem \<noteq> NULL \<and>
       qb_load alloc bytes nbytes hp = Some (p, with_filter p mem k (words_from (8 * 2 ^ k) bs) hp))"
proof (cases "bytes = None \<or> \<not> accepted QB_DESERIALIZE_MAX_BYTES nbytes")
  case True
  then show ?thesis by (simp add: qb_load_def deserialize_rejects)
next
  case False
  then obtain bs where bs: "bytes = Some bs" and acc: "accepted QB_DESERIALIZE_MAX_BYTES nbytes" by auto
  from default_accepts [OF acc] obtain k where k: "k \<le> 31" "nbytes = 2 ^ k * SBBF_BLOCK_BYTES"
    "nbytes \<le> QB_DESERIALIZE_MAX_BYTES" by blast
  have k25: "k \<le> 25" using over_default_limit [of k] k acc by (cases "25 < k") auto
  have ans: "answers_ok hp (fst (alloc hp)) (snd (alloc hp))" using assms(1) by (simp add: allocator_ok_def)
  from deserialize_eq [OF k(2,1,3) _ ans, of bs] assms(2) bs
  have "qb_load alloc bytes nbytes hp =
     Some (if fst (alloc hp) = NULL \<or> snd (alloc hp) = NULL then (NULL, hp)
           else (fst (alloc hp), with_filter (fst (alloc hp)) (snd (alloc hp)) k (words_from (8 * 2 ^ k) bs) hp))"
    by (simp add: qb_load_def)
  with bs k25 k(2) ans show ?thesis by (cases "fst (alloc hp) = NULL \<or> snd (alloc hp) = NULL") auto
qed

lemma sized_result:
  assumes "allocator_ok alloc" and "rounds_with rnd r" and "rnd (1 / 100) = Fin x" and "log_value flog x l"
    and "0 < n" and "n \<le> 2 ^ 51"
  shows "qb_sized ndebug rnd flog alloc n hp = Some (Done (NULL, hp)) \<or>
     (\<exists>k p mem. k \<le> 31 \<and> answers_ok hp p mem \<and> p \<noteq> NULL \<and> mem \<noteq> NULL \<and>
       qb_sized ndebug rnd flog alloc n hp = Some (Done (p, with_filter p mem k (replicate (8 * 2 ^ k) 0) hp)))"
proof -
  have un: "unat (of_nat n :: size_t) = n" using assms(6) by (intro unat_of_nat_small) simp
  then have "(of_nat n :: size_t) \<noteq> 0" using assms(5) by (metis less_irrefl unat_0)
  from estimate_eq [OF assms(2,4) this] un assms(6) obtain nbits where
    est: "qb_estimate_bits rnd flog ndebug (of_nat n) (Fin x) = Some (Done nbits)" by auto
  have ans: "answers_ok hp (fst (alloc hp)) (snd (alloc hp))" using assms(1) by (simp add: allocator_ok_def)
  show ?thesis
  proof (cases "request nbits \<le> QB_MAX_NBLOCKS")
    case True
    from qb_new_eq [OF True ans] obtain k where "k \<le> 31" and
      "qb_new (fst (alloc hp)) (snd (alloc hp)) nbits hp =
       Some (if fst (alloc hp) = NULL \<or> snd (alloc hp) = NULL then (NULL, hp)
             else (fst (alloc hp), with_filter (fst (alloc hp)) (snd (alloc hp)) k (replicate (8 * 2 ^ k) 0) hp))"
      by blast
    with ans est assms(3) show ?thesis
      by (cases "fst (alloc hp) = NULL \<or> snd (alloc hp) = NULL") (auto simp: qb_sized_def)
  next
    case False
    then show ?thesis using est assms(3) by (simp add: qb_sized_def qb_new_too_big)
  qed
qed

text \<open>A filter made in a heap does not disturb the filters that were there.\<close>

lemma filter_at_beside:
  "filter_at hp p k b ws \<Longrightarrow> answers_ok hp q mem \<Longrightarrow> q \<noteq> NULL \<Longrightarrow> mem \<noteq> NULL \<Longrightarrow>
     filter_at (with_filter q mem j vs hp) p k b ws"
  by (auto simp: filter_at_def with_filter_def answers_ok_def fresh_def)

text \<open>The image of a live filter and the filter loaded from it.\<close>

lemma reload_words:
  assumes "length ws = 8 * 2 ^ k"
  shows "words_from (8 * 2 ^ k) (bytes_of ws @ rest) = ws"
  using words_from_bytes_of [of "8 * 2 ^ k" ws rest] assms by simp

lemma size_eq_k: "2 ^ j * SBBF_BLOCK_BYTES = 2 ^ k * SBBF_BLOCK_BYTES \<Longrightarrow> j \<le> 31 \<Longrightarrow> k \<le> 31 \<Longrightarrow> j = k"
proof -
  assume eq: "2 ^ j * SBBF_BLOCK_BYTES = 2 ^ k * SBBF_BLOCK_BYTES" and jk: "j \<le> 31" "k \<le> 31"
  from eq have "unat (2 ^ j * SBBF_BLOCK_BYTES) = unat (2 ^ k * SBBF_BLOCK_BYTES)" by (rule arg_cong)
  then have "32 * (2 :: nat) ^ j = 32 * 2 ^ k"
    by (simp only: bytes_of_blocks [OF jk(1)] bytes_of_blocks [OF jk(2)])
  then show "j = k" by simp
qed

lemma load_image:
  assumes f: "filter_at hp p k b ws" and alloc: "allocator_ok alloc"
  shows "qb_load alloc (Some (bytes_of ws)) (2 ^ k * SBBF_BLOCK_BYTES) hp = Some (NULL, hp) \<or>
     (\<exists>q mem. answers_ok hp q mem \<and> q \<noteq> NULL \<and> mem \<noteq> NULL \<and>
       qb_load alloc (Some (bytes_of ws)) (2 ^ k * SBBF_BLOCK_BYTES) hp = Some (q, with_filter q mem k ws hp))"
proof -
  have k: "k \<le> 31" and ws: "length ws = 8 * 2 ^ k" using f by (auto simp: filter_at_def)
  have "unat (2 ^ k * SBBF_BLOCK_BYTES) \<le> length (bytes_of ws)" using k ws by (simp add: bytes_of_blocks)
  with load_result [OF alloc, of "Some (bytes_of ws)" "2 ^ k * SBBF_BLOCK_BYTES" hp] k
    reload_words [OF ws, of "[]"] show ?thesis
    by (auto dest!: size_eq_k)
qed

text \<open>Whatever its bits have become, freeing a fresh filter restores the heap.\<close>

lemma with_filter_update:
  "bits (filter_struct mem k) = mem \<Longrightarrow> p \<noteq> mem \<Longrightarrow>
     (with_filter p mem k ws hp)(mem \<mapsto> Words ws') = with_filter p mem k ws' hp"
  by (simp add: with_filter_def fun_eq_iff)

lemma bits_filter_struct [simp]: "bits (filter_struct mem k) = mem"
  by (simp add: filter_struct_def)

text \<open>A scratch buffer, of its size or missing, and back again.\<close>

lemma scratch_cases:
  assumes "buffers_ok (mal i)"
  obtains (failed) "scratch_new mal i n bufs = (None, bufs)"
    | (got) out where "scratch_new mal i n bufs = (Some out, i # bufs)" "length out = n"
  using assms by (cases "mal i n") (auto simp: scratch_new_def buffers_ok_def)

lemma scratch_free_Cons [simp]: "scratch_free i (i # bufs) = Some bufs"
  by (simp add: scratch_free_def)

lemma serialize_into:
  assumes f: "filter_at hp p k b ws" and out: "length out = unat (2 ^ k * SBBF_BLOCK_BYTES)"
  shows "qb_serialize ndebug p (Some out) hp = Some (Done (Some (bytes_of ws)))"
proof -
  have k: "k \<le> 31" and "length ws = 8 * 2 ^ k" using f by (auto simp: filter_at_def)
  with out serialize_eq [OF f, of out ndebug] show ?thesis by (simp add: bytes_of_blocks [OF k])
qed

lemma load_cases:
  assumes f: "filter_at hp p k b ws" and alloc: "allocator_ok alloc"
  obtains (null) "qb_load alloc (Some (bytes_of ws)) (2 ^ k * SBBF_BLOCK_BYTES) hp = Some (NULL, hp)"
    | (loaded) q hp' b' where "q \<noteq> NULL" "qb_load alloc (Some (bytes_of ws)) (2 ^ k * SBBF_BLOCK_BYTES) hp = Some (q, hp')"
      "filter_at hp' q k b' ws" "qb_free q hp' = Some hp"
proof -
  have k: "k \<le> 31" and ws: "length ws = 8 * 2 ^ k" using f by (auto simp: filter_at_def)
  from load_image [OF f alloc] show thesis
  proof
    assume "\<exists>q mem. answers_ok hp q mem \<and> q \<noteq> NULL \<and> mem \<noteq> NULL \<and>
       qb_load alloc (Some (bytes_of ws)) (2 ^ k * SBBF_BLOCK_BYTES) hp = Some (q, with_filter q mem k ws hp)"
    then obtain q mem where q: "answers_ok hp q mem" "q \<noteq> NULL" "mem \<noteq> NULL" and
      "qb_load alloc (Some (bytes_of ws)) (2 ^ k * SBBF_BLOCK_BYTES) hp = Some (q, with_filter q mem k ws hp)" by blast
    with filter_at_with_filter [OF q k ws] free_with_filter [OF q k ws] show thesis by (intro loaded)
  qed (rule null)
qed

lemma fuzz_reload_ok:
  assumes f: "filter_at hp p k b ws" and alloc: "allocator_ok alloc" and mal: "\<forall>i. buffers_ok (mal i)"
  shows "fuzz_reload ndebug alloc mal p (2 ^ k * SBBF_BLOCK_BYTES) hp bufs = Some (Returned hp bufs)"
proof (rule scratch_cases [where mal = mal and i = 0 and n = "unat (2 ^ k * SBBF_BLOCK_BYTES)" and bufs = bufs, OF spec [OF mal]])
  fix out assume out: "scratch_new mal 0 (unat (2 ^ k * SBBF_BLOCK_BYTES)) bufs = (Some out, 0 # bufs)"
    "length out = unat (2 ^ k * SBBF_BLOCK_BYTES)"
  note img = serialize_into [OF f out(2)]
  show ?thesis
  proof (rule load_cases [OF f alloc])
    assume "qb_load alloc (Some (bytes_of ws)) (2 ^ k * SBBF_BLOCK_BYTES) hp = Some (NULL, hp)"
    with out img show ?thesis by (simp add: fuzz_reload_def)
  next
    fix q hp' b'
    assume q: "q \<noteq> NULL" "qb_load alloc (Some (bytes_of ws)) (2 ^ k * SBBF_BLOCK_BYTES) hp = Some (q, hp')"
      and g: "filter_at hp' q k b' ws" and free: "qb_free q hp' = Some hp"
    show ?thesis
    proof (rule scratch_cases [where mal = mal and i = 1 and n = "unat (2 ^ k * SBBF_BLOCK_BYTES)" and bufs = "0 # bufs", OF spec [OF mal]])
      assume "scratch_new mal 1 (unat (2 ^ k * SBBF_BLOCK_BYTES)) (0 # bufs) = (None, 0 # bufs)"
      with out img q serialized_size_eq [OF g] free show ?thesis by (simp add: fuzz_reload_def)
    next
      fix out2 assume "scratch_new mal 1 (unat (2 ^ k * SBBF_BLOCK_BYTES)) (0 # bufs) = (Some out2, 1 # 0 # bufs)"
        "length out2 = unat (2 ^ k * SBBF_BLOCK_BYTES)"
      with out img q serialized_size_eq [OF g] free serialize_into [OF g, of out2] show ?thesis
        by (simp add: fuzz_reload_def)
    qed
  qed
qed (simp add: fuzz_reload_def)

lemma fuzz_reload_keys_ok:
  assumes f: "filter_at hp p k b ws" and alloc: "allocator_ok alloc" and mal: "buffers_ok (mal 0)"
    and keys: "n * klen \<le> length data"
    and set: "\<And>i. i < n \<Longrightarrow> footprint k (key_hash (take klen (drop (i * klen) data))) \<subseteq> bitset ws"
  shows "fuzz_reload_keys ndebug alloc mal p data klen n hp bufs = Some (Returned hp bufs)"
proof (rule scratch_cases [where mal = mal and i = 0 and n = "unat (2 ^ k * SBBF_BLOCK_BYTES)" and bufs = bufs, OF mal])
  fix out assume out: "scratch_new mal 0 (unat (2 ^ k * SBBF_BLOCK_BYTES)) bufs = (Some out, 0 # bufs)"
    "length out = unat (2 ^ k * SBBF_BLOCK_BYTES)"
  note img = serialize_into [OF f out(2)]
  show ?thesis
  proof (rule load_cases [OF f alloc])
    assume "qb_load alloc (Some (bytes_of ws)) (2 ^ k * SBBF_BLOCK_BYTES) hp = Some (NULL, hp)"
    with out img show ?thesis by (simp add: fuzz_reload_keys_def serialized_size_eq [OF f])
  next
    fix q hp' b'
    assume q: "q \<noteq> NULL" "qb_load alloc (Some (bytes_of ws)) (2 ^ k * SBBF_BLOCK_BYTES) hp = Some (q, hp')"
      and g: "filter_at hp' q k b' ws" and free: "qb_free q hp' = Some hp"
    from all_present_eq [OF g, of n klen data 0 n] key_in_buffer [OF keys] set have
      "all_present q data klen n 0 hp' = Some True" by simp
    with out img q free show ?thesis by (simp add: fuzz_reload_keys_def serialized_size_eq [OF f])
  qed
qed (simp add: fuzz_reload_keys_def serialized_size_eq [OF f])

section \<open>Properties\<close>

text \<open>The sixteen bytes of the probe key, read around the buffer.\<close>

lemma probe_key:
  assumes "0 < m" and "m \<le> length bs"
  shows "those (map (\<lambda>i. rd_at bs (i mod m)) [0..<r]) = Some (map (\<lambda>i. bs ! (i mod m)) [0..<r])"
proof -
  have "rd_at bs (i mod m) = Some (bs ! (i mod m))" for i
    using assms order.strict_trans2 [OF mod_less_divisor] by (simp add: rd_at_def)
  then show ?thesis by (simp only: those_map_Some)
qed

lemma fuzz_probes_ok:
  assumes f: "filter_at hp p k b ws" and "unat n = 32 * 2 ^ k" and "unat n \<le> length bs"
  shows "\<exists>key c d. those (map (\<lambda>i. rd_at bs (i mod unat n)) [0..<16]) = Some key \<and>
     qb_contains p key 16 hp = Some c \<and> qb_contains_prehash p 0xC0FFEE hp = Some d"
proof -
  let ?key = "map (\<lambda>i. bs ! (i mod unat n)) [0..<16]"
  have "those (map (\<lambda>i. rd_at bs (i mod unat n)) [0..<16]) = Some ?key"
    using assms(2,3) by (intro probe_key) simp_all
  moreover obtain c where "qb_contains p ?key 16 hp = Some c"
    by (simp add: contains_via_prehash bloom_hash_eq contains_prehash_eq [OF f])
  moreover obtain d where "qb_contains_prehash p 0xC0FFEE hp = Some d" by (simp add: contains_prehash_eq [OF f])
  ultimately show ?thesis by blast
qed

lemma image_size_nonzero: "k \<le> 31 \<Longrightarrow> 2 ^ k * SBBF_BLOCK_BYTES \<noteq> 0"
proof -
  assume "k \<le> 31"
  then have "unat (2 ^ k * SBBF_BLOCK_BYTES) = 32 * 2 ^ k" by (rule bytes_of_blocks)
  then show ?thesis by (metis mult_eq_0_iff power_not_zero unat_0 zero_neq_numeral)
qed

text \<open>C14: \<open>fuzz_deserialize\<close> finds nothing, ever. For every buffer and size, \<open>qb_deserialize\<close> and the
  queries and the serialization round trip on its result never fault, no check traps, the heap at the
  end is the one at the start and no scratch buffer is left, whichever of the library's allocations
  and of the two \<open>malloc\<close>s of the target fail.\<close>

theorem fuzz_deserialize_never_crashes:
  assumes "allocator_ok alloc" and "\<forall>i. buffers_ok (mal i)" and "\<forall>d \<in> set_option data. unat sz \<le> length d"
  shows "fuzz_deserialize ndebug alloc mal data sz hp = Some (Returned hp [])"
proof -
  define n where "n = (if push_bit 24 1 < sz then push_bit 24 1 else sz)"
  have "n \<le> sz" by (simp add: n_def less_imp_le)
  then have len: "\<forall>d \<in> set_option data. unat n \<le> length d"
    using assms(3) by (auto simp: word_le_nat_alt dest: order.trans)
  from load_result [OF assms(1) len, of hp] show ?thesis
  proof
    assume "qb_load alloc data n hp = Some (NULL, hp)"
    then show ?thesis unfolding fuzz_deserialize_def Let_def n_def [symmetric] by simp
  next
    assume "\<exists>k p mem bs. data = Some bs \<and> k \<le> 25 \<and> n = 2 ^ k * SBBF_BLOCK_BYTES \<and> answers_ok hp p mem \<and>
       p \<noteq> NULL \<and> mem \<noteq> NULL \<and>
       qb_load alloc data n hp = Some (p, with_filter p mem k (words_from (8 * 2 ^ k) bs) hp)"
    then obtain k p mem bs where data: "data = Some bs" and k: "k \<le> 25" "n = 2 ^ k * SBBF_BLOCK_BYTES" and
      p: "answers_ok hp p mem" "p \<noteq> NULL" "mem \<noteq> NULL" and
      load: "qb_load alloc data n hp = Some (p, with_filter p mem k (words_from (8 * 2 ^ k) bs) hp)" by blast
    let ?hp = "with_filter p mem k (words_from (8 * 2 ^ k) bs) hp"
    have k31: "k \<le> 31" using k(1) by simp
    have f: "filter_at ?hp p k (filter_struct mem k) (words_from (8 * 2 ^ k) bs)"
      using k31 by (intro filter_at_with_filter [OF p]) simp_all
    have "unat n = 32 * 2 ^ k" unfolding k(2) by (rule bytes_of_blocks [OF k31])
    moreover have "unat n \<le> length bs" using len data by simp
    ultimately obtain key c d where
      key: "those (map (\<lambda>i. rd_at bs (i mod unat n)) [0..<16]) = Some key" and
      probes: "qb_contains p key 16 ?hp = Some c" "qb_contains_prehash p 0xC0FFEE ?hp = Some d"
      using fuzz_probes_ok [OF f] by blast
    have free: "qb_free p ?hp = Some hp" using k31 by (intro free_with_filter [OF p]) simp_all
    show ?thesis
      unfolding fuzz_deserialize_def Let_def n_def [symmetric]
      by (simp only: load load [unfolded data] Option.bind.simps prod.case p(2) if_False key probes data option.case
        serialized_size_eq [OF f] outcome.case fuzz_reload_ok [OF f assms(1,2)] image_size_nonzero [OF k31]
        fuzz.case free not_False_eq_True if_True)
  qed
qed

text \<open>An allocator that answers once and is exhausted while its two blocks are in use.\<close>

definition once :: allocator where
  "once hp = (if hp 64 = None \<and> hp 96 = None then (64, 96) else (0, 0))"

lemma once_ok: "allocator_ok once"
  by (auto simp: allocator_ok_def once_def answers_ok_def fresh_def)

theorem fuzz_deserialize_never_crashes_witness:
  "fuzz_deserialize False once (\<lambda>i n. if i = 0 then Some (replicate n 7) else None) (Some (replicate 64 0xA5)) 64 Map.empty
     = Some (Returned Map.empty [])"
  by (rule fuzz_deserialize_never_crashes) (simp_all add: once_ok buffers_ok_def)

text \<open>The common middle of the two insert targets, on a filter fresh from \<open>qb_new\<close>.\<close>

lemma insert_all:
  assumes p: "answers_ok hp p mem" "p \<noteq> NULL" "mem \<noteq> NULL" "k \<le> 31" and keys: "n * klen \<le> length data"
  shows "\<exists>ws. filter_at (with_filter p mem k ws hp) p k (filter_struct mem k) ws \<and>
     qb_insert_bulk p data klen n (with_filter p mem k (replicate (8 * 2 ^ k) 0) hp) = Some (with_filter p mem k ws hp) \<and>
     qb_free p (with_filter p mem k ws hp) = Some hp \<and>
     (\<forall>i < n. footprint k (key_hash (take klen (drop (i * klen) data))) \<subseteq> bitset ws)"
proof -
  have f: "filter_at (with_filter p mem k (replicate (8 * 2 ^ k) 0) hp) p k (filter_struct mem k) (replicate (8 * 2 ^ k) 0)"
    by (rule filter_at_with_filter [OF p]) simp
  have "p \<noteq> mem" using p by (auto simp: answers_ok_def)
  with bulk_inserted [OF f keys] obtain ws where
    run: "qb_insert_bulk p data klen n (with_filter p mem k (replicate (8 * 2 ^ k) 0) hp) = Some (with_filter p mem k ws hp)"
    and len: "length ws = 8 * 2 ^ k"
    and set: "\<forall>i < n. footprint k (key_hash (take klen (drop (i * klen) data))) \<subseteq> bitset ws"
    by (auto simp: insert_bulk_eq with_filter_update)
  from filter_at_with_filter [OF p len] free_with_filter [OF p len] run set show ?thesis by blast
qed

lemma queries_find_all:
  assumes f: "filter_at hp p k b ws" and keys: "n * klen \<le> length data"
    and set: "\<forall>i < n. footprint k (key_hash (take klen (drop (i * klen) data))) \<subseteq> bitset ws"
  shows "all_present p data klen n 0 hp = Some True" and "qb_contains_bulk p data klen n hp = Some n"
proof -
  show "all_present p data klen n 0 hp = Some True"
    using all_present_eq [OF f, of n klen data 0 n] key_in_buffer [OF keys] set by simp
  have "filter (\<lambda>i. qb_contains p (drop (i * klen) data) klen hp = Some 1) [0..<n] = [0..<n]"
    using contains_inserted [OF f key_in_buffer [OF keys]] set by (auto simp: filter_id_conv)
  with count_at_filter [OF f, of "[0..<n]" klen data 0] key_in_buffer [OF keys]
  show "qb_contains_bulk p data klen n hp = Some n" by (simp add: contains_bulk_eq)
qed

lemma keys_that_fit: "n \<le> (m :: nat) div klen \<Longrightarrow> m \<le> length data \<Longrightarrow> n * klen \<le> length data"
  by (metis div_times_less_eq_dividend mult_le_mono1 order.trans)

text \<open>C19: \<open>fuzz_insert\<close> finds nothing: whatever bytes it is given, every inserted key is found by
  \<open>qb_contains\<close> and counted by \<open>qb_contains_bulk\<close>, before and after a trip through the
  serialized image, nothing faults and nothing leaks, neither a filter nor the scratch buffer.\<close>

theorem fuzz_insert_never_crashes:
  assumes "allocator_ok alloc" and "\<forall>i. buffers_ok (mal i)" and "sz \<le> length data"
    and "rounds_with rnd r" and "rnd (1 / 100) = Fin x" and "log_value flog x l"
  shows "fuzz_insert ndebug rnd flog alloc mal data sz hp = Some (Returned hp [])"
proof (cases "sz < 16 \<or> sz - 1 < unat (data ! 0) mod 64 + 1 \<or> (sz - 1) div (unat (data ! 0) mod 64 + 1) = 0")
  case True
  then show ?thesis using assms(3) by (auto simp: fuzz_insert_def rd_at_def Let_def)
next
  case False
  define klen where "klen = unat (data ! 0) mod 64 + 1"
  define n where "n = (if 4096 < (sz - 1) div klen then 4096 else (sz - 1) div klen)"
  have n: "0 < n" "n \<le> 2 ^ 51" "n \<le> (sz - 1) div klen" using False by (simp_all add: n_def klen_def)
  have d0: "rd_at data 0 = Some (data ! 0)" using False assms(3) by (cases data) (auto simp: rd_at_def)
  have keys: "n * klen \<le> length (drop 1 data)" using n(3) assms(3) by (intro keys_that_fit [of n "sz - 1"]) simp_all
  have start: "\<not> sz < 16" "\<not> sz - 1 < klen" "(sz - 1) div klen \<noteq> 0" using False by (simp_all add: klen_def)
  from sized_result [OF assms(1,4,5,6) n(1,2), of ndebug hp] show ?thesis
  proof
    assume "qb_sized ndebug rnd flog alloc n hp = Some (Done (NULL, hp))"
    then show ?thesis
      unfolding fuzz_insert_def Let_def d0 Option.bind.simps klen_def [symmetric] n_def [symmetric]
      by simp
  next
    assume "\<exists>k p mem. k \<le> 31 \<and> answers_ok hp p mem \<and> p \<noteq> NULL \<and> mem \<noteq> NULL \<and>
       qb_sized ndebug rnd flog alloc n hp = Some (Done (p, with_filter p mem k (replicate (8 * 2 ^ k) 0) hp))"
    then obtain k p mem where p: "answers_ok hp p mem" "p \<noteq> NULL" "mem \<noteq> NULL" "k \<le> 31" and
      made: "qb_sized ndebug rnd flog alloc n hp = Some (Done (p, with_filter p mem k (replicate (8 * 2 ^ k) 0) hp))"
      by blast
    from insert_all [OF p keys] obtain ws where f: "filter_at (with_filter p mem k ws hp) p k (filter_struct mem k) ws" and
      run: "qb_insert_bulk p (drop 1 data) klen n (with_filter p mem k (replicate (8 * 2 ^ k) 0) hp) = Some (with_filter p mem k ws hp)"
      and free: "qb_free p (with_filter p mem k ws hp) = Some hp" and
      set: "\<forall>i < n. footprint k (key_hash (take klen (drop (i * klen) (drop 1 data)))) \<subseteq> bitset ws" by blast
    have again: "fuzz_reload_keys ndebug alloc mal p (drop 1 data) klen n (with_filter p mem k ws hp) []
        = Some (Returned (with_filter p mem k ws hp) [])"
      using set by (intro fuzz_reload_keys_ok [OF f assms(1) spec [OF assms(2)] keys]) simp
    show ?thesis
      unfolding fuzz_insert_def Let_def d0 Option.bind.simps klen_def [symmetric] n_def [symmetric]
      by (simp only: start if_False made outcome.case prod.case p(2) run Option.bind.simps
        queries_find_all [OF f keys set] again fuzz.case free less_irrefl not_True_eq_False simp_thms)
  qed
qed

theorem fuzz_insert_never_crashes_witness:
  "fuzz_insert False Fin (\<lambda>_. Fin (- 5)) once (\<lambda>_ n. Some (replicate n 0)) (replicate 20 3) 20 Map.empty = Some (Returned Map.empty [])"
  by (rule fuzz_insert_never_crashes [where r = "\<lambda>x. x" and x = "1 / 100" and l = "- 5"])
    (simp_all add: once_ok buffers_ok_def rounds_with_def log_value_def mono_def)

text \<open>C13: \<open>fuzz_fasthash_var\<close> finds nothing: keys of every length from 1 to 23 bytes, inserted one by one,
  are all found again, the reads of the hash never leave the buffer, and the heap at the end is the
  one at the start. This holds whatever bytes the target is given and whether or not the filter can
  be allocated, for a monotone rounding of doubles and a logarithm of the rate between -746 and 0.\<close>

theorem fuzz_fasthash_var_never_crashes:
  assumes "allocator_ok alloc" and "sz \<le> length data"
    and "rounds_with rnd r" and "rnd (1 / 100) = Fin x" and "log_value flog x l"
  shows "fuzz_fasthash_var ndebug rnd flog alloc data sz hp = Some (Returned hp [])"
proof (cases "sz < 2 \<or> (sz - 1) div (unat (data ! 0) mod 23 + 1) = 0")
  case True
  then show ?thesis using assms(2) by (auto simp: fuzz_fasthash_var_def rd_at_def Let_def)
next
  case False
  define klen where "klen = unat (data ! 0) mod 23 + 1"
  define n where "n = (if 2048 < (sz - 1) div klen then 2048 else (sz - 1) div klen)"
  have n: "0 < n" "n \<le> 2 ^ 51" "n \<le> (sz - 1) div klen" using False by (simp_all add: n_def klen_def)
  have d0: "rd_at data 0 = Some (data ! 0)" using False assms(2) by (cases data) (auto simp: rd_at_def)
  have keys: "n * klen \<le> length (drop 1 data)" using n(3) assms(2) by (intro keys_that_fit [of n "sz - 1"]) simp_all
  have start: "\<not> sz < 2" "(sz - 1) div klen \<noteq> 0" using False by (simp_all add: klen_def)
  from sized_result [OF assms(1,3,4,5) n(1,2), of ndebug hp] show ?thesis
  proof
    assume "qb_sized ndebug rnd flog alloc n hp = Some (Done (NULL, hp))"
    then show ?thesis
      unfolding fuzz_fasthash_var_def Let_def d0 Option.bind.simps klen_def [symmetric] n_def [symmetric]
      by simp
  next
    assume "\<exists>k p mem. k \<le> 31 \<and> answers_ok hp p mem \<and> p \<noteq> NULL \<and> mem \<noteq> NULL \<and>
       qb_sized ndebug rnd flog alloc n hp = Some (Done (p, with_filter p mem k (replicate (8 * 2 ^ k) 0) hp))"
    then obtain k p mem where p: "answers_ok hp p mem" "p \<noteq> NULL" "mem \<noteq> NULL" "k \<le> 31" and
      made: "qb_sized ndebug rnd flog alloc n hp = Some (Done (p, with_filter p mem k (replicate (8 * 2 ^ k) 0) hp))"
      by blast
    from insert_all [OF p keys] obtain ws where f: "filter_at (with_filter p mem k ws hp) p k (filter_struct mem k) ws" and
      run: "foldM (\<lambda>i. qb_insert p (drop (i * klen) (drop 1 data)) klen) [0..<n]
         (with_filter p mem k (replicate (8 * 2 ^ k) 0) hp) = Some (with_filter p mem k ws hp)" and
      free: "qb_free p (with_filter p mem k ws hp) = Some hp" and
      set: "\<forall>i < n. footprint k (key_hash (take klen (drop (i * klen) (drop 1 data)))) \<subseteq> bitset ws"
      unfolding insert_bulk_eq insert_at_def by blast
    show ?thesis
      unfolding fuzz_fasthash_var_def Let_def d0 Option.bind.simps klen_def [symmetric] n_def [symmetric]
      by (simp only: start if_False made outcome.case prod.case p(2) run Option.bind.simps
        queries_find_all [OF f keys set] free not_True_eq_False simp_thms)
  qed
qed

theorem fuzz_fasthash_var_never_crashes_witness:
  "fuzz_fasthash_var False Fin (\<lambda>_. Fin (- 5)) once (replicate 20 3) 20 Map.empty = Some (Returned Map.empty [])"
  by (rule fuzz_fasthash_var_never_crashes [where r = "\<lambda>x. x" and x = "1 / 100" and l = "- 5"])
    (simp_all add: once_ok rounds_with_def log_value_def mono_def)

end
