(* ===== verification/Fasthash_Copies.thy ===== *)
theory Fasthash_Copies
  imports Qb_Hash
begin

text \<open>
  The copies of \<open>fasthash64_var\<close> in the comparison filters, each translated from its own file with the
  switch over the tail written out: a \<open>case\<close> label is entered when the number of bytes left is at
  least the label's, since every label falls through to the next. The lemmas show that all of them
  are the function of \<open>quickbloom.c\<close>, faults included.
\<close>

section \<open>The copies\<close>

text \<open>\<open>case j: t ^= (uint64_t)tail[j - 1] << 8 * (j - 1)\<close>.\<close>

definition tail_case :: "u8 list \<Rightarrow> nat \<Rightarrow> nat \<Rightarrow> nat \<Rightarrow> u64 \<Rightarrow> u64 option" where
  "tail_case data tail r j t =
     (if j \<le> r then do { x \<leftarrow> rd_at data (tail + (j - 1)); Some (t XOR push_bit (8 * (j - 1)) (ucast x)) } else Some t)"

text \<open>\<open>bloom_classic.c\<close>.\<close>

definition classic_fasthash64_var :: "u8 list \<Rightarrow> nat \<Rightarrow> u64 option" where
  "classic_fasthash64_var data len = do {
     let M = 0x880355f21e6d1965;
     let h = of_nat len * M;
     let nblocks = len div 8;
     h \<leftarrow> foldM (\<lambda>i h. do {
       k \<leftarrow> rd_le 8 data (i * 8);
       let k = k * M;
       let k = k XOR drop_bit 23 k;
       let k = k * M;
       let h = h XOR k;
       Some (h * M) }) [0..<nblocks] h;
     let tail = nblocks * 8;
     let r = len mod 8;
     t \<leftarrow> tail_case data tail r 7 0;
     t \<leftarrow> tail_case data tail r 6 t;
     t \<leftarrow> tail_case data tail r 5 t;
     t \<leftarrow> tail_case data tail r 4 t;
     t \<leftarrow> tail_case data tail r 3 t;
     t \<leftarrow> tail_case data tail r 2 t;
     t \<leftarrow> tail_case data tail r 1 t;
     let t = t * M;
     let t = t XOR drop_bit 23 t;
     let t = t * M;
     let h = (if 1 \<le> r then (h XOR t) * M else h);
     let h = h XOR drop_bit 23 h;
     let h = h * 0x2127599bf4325c37;
     Some (h XOR drop_bit 47 h) }"

text \<open>\<open>bloom_krassovsky.c\<close>.\<close>

definition krass_fasthash64_var :: "u8 list \<Rightarrow> nat \<Rightarrow> u64 option" where
  "krass_fasthash64_var data len = do {
     let M = 0x880355f21e6d1965;
     let h = of_nat len * M;
     let nblocks = len div 8;
     h \<leftarrow> foldM (\<lambda>i h. do {
       k \<leftarrow> rd_le 8 data (i * 8);
       let k = k * M;
       let k = k XOR drop_bit 23 k;
       let k = k * M;
       let h = h XOR k;
       Some (h * M) }) [0..<nblocks] h;
     let tail = nblocks * 8;
     let r = len mod 8;
     t \<leftarrow> tail_case data tail r 7 0;
     t \<leftarrow> tail_case data tail r 6 t;
     t \<leftarrow> tail_case data tail r 5 t;
     t \<leftarrow> tail_case data tail r 4 t;
     t \<leftarrow> tail_case data tail r 3 t;
     t \<leftarrow> tail_case data tail r 2 t;
     t \<leftarrow> tail_case data tail r 1 t;
     let t = t * M;
     let t = t XOR drop_bit 23 t;
     let t = t * M;
     let h = (if 1 \<le> r then (h XOR t) * M else h);
     let h = h XOR drop_bit 23 h;
     let h = h * 0x2127599bf4325c37;
     Some (h XOR drop_bit 47 h) }"

text \<open>\<open>bloom_xorfuse.c\<close>.\<close>

definition xf_fasthash64_var :: "u8 list \<Rightarrow> nat \<Rightarrow> u64 option" where
  "xf_fasthash64_var data len = do {
     let M = 0x880355f21e6d1965;
     let h = of_nat len * M;
     let nblocks = len div 8;
     h \<leftarrow> foldM (\<lambda>i h. do {
       k \<leftarrow> rd_le 8 data (i * 8);
       let k = k * M;
       let k = k XOR drop_bit 23 k;
       let k = k * M;
       let h = h XOR k;
       Some (h * M) }) [0..<nblocks] h;
     let tail = nblocks * 8;
     let r = len mod 8;
     t \<leftarrow> tail_case data tail r 7 0;
     t \<leftarrow> tail_case data tail r 6 t;
     t \<leftarrow> tail_case data tail r 5 t;
     t \<leftarrow> tail_case data tail r 4 t;
     t \<leftarrow> tail_case data tail r 3 t;
     t \<leftarrow> tail_case data tail r 2 t;
     t \<leftarrow> tail_case data tail r 1 t;
     let t = t * M;
     let t = t XOR drop_bit 23 t;
     let t = t * M;
     let h = (if 1 \<le> r then (h XOR t) * M else h);
     let h = h XOR drop_bit 23 h;
     let h = h * 0x2127599bf4325c37;
     Some (h XOR drop_bit 47 h) }"

section \<open>One function\<close>

lemma blocks_loop:
  "foldM (\<lambda>i h. do {
       k \<leftarrow> rd_le 8 p (i * 8);
       let k = k * 0x880355f21e6d1965;
       let k = k XOR drop_bit 23 k;
       let k = k * 0x880355f21e6d1965;
       let h = h XOR k;
       Some (h * 0x880355f21e6d1965) }) [i..<i + r] h = fh_blocks p r i h"
proof (induction r arbitrary: i h)
  case (Suc r)
  have "[i..<i + Suc r] = i # [Suc i..<Suc i + r]" by (simp add: upt_rec)
  then show ?case
    using Suc.IH [of "Suc i"] by (simp add: fh_step_def fh_mix_def fh_M_def Let_def del: upt_Suc)
qed simp

lemma tail_case_skip: "r < j \<Longrightarrow> tail_case p tail r j t = Some t"
  by (simp add: tail_case_def)

lemma tail_cases:
  assumes "r < 8"
  shows "do { t \<leftarrow> tail_case p tail r 7 t; t \<leftarrow> tail_case p tail r 6 t; t \<leftarrow> tail_case p tail r 5 t;
     t \<leftarrow> tail_case p tail r 4 t; t \<leftarrow> tail_case p tail r 3 t; t \<leftarrow> tail_case p tail r 2 t; tail_case p tail r 1 t } =
     fh_tail p tail r t"
proof -
  from assms have "r \<in> {0, 1, 2, 3, 4, 5, 6, 7}" by auto
  then show ?thesis by (elim insertE emptyE) (simp_all add: tail_case_def numeral_eq_Suc Option.bind_assoc)
qed

lemma classic_fasthash64_var_eq: "classic_fasthash64_var data len = fasthash64_var data len"
proof -
  let ?r = "len mod 8" and ?tail = "len div 8 * 8"
  have r: "?r < 8" by simp
  have "classic_fasthash64_var data len = do {
      h \<leftarrow> fh_blocks data (len div 8) 0 (of_nat len * fh_M);
      t \<leftarrow> fh_tail data ?tail ?r 0;
      Some (fh_final (if 1 \<le> ?r then fh_step h t else h)) }"
    using blocks_loop [of data 0 "len div 8"]
    by (simp add: classic_fasthash64_var_def tail_cases [OF r, symmetric] Option.bind_assoc fh_M_def fh_step_def fh_mix_def
        fh_final_def Let_def cong: if_cong)
  also have "\<dots> = fasthash64_var data len"
    by (cases "?r = 0") (simp_all add: fasthash64_var_def Let_def)
  finally show ?thesis .
qed

lemma krass_fasthash64_var_eq: "krass_fasthash64_var data len = fasthash64_var data len"
  by (simp only: krass_fasthash64_var_def flip: classic_fasthash64_var_eq classic_fasthash64_var_def)

lemma xf_fasthash64_var_eq: "xf_fasthash64_var data len = fasthash64_var data len"
  by (simp only: xf_fasthash64_var_def flip: classic_fasthash64_var_eq classic_fasthash64_var_def)

lemmas fasthash_copies [simp] = classic_fasthash64_var_eq krass_fasthash64_var_eq xf_fasthash64_var_eq

section \<open>Property\<close>

text \<open>The four copies of \<open>fasthash64_var\<close> in the repository are one function: the ones of the three
  comparison filters, with their switch, give the value of \<open>quickbloom.c\<close> for every buffer and
  every length and fault on the same ones, so the filters are compared on the same hashes.\<close>

theorem fasthash_copies_agree:
  "classic_fasthash64_var data len = fasthash64_var data len \<and> krass_fasthash64_var data len = fasthash64_var data len \<and>
   xf_fasthash64_var data len = fasthash64_var data len"
  by simp

end
