(* ===== verification/Classic.thy ===== *)
theory Classic
  imports Qb_Lifecycle Fasthash_Copies
begin

text \<open>
  The textbook Bloom filter of \<open>comparisons/bloom_classic.c\<close>: eight bits anywhere in the bit array
  by double hashing, one 64-bit word at a time. Its \<open>fasthash64_var\<close> is in
  \<open>Fasthash_Copies\<close>; its 16-byte hash is its own.
\<close>

section \<open>Definitions\<close>

definition K_HASHES :: nat where
  "K_HASHES = 8"

text \<open>The second hash of a pair, derived from the first; also all of \<open>prehash_split\<close>.\<close>

definition prehash_split :: "u64 \<Rightarrow> u64 \<times> u64" where
  "prehash_split h = (let m = h * 0x9e3779b97f4a7c15; m = m XOR drop_bit 32 m in (h, m OR 1))"

definition hash16_pair :: "u8 list \<Rightarrow> (u64 \<times> u64) option" where
  "hash16_pair data = do {
     a \<leftarrow> rd_le 8 data 0;
     b \<leftarrow> rd_le 8 data 8;
     let r = ucast (a :: u64) * ucast (b :: u64) :: u128;
         h1 = ucast r XOR ucast (drop_bit 64 r) :: u64;
         m = h1 * 0x9e3779b97f4a7c15;
         m = m XOR drop_bit 32 m
     in Some (h1, m OR 1) }"

definition bloom_hash_pair :: "u8 list \<Rightarrow> nat \<Rightarrow> (u64 \<times> u64) option" where
  "bloom_hash_pair data len =
     (if len = 16 then hash16_pair data
      else do { h \<leftarrow> classic_fasthash64_var data len; Some (prehash_split h) })"

record classic_t =
  cbits :: addr
  bit_mask :: size_t

type_synonym classic_heap = "(classic_t, u64) heap"

text \<open>
  \<open>bloom_new\<close> writes through the result of \<open>malloc\<close> unchecked; the answers of \<open>malloc\<close>,
  \<open>posix_memalign\<close> and the fallback \<open>calloc\<close> are its first arguments. A null bit array is stored as
  it is.
\<close>

definition classic_new ::
  "addr \<Rightarrow> addr \<Rightarrow> addr \<Rightarrow> size_t \<Rightarrow> classic_heap \<Rightarrow> (addr \<times> classic_heap) option" where
  "classic_new ans_b ans_mem ans_calloc nbits hp = do {
     pow2 \<leftarrow> pow2_from 1 nbits;
     let nbits = pow2;
         nwords = nbits div 64;
         (nwords, nbits) = (if nwords = 0 then (1, 64) else (nwords, nbits));
         (b, hp) = malloc ans_b 16 hp
     in if b = NULL then None
        else
          let (failed, mem, hp) = posix_memalign ans_mem (unat (nwords * 8)) hp
          in do {
            (mem, hp) \<leftarrow>
              (if failed then
                 (if ans_calloc = NULL then Some (NULL, hp)
                  else Some (ans_calloc, hp(ans_calloc \<mapsto> Words (replicate (unat nwords) 0))))
               else do { hp \<leftarrow> memset_zero 8 mem (unat (nwords * 8)) hp; Some (mem, hp) });
            hp \<leftarrow> write_struct b \<lparr>cbits = mem, bit_mask = nbits - 1\<rparr> hp;
            Some (b, hp) } }"

definition classic_free :: "addr \<Rightarrow> classic_heap \<Rightarrow> classic_heap option" where
  "classic_free p hp = do {
     b \<leftarrow> read_struct p hp;
     hp \<leftarrow> free (cbits b) hp;
     free p hp }"

definition classic_set_bit :: "classic_t \<Rightarrow> u64 \<Rightarrow> classic_heap \<Rightarrow> classic_heap option" where
  "classic_set_bit b pos hp =
     (let pos = pos AND bit_mask b;
          q = (cbits b, unat (drop_bit 6 pos))
      in do { w \<leftarrow> read_word q hp; write_word q (w OR push_bit (unat (pos AND 63)) 1) hp })"

definition classic_get_bit :: "classic_t \<Rightarrow> u64 \<Rightarrow> classic_heap \<Rightarrow> u64 option" where
  "classic_get_bit b pos hp =
     (let pos = pos AND bit_mask b
      in do {
        w \<leftarrow> read_word (cbits b, unat (drop_bit 6 pos)) hp;
        Some (drop_bit (unat (pos AND 63)) w AND 1) })"

text \<open>The loops over the eight positions, by the number of rounds left.\<close>

fun insert_pair_from :: "nat \<Rightarrow> classic_t \<Rightarrow> u64 \<Rightarrow> u64 \<Rightarrow> classic_heap \<Rightarrow> classic_heap option" where
  "insert_pair_from 0 b pos h2 hp = Some hp"
| "insert_pair_from (Suc r) b pos h2 hp = do {
     hp \<leftarrow> classic_set_bit b pos hp;
     insert_pair_from r b (pos + h2) h2 hp }"

fun contains_pair_from :: "nat \<Rightarrow> classic_t \<Rightarrow> u64 \<Rightarrow> u64 \<Rightarrow> classic_heap \<Rightarrow> nat option" where
  "contains_pair_from 0 b pos h2 hp = Some 1"
| "contains_pair_from (Suc r) b pos h2 hp = do {
     bit \<leftarrow> classic_get_bit b pos hp;
     if bit = 0 then Some 0 else contains_pair_from r b (pos + h2) h2 hp }"

definition insert_with_pair :: "classic_t \<Rightarrow> u64 \<Rightarrow> u64 \<Rightarrow> classic_heap \<Rightarrow> classic_heap option" where
  "insert_with_pair b h1 h2 hp = insert_pair_from K_HASHES b h1 h2 hp"

definition contains_with_pair :: "classic_t \<Rightarrow> u64 \<Rightarrow> u64 \<Rightarrow> classic_heap \<Rightarrow> nat option" where
  "contains_with_pair b h1 h2 hp = contains_pair_from K_HASHES b h1 h2 hp"

definition classic_insert :: "addr \<Rightarrow> u8 list \<Rightarrow> nat \<Rightarrow> classic_heap \<Rightarrow> classic_heap option" where
  "classic_insert p key len hp = do {
     (h1, h2) \<leftarrow> bloom_hash_pair key len;
     b \<leftarrow> read_struct p hp;
     insert_with_pair b h1 h2 hp }"

definition classic_contains :: "addr \<Rightarrow> u8 list \<Rightarrow> nat \<Rightarrow> classic_heap \<Rightarrow> nat option" where
  "classic_contains p key len hp = do {
     (h1, h2) \<leftarrow> bloom_hash_pair key len;
     b \<leftarrow> read_struct p hp;
     contains_with_pair b h1 h2 hp }"

definition classic_insert_prehash :: "addr \<Rightarrow> u64 \<Rightarrow> classic_heap \<Rightarrow> classic_heap option" where
  "classic_insert_prehash p h hp = do {
     b \<leftarrow> read_struct p hp;
     let (h1, h2) = prehash_split h in insert_with_pair b h1 h2 hp }"

definition classic_contains_prehash :: "addr \<Rightarrow> u64 \<Rightarrow> classic_heap \<Rightarrow> nat option" where
  "classic_contains_prehash p h hp = do {
     b \<leftarrow> read_struct p hp;
     let (h1, h2) = prehash_split h in contains_with_pair b h1 h2 hp }"

text \<open>The bulk forms are loops over the single-key ones.\<close>

definition classic_insert_bulk :: "addr \<Rightarrow> u8 list \<Rightarrow> nat \<Rightarrow> nat \<Rightarrow> classic_heap \<Rightarrow> classic_heap option" where
  "classic_insert_bulk p keys klen n hp =
     foldM (\<lambda>i. classic_insert p (drop (i * klen) keys) klen) [0..<n] hp"

definition classic_contains_bulk :: "addr \<Rightarrow> u8 list \<Rightarrow> nat \<Rightarrow> nat \<Rightarrow> classic_heap \<Rightarrow> nat option" where
  "classic_contains_bulk p keys klen n hp =
     foldM (\<lambda>i hits. do {
       r \<leftarrow> classic_contains p (drop (i * klen) keys) klen hp;
       Some (if r \<noteq> 0 then hits + 1 else hits) }) [0..<n] 0"

definition classic_insert_prehash_bulk :: "addr \<Rightarrow> u64 list \<Rightarrow> nat \<Rightarrow> classic_heap \<Rightarrow> classic_heap option" where
  "classic_insert_prehash_bulk p hashes n hp =
     foldM (\<lambda>i hp. do { h \<leftarrow> rd_at hashes i; classic_insert_prehash p h hp }) [0..<n] hp"

definition classic_contains_prehash_bulk :: "addr \<Rightarrow> u64 list \<Rightarrow> nat \<Rightarrow> classic_heap \<Rightarrow> nat option" where
  "classic_contains_prehash_bulk p hashes n hp =
     foldM (\<lambda>i hits. do {
       h \<leftarrow> rd_at hashes i;
       r \<leftarrow> classic_contains_prehash p h hp;
       Some (if r \<noteq> 0 then hits + 1 else hits) }) [0..<n] 0"

section \<open>The filter in the heap\<close>

definition classic_at :: "classic_heap \<Rightarrow> addr \<Rightarrow> nat \<Rightarrow> classic_t \<Rightarrow> u64 list \<Rightarrow> bool" where
  "classic_at hp p m b ws \<longleftrightarrow>
     hp p = Some (Struct b) \<and> hp (cbits b) = Some (Words ws) \<and> p \<noteq> NULL \<and> cbits b \<noteq> NULL \<and>
     6 \<le> m \<and> m \<le> 63 \<and> bit_mask b = 2 ^ m - 1 \<and> length ws = 2 ^ (m - 6)"

text \<open>The position of a bit: its number modulo \<open>2 ^ m\<close>, as a word and a bit of that word.\<close>

definition bit_pos :: "nat \<Rightarrow> u64 \<Rightarrow> nat \<times> nat" where
  "bit_pos m pos = (unat pos mod 2 ^ m div 64, unat pos mod 2 ^ m mod 64)"

definition pair_positions :: "nat \<Rightarrow> nat \<Rightarrow> u64 \<Rightarrow> u64 \<Rightarrow> (nat \<times> nat) set" where
  "pair_positions r m pos h2 = (\<lambda>i. bit_pos m (pos + of_nat i * h2)) ` {..<r}"

definition classic_footprint :: "nat \<Rightarrow> u64 \<times> u64 \<Rightarrow> (nat \<times> nat) set" where
  "classic_footprint m hs = pair_positions K_HASHES m (fst hs) (snd hs)"

lemma masked_pos:
  shows "unat (pos AND (2 ^ m - 1) :: 'a::len word) = unat pos mod 2 ^ m"
proof -
  have "pos AND (2 ^ m - 1) = take_bit m pos" by (simp only: take_bit_eq_mask mask_eq_exp_minus_1)
  then have "unat (pos AND (2 ^ m - 1)) = take_bit m (unat pos)" by (simp only: unsigned_take_bit_eq)
  then show ?thesis by (simp only: take_bit_eq_mod)
qed

lemma pos_word:
  "unat (drop_bit 6 (pos AND (2 ^ m - 1)) :: u64) = fst (bit_pos m pos)"
  by (simp only: unat_drop_bit_eq drop_bit_eq_div [where 'a = nat] masked_pos bit_pos_def fst_conv) simp

lemma pos_bit:
  "unat ((pos AND (2 ^ m - 1)) AND 63 :: u64) = snd (bit_pos m pos)"
proof -
  have "(63 :: u64) = 2 ^ 6 - 1" by simp
  then have "unat ((pos AND (2 ^ m - 1)) AND 63 :: u64) = unat (pos AND (2 ^ m - 1)) mod 2 ^ 6"
    by (simp only: masked_pos)
  then show ?thesis by (simp only: masked_pos bit_pos_def snd_conv) simp
qed

lemma bit_pos_in:
  assumes "classic_at hp p m b ws"
  shows "fst (bit_pos m pos) < length ws" and "snd (bit_pos m pos) < 64"
proof -
  have m: "6 \<le> m" "length ws = 2 ^ (m - 6)" using assms by (auto simp: classic_at_def)
  have "(2 :: nat) ^ m = 2 ^ (m - 6) * 2 ^ 6" using m(1)
    unfolding power_add [symmetric] by simp
  then show "fst (bit_pos m pos) < length ws"
    using m(2) by (simp add: bit_pos_def less_mult_imp_div_less)
  show "snd (bit_pos m pos) < 64" by (simp add: bit_pos_def)
qed

text \<open>Setting one bit of the array.\<close>

definition with_bit :: "nat \<times> nat \<Rightarrow> u64 list \<Rightarrow> u64 list" where
  "with_bit q ws = ws[fst q := ws ! fst q OR push_bit (snd q) 1]"

lemma bitset_with_bit: "fst q < length ws \<Longrightarrow> snd q < 64 \<Longrightarrow> bitset (with_bit q ws) = insert q (bitset ws)"
  by (cases q) (auto simp: bitset_def with_bit_def nth_list_update bit_simps split: if_splits)

lemma set_bit_eq:
  assumes "classic_at hp p m b ws"
  shows "classic_set_bit b pos hp = Some (hp(cbits b \<mapsto> Words (with_bit (bit_pos m pos) ws)))"
proof -
  have m: "m \<le> 63" "bit_mask b = 2 ^ m - 1" "hp (cbits b) = Some (Words ws)"
    using assms by (auto simp: classic_at_def)
  then show ?thesis
    using bit_pos_in [OF assms, of pos]
    unfolding classic_set_bit_def Let_def m(2) pos_word pos_bit
    by (simp add: read_word_Some write_word_Some with_bit_def)
qed

lemma get_bit_eq:
  assumes "classic_at hp p m b ws"
  shows "\<exists>x. classic_get_bit b pos hp = Some x \<and> (x \<noteq> 0 \<longleftrightarrow> bit_pos m pos \<in> bitset ws)"
proof -
  have m: "m \<le> 63" "bit_mask b = 2 ^ m - 1" "hp (cbits b) = Some (Words ws)"
    using assms by (auto simp: classic_at_def)
  then have "classic_get_bit b pos hp
      = Some (drop_bit (snd (bit_pos m pos)) (ws ! fst (bit_pos m pos)) AND 1)"
    using bit_pos_in [OF assms, of pos]
    unfolding classic_get_bit_def Let_def m(2) pos_word pos_bit
    by (simp add: read_word_Some)
  moreover have "drop_bit n w AND 1 \<noteq> 0 \<longleftrightarrow> bit w n" for n and w :: u64
    by (simp add: and_one_eq bit_iff_odd_drop_bit mod_2_eq_odd)
  ultimately show ?thesis
    using bit_pos_in [OF assms, of pos] by (cases "bit_pos m pos") (auto simp: bitset_def)
qed

lemma classic_at_update:
  "classic_at hp p m b ws \<Longrightarrow> length ws' = length ws \<Longrightarrow> classic_at (hp(cbits b \<mapsto> Words ws')) p m b ws'"
  by (auto simp: classic_at_def)

lemma pair_positions_Suc:
  "pair_positions (Suc r) m pos h2 = insert (bit_pos m pos) (pair_positions r m (pos + h2) h2)"
  by (auto simp: pair_positions_def lessThan_Suc_eq_insert_0 image_image algebra_simps)

lemma insert_pair_from_eq:
  "classic_at hp p m b ws \<Longrightarrow>
     \<exists>hp' ws'. insert_pair_from r b pos h2 hp = Some hp' \<and> classic_at hp' p m b ws' \<and>
       bitset ws' = bitset ws \<union> pair_positions r m pos h2"
proof (induction r arbitrary: pos hp ws)
  case 0
  then show ?case by (auto simp: pair_positions_def)
next
  case (Suc r)
  let ?ws = "with_bit (bit_pos m pos) ws"
  have "classic_at (hp(cbits b \<mapsto> Words ?ws)) p m b ?ws"
    using Suc.prems by (intro classic_at_update) (simp_all add: with_bit_def)
  from Suc.IH [OF this, of "pos + h2"] show ?case
    by (auto simp: set_bit_eq [OF Suc.prems] pair_positions_Suc bitset_with_bit bit_pos_in [OF Suc.prems]
        simp del: fun_upd_apply)
qed

lemma contains_pair_from_eq:
  assumes "classic_at hp p m b ws"
  shows "contains_pair_from r b pos h2 hp
     = Some (if pair_positions r m pos h2 \<subseteq> bitset ws then 1 else 0)"
proof (induction r arbitrary: pos)
  case 0
  then show ?case by (simp add: pair_positions_def)
next
  case (Suc r)
  from get_bit_eq [OF assms, of pos] obtain x where
    "classic_get_bit b pos hp = Some x" "x \<noteq> 0 \<longleftrightarrow> bit_pos m pos \<in> bitset ws" by blast
  with Suc show ?case by (simp add: pair_positions_Suc)
qed

section \<open>The contract\<close>

definition classic_ok :: "addr \<Rightarrow> nat \<Rightarrow> classic_t \<Rightarrow> classic_heap \<Rightarrow> bool" where
  "classic_ok p m b hp \<longleftrightarrow> (\<exists>ws. classic_at hp p m b ws)"

definition classic_bits :: "classic_t \<Rightarrow> classic_heap \<Rightarrow> (nat \<times> nat) set" where
  "classic_bits b hp = (case read_words (cbits b) hp of Some ws \<Rightarrow> bitset ws | None \<Rightarrow> {})"

definition classic_query :: "addr \<Rightarrow> u64 \<Rightarrow> classic_heap \<Rightarrow> bool option" where
  "classic_query p h hp = map_option (\<lambda>r. r \<noteq> 0) (classic_contains_prehash p h hp)"

lemma classic_bits_eq: "classic_at hp p m b ws \<Longrightarrow> classic_bits b hp = bitset ws"
  by (simp add: classic_bits_def classic_at_def)

lemma classic_insert_contract:
  assumes "classic_ok p m b hp"
  shows "\<exists>hp'. classic_insert_prehash p h hp = Some hp' \<and> classic_ok p m b hp' \<and>
     classic_bits b hp' = classic_bits b hp \<union> classic_footprint m (prehash_split h)"
proof -
  from assms obtain ws where c: "classic_at hp p m b ws" by (auto simp: classic_ok_def)
  then have "read_struct p hp = Some b" by (simp add: classic_at_def)
  with insert_pair_from_eq [OF c, of K_HASHES "fst (prehash_split h)" "snd (prehash_split h)"] show ?thesis
    by (auto simp: classic_insert_prehash_def insert_with_pair_def case_prod_unfold classic_ok_def
        classic_bits_eq [OF c] classic_bits_eq classic_footprint_def)
qed

lemma classic_contains_eq:
  assumes "classic_at hp p m b ws"
  shows "classic_contains_prehash p h hp
     = Some (if classic_footprint m (prehash_split h) \<subseteq> bitset ws then 1 else 0)"
  using assms
  by (simp add: classic_contains_prehash_def contains_with_pair_def contains_pair_from_eq [OF assms]
      case_prod_unfold classic_footprint_def classic_at_def)

lemma classic_query_contract:
  "classic_ok p m b hp \<Longrightarrow>
     classic_query p h hp = Some (classic_footprint m (prehash_split h) \<subseteq> classic_bits b hp)"
  by (auto simp: classic_ok_def classic_query_def classic_contains_eq classic_bits_eq)

interpretation classic: bloom_filter "classic_ok p m b" "classic_insert_prehash p" "classic_query p"
  "classic_bits b" "\<lambda>h. classic_footprint m (prehash_split h)" for p m b
  by unfold_locales (simp_all add: classic_insert_contract classic_query_contract)

section \<open>Creation\<close>

definition classic_struct :: "addr \<Rightarrow> nat \<Rightarrow> classic_t" where
  "classic_struct mem m = \<lparr>cbits = mem, bit_mask = 2 ^ m - 1\<rparr>"

lemma classic_sizes:
  assumes "k \<le> 63"
  shows "(if (2 ^ k :: size_t) div 64 = 0 then (1 :: size_t, 64 :: size_t) else (2 ^ k div 64, 2 ^ k))
     = (2 ^ (max 6 k - 6), 2 ^ max 6 k)"
proof -
  have div: "unat ((2 ^ k :: size_t) div 64) = 2 ^ k div 2 ^ 6" using assms by (simp add: unat_div_distrib unat_2_power)
  show ?thesis
  proof (cases "k < 6")
    case True
    then have "(2 :: nat) ^ k < 2 ^ 6" by (intro power_strict_increasing) simp_all
    with div have "(2 ^ k :: size_t) div 64 = 0" by (simp flip: unat_eq_zero)
    with True show ?thesis by (simp add: max_def)
  next
    case False
    then have "(2 :: nat) ^ k div 2 ^ 6 = 2 ^ (k - 6)" by (intro power_diff [symmetric]) simp_all
    with div assms have eq: "(2 ^ k :: size_t) div 64 = 2 ^ (k - 6)" by (simp add: word_unat_eq_iff unat_2_power)
    have "(2 ^ (k - 6) :: size_t) \<noteq> 0" using assms by (simp add: unat_2_power flip: unat_eq_zero)
    with eq False show ?thesis by (simp add: max_def)
  qed
qed

lemma unat_word_bytes: "6 \<le> m \<Longrightarrow> m \<le> 63 \<Longrightarrow> unat (2 ^ (m - 6) * 8 :: size_t) = 8 * 2 ^ (m - 6)"
proof -
  assume m: "6 \<le> m" "m \<le> 63"
  have "(2 :: size_t) ^ (m - 6) * 8 = 2 ^ (m - 6 + 3)" by (simp only: power_add) simp
  also have "unat \<dots> = 2 ^ (m - 6 + 3)" using m by (intro unat_2_power) simp
  finally show ?thesis by (simp add: power_add)
qed

lemma classic_new_eq:
  assumes "unat nbits \<le> 2 ^ 63" and "fresh hp ab" and "fresh hp am" and "ab \<noteq> am" and "ab \<noteq> NULL" and "am \<noteq> NULL"
  shows "\<exists>m. 6 \<le> m \<and> m \<le> 63 \<and> unat nbits \<le> 2 ^ m \<and> (6 < m \<longrightarrow> 2 ^ (m - 1) < unat nbits) \<and>
     classic_new ab am ac nbits hp
       = Some (ab, hp(am \<mapsto> Words (replicate (2 ^ (m - 6)) 0), ab \<mapsto> Struct (classic_struct am m)))"
proof -
  from ceil_log2 [OF assms(1)] obtain k where k: "k \<le> 63" "\<And>i. i < k \<Longrightarrow> 2 ^ i < unat nbits" "unat nbits \<le> 2 ^ k"
    by blast
  have pow2: "pow2_from (2 ^ 0) nbits = Some (2 ^ k)" using k by (intro pow2_from_eq) auto
  let ?m = "max 6 k"
  have m: "6 \<le> ?m" "?m \<le> 63" using k(1) by auto
  have "pow2_from 1 nbits = Some (2 ^ k)" using pow2 by simp
  then have "classic_new ab am ac nbits hp
      = Some (ab, hp(am \<mapsto> Words (replicate (2 ^ (?m - 6)) 0), ab \<mapsto> Struct (classic_struct am ?m)))"
    using assms(2-6) unat_word_bytes [OF m] m unat_2_power [of "?m - 6", where 'a = 64]
    unfolding classic_new_def Let_def
    by (simp only: bind.simps classic_sizes [OF k(1)] prod.case)
      (auto simp: malloc_def posix_memalign_def memset_zero_def init_block_def
        write_struct_def fresh_def classic_struct_def fun_eq_iff)
  moreover have "unat nbits \<le> 2 ^ ?m"
    by (rule order.trans [OF k(3)]) (rule power_increasing, simp_all)
  moreover have "6 < ?m \<longrightarrow> 2 ^ (?m - 1) < unat nbits" using k(2) [of "k - 1"] by (simp add: max_def)
  ultimately show ?thesis using m by blast
qed

section \<open>Positions of a pair\<close>

lemma bit_pos_inj: "bit_pos m x = bit_pos m y \<Longrightarrow> unat x mod 2 ^ m = unat y mod 2 ^ m"
  unfolding bit_pos_def by (metis div_mult_mod_eq prod.inject)

lemma progression_mod:
  fixes h1 h2 :: u64
  assumes "m \<le> 63"
  shows "unat (h1 + of_nat i * h2) mod 2 ^ m = (unat h1 + i * unat h2) mod 2 ^ m"
proof -
  have dvd: "(2 :: nat) ^ m dvd 2 ^ 64" using assms by (intro le_imp_power_dvd) simp
  have "unat (h1 + of_nat i * h2) = (unat h1 + i * unat h2) mod 2 ^ 64"
    by (simp add: unat_word_ariths unsigned_of_nat take_bit_eq_mod mod_simps)
  then show ?thesis by (simp only: mod_mod_cancel [OF dvd])
qed

lemma odd_multiples_distinct_le:
  fixes a c i j :: nat
  assumes "odd c" and "(a + i * c) mod 2 ^ m = (a + j * c) mod 2 ^ m" and "j \<le> i" and "i < 2 ^ m"
  shows "i = j"
proof -
  have "a + j * c \<le> a + i * c" using assms(3) by simp
  from mod_eq_dvd_iff_nat [OF this, of "2 ^ m"] assms(2) have "2 ^ m dvd (a + i * c) - (a + j * c)" by simp
  then have "2 ^ m dvd (i - j) * c" by (simp add: diff_mult_distrib)
  moreover have "coprime (2 ^ m) c" using assms(1) by simp
  ultimately have "2 ^ m dvd i - j" by (simp add: coprime_dvd_mult_left_iff)
  with assms(3,4) show ?thesis by (auto dest: dvd_imp_le)
qed

lemma odd_multiples_distinct:
  fixes a c i j :: nat
  assumes "odd c" and "(a + i * c) mod 2 ^ m = (a + j * c) mod 2 ^ m" and "i < 2 ^ m" and "j < 2 ^ m"
  shows "i = j"
  using odd_multiples_distinct_le [of c a i m j] odd_multiples_distinct_le [of c a j m i] assms
  by (cases "j \<le> i") auto

section \<open>Properties\<close>

text \<open>C35: the textbook filter has no false negatives: on a live filter insertions never fault and
  every inserted hash is found afterwards.\<close>

theorem classic_no_false_negatives:
  assumes "classic_at hp p m b ws"
  shows "\<exists>hp'. foldM (classic_insert_prehash p) hs hp = Some hp' \<and>
     (\<forall>h \<in> set hs. classic_contains_prehash p h hp' = Some 1)"
proof -
  from assms have "classic_ok p m b hp" by (auto simp: classic_ok_def)
  from classic.ins_all [OF this, of hs] obtain hp' where
    hp': "foldM (classic_insert_prehash p) hs hp = Some hp'" "classic_ok p m b hp'"
      "classic_bits b hp' = classic_bits b hp \<union> \<Union> ((\<lambda>h. classic_footprint m (prehash_split h)) ` set hs)" by blast
  then obtain ws' where c: "classic_at hp' p m b ws'" by (auto simp: classic_ok_def)
  have "classic_contains_prehash p h hp' = Some 1" if "h \<in> set hs" for h
    using hp'(3) that by (simp add: classic_contains_eq [OF c] classic_bits_eq [OF c]) blast
  with hp'(1) show ?thesis by blast
qed

theorem classic_no_false_negatives_witness:
  "\<exists>hp'. foldM (classic_insert_prehash 64) [0, 1]
       [64 \<mapsto> Struct (classic_struct 128 7), 128 \<mapsto> Words [0, 0]] = Some hp' \<and>
     classic_contains_prehash 64 1 hp' = Some 1"
proof -
  have "classic_at [64 \<mapsto> Struct (classic_struct 128 7), 128 \<mapsto> Words [0, 0]] 64 7 (classic_struct 128 7) [0, 0]"
    by (simp add: classic_at_def classic_struct_def)
  from classic_no_false_negatives [OF this, of "[0, 1]"] show ?thesis by auto
qed

text \<open>Double hashing sets eight different bits: the second hash is odd, so no two of the eight
  positions of a key coincide, however small the filter.\<close>

theorem classic_eight_distinct_bits:
  assumes "6 \<le> m" and "m \<le> 63"
  shows "card (classic_footprint m (prehash_split h)) = 8"
proof -
  let ?h1 = "fst (prehash_split h)" and ?h2 = "snd (prehash_split h)"
  have "bit ?h2 0" by (simp add: prehash_split_def Let_def bit_or_iff)
  then have "bit (unat ?h2) 0" by (simp only: bit_unsigned_iff) simp
  then have odd: "odd (unat ?h2)" by (simp add: bit_0)
  have "inj_on (\<lambda>i. bit_pos m (?h1 + of_nat i * ?h2)) {..<8}"
  proof (rule inj_onI)
    fix i j :: nat assume ij: "i \<in> {..<8}" "j \<in> {..<8}"
      and eq: "bit_pos m (?h1 + of_nat i * ?h2) = bit_pos m (?h1 + of_nat j * ?h2)"
    have "(2 :: nat) ^ 6 \<le> 2 ^ m" using assms(1) by (intro power_increasing) simp_all
    with ij have less: "i < 2 ^ m" "j < 2 ^ m" by simp_all
    from eq have "(unat ?h1 + i * unat ?h2) mod 2 ^ m = (unat ?h1 + j * unat ?h2) mod 2 ^ m"
      using assms(2) by (auto simp: progression_mod dest: bit_pos_inj)
    from odd_multiples_distinct [OF odd this less] show "i = j" .
  qed
  then show ?thesis by (simp add: classic_footprint_def pair_positions_def K_HASHES_def card_image)
qed

theorem classic_eight_distinct_bits_witness:
  "card (classic_footprint 6 (prehash_split 12345)) = 8"
  by (rule classic_eight_distinct_bits) simp_all

text \<open>C36: what the textbook \<open>bloom_new\<close> builds. A request of at most \<open>2 ^ 63\<close> bits whose allocations
  succeed gives an empty filter with the least power of two of bits, at least 64; a larger request
  never returns, because the doubling runs past the top bit to zero and stays there.\<close>

theorem classic_new_correct:
  assumes "fresh hp ab" and "fresh hp am" and "ab \<noteq> am" and "ab \<noteq> NULL" and "am \<noteq> NULL"
  shows "if unat nbits \<le> 2 ^ 63
     then \<exists>hp' m. classic_new ab am ac nbits hp = Some (ab, hp') \<and>
       classic_at hp' ab m (classic_struct am m) (replicate (2 ^ (m - 6)) 0) \<and>
       unat nbits \<le> 2 ^ m \<and> (6 < m \<longrightarrow> 2 ^ (m - 1) < unat nbits)
     else classic_new ab am ac nbits hp = None"
proof (cases "unat nbits \<le> 2 ^ 63")
  case True
  from classic_new_eq [OF this assms] obtain m where m: "6 \<le> m" "m \<le> 63" "unat nbits \<le> 2 ^ m"
    "6 < m \<longrightarrow> 2 ^ (m - 1) < unat nbits" and
    run: "classic_new ab am ac nbits hp
      = Some (ab, hp(am \<mapsto> Words (replicate (2 ^ (m - 6)) 0), ab \<mapsto> Struct (classic_struct am m)))" by blast
  have "classic_at (hp(am \<mapsto> Words (replicate (2 ^ (m - 6)) 0), ab \<mapsto> Struct (classic_struct am m))) ab m
      (classic_struct am m) (replicate (2 ^ (m - 6)) 0)"
    using m assms by (auto simp: classic_at_def classic_struct_def)
  with True run m show ?thesis by auto
next
  case False
  then show ?thesis by (simp add: classic_new_def pow2_from_diverges)
qed

theorem classic_new_correct_witness:
  "(\<exists>hp'. classic_new 64 128 0 1000 Map.empty = Some (64, hp')) \<and>
   classic_new 64 128 0 0xFFFFFFFFFFFFFFFF Map.empty = None"
  using classic_new_correct [of Map.empty 64 128 1000 0]
    classic_new_correct [of Map.empty 64 128 "0xFFFFFFFFFFFFFFFF" 0] by (auto simp: fresh_def)

text \<open>Unlike quickbloom's, the 16-byte hash of the textbook filter does not whiten its halves:
  all keys whose first eight bytes are zero, and all whose last eight are, get the same pair of
  hashes, so one insertion makes every such key look present.\<close>

theorem classic_zero_half_collides:
  assumes "length x = 8" and "length y = 8"
  shows "bloom_hash_pair (replicate 8 0 @ x) 16 = Some (0, 1) \<and>
     bloom_hash_pair (y @ replicate 8 0) 16 = Some (0, 1)"
proof -
  have "le_word (replicate 8 0) = (0 :: u64)" by (simp add: numeral_eq_Suc)
  with assms show ?thesis by (simp add: bloom_hash_pair_def hash16_pair_def rd_le_def Let_def)
qed

theorem classic_zero_half_collides_witness:
  "bloom_hash_pair (replicate 8 0 @ [1, 2, 3, 4, 5, 6, 7, 8]) 16 = bloom_hash_pair (replicate 8 0 @ replicate 8 9) 16"
  using classic_zero_half_collides [of "[1, 2, 3, 4, 5, 6, 7, 8]" "replicate 8 9"]
    classic_zero_half_collides [of "replicate 8 9" "replicate 8 9"] by simp

end
