(* ===== verification/Krassovsky_Masks.thy ===== *)
theory Krassovsky_Masks
  imports Qb_Prelude
begin

text \<open>
  The masks of \<open>comparisons/bloom_krassovsky.c\<close>: the table of overlapping 57-bit patterns that a
  pseudo-random generator fills with a sliding window, and the mask of a hash, a pattern rotated
  by six more bits of it, in the scalar and in the AVX2 form. Every mask turns out to have four
  or five bits, and the two forms to agree.
\<close>

section \<open>The generator and the table\<close>

definition NUM_MASKS :: nat where "NUM_MASKS = 2 ^ 10"
definition BITS_PER_MASK :: nat where "BITS_PER_MASK = 57"
definition MIN_BITS_SET :: nat where "MIN_BITS_SET = 4"
definition MAX_BITS_SET :: nat where "MAX_BITS_SET = 5"
definition MASK_BYTES :: nat where "MASK_BYTES = (NUM_MASKS + 64) div 8"

definition prng_next :: "u64 \<Rightarrow> u64 \<times> u32" where
  "prng_next s =
     (let s = s XOR drop_bit 12 s;
          s = s XOR push_bit 25 s;
          s = s XOR drop_bit 27 s
      in (s, ucast (drop_bit 32 (s * 0x2545f4914f6cdd1d))))"

text \<open>\<open>(MASK_TABLE[i / 8] >> (i % 8)) & 1\<close> and setting that bit.\<close>

definition table_bit :: "u8 list \<Rightarrow> nat \<Rightarrow> bool option" where
  "table_bit t i = do { x \<leftarrow> rd_at t (i div 8); Some (bit x (i mod 8)) }"

definition table_set :: "u8 list \<Rightarrow> nat \<Rightarrow> u8 list option" where
  "table_set t i = do { x \<leftarrow> rd_at t (i div 8); Some (t[i div 8 := x OR push_bit (i mod 8) 1]) }"

text \<open>The do-while loop that looks for a free position; it could run forever.\<close>

partial_function (option) pick_free :: "u64 \<Rightarrow> u8 list \<Rightarrow> (u64 \<times> nat) option" where
  "pick_free s t =
     (let (s, x) = prng_next s; pos = unat x mod BITS_PER_MASK
      in do { b \<leftarrow> table_bit t pos; if b then pick_free s t else Some (s, pos) })"

declare pick_free.simps [code]

fun set_first :: "nat \<Rightarrow> u64 \<Rightarrow> u8 list \<Rightarrow> (u64 \<times> u8 list) option" where
  "set_first 0 s t = Some (s, t)"
| "set_first (Suc r) s t = do {
     (s, pos) \<leftarrow> pick_free s t;
     t \<leftarrow> table_set t pos;
     set_first r s t }"

text \<open>The sliding window, by the number of bits left.\<close>

fun slide :: "nat \<Rightarrow> nat \<Rightarrow> nat \<Rightarrow> u64 \<Rightarrow> u8 list \<Rightarrow> (u64 \<times> u8 list) option" where
  "slide 0 i cur s t = Some (s, t)"
| "slide (Suc r) i cur s t = do {
     leaving \<leftarrow> table_bit t (i - BITS_PER_MASK);
     if leaving \<and> cur = MIN_BITS_SET then do { t \<leftarrow> table_set t i; slide r (i + 1) cur s t }
     else if \<not> leaving \<and> cur = MAX_BITS_SET then slide r (i + 1) cur s t
     else
       let (s, x) = prng_next s
       in if unat x mod (BITS_PER_MASK * 2) < MIN_BITS_SET + MAX_BITS_SET
          then do { t \<leftarrow> table_set t i; slide r (i + 1) (if leaving then cur else cur + 1) s t }
          else slide r (i + 1) (if leaving then cur - 1 else cur) s t }"

record mask_state =
  MASK_TABLE :: "u8 list"
  mask_table_inited :: bool
  prng_state :: u64

definition mask_table_init :: "mask_state \<Rightarrow> mask_state option" where
  "mask_table_init g =
     (if mask_table_inited g then Some g
      else do {
        let t = replicate MASK_BYTES 0;
        let (s, x) = prng_next 0x123456789abcdef0;
        let range = MAX_BITS_SET - MIN_BITS_SET + 1;
        let num_set = MIN_BITS_SET + unat x mod range;
        (s, t) \<leftarrow> set_first num_set s t;
        let total_bits = NUM_MASKS + BITS_PER_MASK - 1;
        (s, t) \<leftarrow> slide (total_bits - BITS_PER_MASK) BITS_PER_MASK num_set s t;
        Some \<lparr>MASK_TABLE = t, mask_table_inited = True, prng_state = s\<rparr> })"

section \<open>The window invariant\<close>

definition tbit :: "u8 list \<Rightarrow> nat \<Rightarrow> bool" where
  "tbit t i \<longleftrightarrow> i div 8 < length t \<and> bit (t ! (i div 8)) (i mod 8)"

definition window :: "u8 list \<Rightarrow> nat \<Rightarrow> nat set" where
  "window t i = {j. i \<le> j \<and> j < i + 57 \<and> tbit t j}"

lemmas mask_consts = NUM_MASKS_def BITS_PER_MASK_def MIN_BITS_SET_def MAX_BITS_SET_def MASK_BYTES_def

lemma table_bit_eq: "length t = 136 \<Longrightarrow> i < 1088 \<Longrightarrow> table_bit t i = Some (tbit t i)"
  by (simp add: table_bit_def rd_at_def tbit_def less_mult_imp_div_less)

lemma table_set_eq:
  assumes "length t = 136" and "i < 1088"
  obtains t' where "table_set t i = Some t'" "length t' = 136" "\<And>j. tbit t' j \<longleftrightarrow> j = i \<or> tbit t j"
proof -
  let ?t = "t[i div 8 := t ! (i div 8) OR push_bit (i mod 8) 1]"
  have in_range: "i div 8 < 136" using assms(2) by (simp add: less_mult_imp_div_less)
  have "tbit ?t j \<longleftrightarrow> j = i \<or> tbit t j" for j
  proof (cases "j div 8 = i div 8")
    case True
    then have "j mod 8 = i mod 8 \<longleftrightarrow> j = i" by (metis div_mult_mod_eq)
    with True in_range assms(1) show ?thesis by (auto simp: tbit_def bit_simps)
  next
    case False
    then show ?thesis by (auto simp: tbit_def)
  qed
  with in_range assms(1) that [of ?t] show thesis by (simp add: table_set_def rd_at_def)
qed

lemma finite_window [simp]: "finite (window t i)"
  by (rule finite_subset [of _ "{..<i + 57}"]) (auto simp: window_def)

text \<open>Moving the window on by one: the lowest bit leaves, the new one enters.\<close>

lemma window_Suc:
  assumes "tbit t' (i + 57) = b" and "\<And>j. j < i + 57 \<Longrightarrow> tbit t' j = tbit t j"
  shows "card (window t' (i + 1)) + (if tbit t i then 1 else 0) = card (window t i) + (if b then 1 else 0)"
proof -
  let ?mid = "{j. i < j \<and> j < i + 57 \<and> tbit t j}"
  have fin: "finite ?mid" by (rule finite_subset [of _ "{..<i + 57}"]) auto
  have "window t i = (if tbit t i then insert i ?mid else ?mid)"
    by (auto simp: window_def le_less)
  moreover have "window t' (i + 1) = (if b then insert (i + 57) ?mid else ?mid)"
  proof -
    have "i + 1 \<le> j \<and> j < i + 1 + 57 \<longleftrightarrow> (i < j \<and> j < i + 57) \<or> j = i + 57" for j by linarith
    then show ?thesis using assms unfolding window_def by auto
  qed
  ultimately show ?thesis using fin by simp
qed

text \<open>What the loop keeps: the last window has \<open>cur\<close> bits, every window so far has four or five, and
  nothing is set ahead.\<close>

definition slide_inv :: "nat \<Rightarrow> nat \<Rightarrow> u8 list \<Rightarrow> bool" where
  "slide_inv i cur t \<longleftrightarrow>
     length t = 136 \<and> 57 \<le> i \<and> card (window t (i - 57)) = cur \<and>
     (\<forall>j \<le> i - 57. card (window t j) \<in> {4, 5}) \<and> (\<forall>j \<ge> i. \<not> tbit t j)"

lemma slide_inv_next:
  assumes inv: "slide_inv i cur t" and len: "length t' = 136"
    and new: "\<And>j. tbit t' j \<longleftrightarrow> (b \<and> j = i) \<or> tbit t j"
    and cur': "cur' + (if tbit t (i - 57) then 1 else 0) = cur + (if b then 1 else 0)" and "cur' \<in> {4, 5}"
  shows "slide_inv (i + 1) cur' t'"
proof -
  from inv have i: "57 \<le> i" "card (window t (i - 57)) = cur" "\<And>j. j \<le> i - 57 \<Longrightarrow> card (window t j) \<in> {4, 5}"
    "\<And>j. i \<le> j \<Longrightarrow> \<not> tbit t j" by (auto simp: slide_inv_def)
  have "card (window t' (i - 57 + 1)) = cur'"
    using window_Suc [of t' "i - 57" b t] i(1,2,4) cur' new by simp
  moreover have "window t' j = window t j" if "j \<le> i - 57" for j
    using that i(1) new by (auto simp: window_def)
  ultimately have "card (window t' j) \<in> {4, 5}" if "j \<le> i + 1 - 57" for j
    using that i(1,3) assms(5) by (cases "j = i - 57 + 1") auto
  moreover have "i + 1 - 57 = i - 57 + 1" using i(1) by simp
  ultimately show ?thesis
    using i(1,4) len new \<open>card (window t' (i - 57 + 1)) = cur'\<close> by (auto simp: slide_inv_def)
qed

lemma slide_correct:
  "slide_inv i cur t \<Longrightarrow> i + r \<le> 1088 \<Longrightarrow>
     \<exists>s' t' cur'. slide r i cur s t = Some (s', t') \<and> slide_inv (i + r) cur' t'"
proof (induction r arbitrary: i cur s t)
  case 0
  then show ?case by auto
next
  case (Suc r)
  from Suc.prems have len: "length t = 136" and i: "57 \<le> i" "i < 1088" and cur: "cur \<in> {4, 5}"
    by (auto simp: slide_inv_def)
  from table_set_eq [OF len i(2)] obtain t' where
    t': "table_set t i = Some t'" "length t' = 136" "\<And>j. tbit t' j \<longleftrightarrow> j = i \<or> tbit t j" by blast
  have leaving: "table_bit t (i - BITS_PER_MASK) = Some (tbit t (i - 57))"
    using i len by (simp add: table_bit_eq mask_consts)
  have set: "slide_inv (i + 1) cur' t'"
    if "cur' + (if tbit t (i - 57) then 1 else 0) = cur + 1" "cur' \<in> {4, 5}" for cur'
    using slide_inv_next [OF Suc.prems(1) t'(2), of True] t'(3) that by simp
  have keep: "slide_inv (i + 1) cur' t"
    if "cur' + (if tbit t (i - 57) then 1 else 0) = cur" "cur' \<in> {4, 5}" for cur'
    using slide_inv_next [OF Suc.prems(1) len, of False] that by simp
  have step: "\<exists>s' t'' cur''. slide r (i + 1) cur' s t' = Some (s', t'') \<and> slide_inv (i + Suc r) cur'' t''"
    if "slide_inv (i + 1) cur' t'" for cur' s t'
    using Suc.IH [OF that] Suc.prems(2) by simp
  let ?free = "unat (snd (prng_next s)) mod (BITS_PER_MASK * 2) < MIN_BITS_SET + MAX_BITS_SET"
  consider "tbit t (i - 57)" "cur = 4" | "\<not> tbit t (i - 57)" "cur = 5"
    | "\<not> (tbit t (i - 57) \<and> cur = 4)" "\<not> (\<not> tbit t (i - 57) \<and> cur = 5)" "?free"
    | "\<not> (tbit t (i - 57) \<and> cur = 4)" "\<not> (\<not> tbit t (i - 57) \<and> cur = 5)" "\<not> ?free"
    by blast
  then show ?case
  proof cases
    case 1
    with step [OF set [of cur]] leaving t'(1) show ?thesis by (simp add: mask_consts)
  next
    case 2
    with step [OF keep [of cur]] leaving show ?thesis by (simp add: mask_consts)
  next
    case 3
    with step [OF set [of "if tbit t (i - 57) then cur else cur + 1"]] leaving t'(1) cur show ?thesis
      by (auto simp: mask_consts case_prod_unfold Let_def)
  next
    case 4
    with step [OF keep [of "if tbit t (i - 57) then cur - 1 else cur"]] leaving cur show ?thesis
      by (auto simp: mask_consts case_prod_unfold Let_def)
  qed
qed

text \<open>The first window: distinct positions, so as many bits as rounds.\<close>

lemma set_first_hit:
  assumes "length t = 136" and "prng_next s = (s', x)" and "\<not> tbit t (unat x mod 57)"
  shows "\<exists>t'. set_first (Suc r) s t = set_first r s' t' \<and> length t' = 136 \<and>
     (\<forall>j. tbit t' j \<longleftrightarrow> j = unat x mod 57 \<or> tbit t j)"
proof -
  have "unat x mod 57 < 57" by simp
  then have pos: "unat x mod 57 < 1088" by linarith
  then have "pick_free s t = Some (s', unat x mod 57)"
    using assms by (subst pick_free.simps) (simp add: table_bit_eq mask_consts)
  moreover from table_set_eq [OF assms(1) pos] obtain t' where
    "table_set t (unat x mod 57) = Some t'" "length t' = 136"
    "\<And>j. tbit t' j \<longleftrightarrow> j = unat x mod 57 \<or> tbit t j" by blast
  ultimately show ?thesis by (intro exI [of _ t']) simp
qed

text \<open>The generator's fixed seed never hits a taken position, so the search always ends at once.\<close>

lemma first_draws:
  "prng_next 0x123456789abcdef0 = (7624347718526603213, 3086680712)"
  "prng_next 7624347718526603213 = (4561998992951631716, 1124005680)"
  "prng_next 4561998992951631716 = (265876972068855838, 2203937700)"
  "prng_next 265876972068855838 = (8363960998174787318, 377374975)"
  "prng_next 8363960998174787318 = (4698812911545753409, 337904380)"
  by code_simp+

lemma tbit_zero: "\<not> tbit (replicate 136 0) j"
  by (simp add: tbit_def)

lemma first_window:
  "\<exists>s t. set_first 4 7624347718526603213 (replicate 136 0) = Some (s, t) \<and> length t = 136 \<and>
     (\<forall>j. tbit t j \<longleftrightarrow> j \<in> {1, 34, 39, 51})"
proof -
  obtain t1 where t1: "set_first 4 7624347718526603213 (replicate 136 0) = set_first 3 4561998992951631716 t1"
    "length t1 = 136" "\<And>j. tbit t1 j \<longleftrightarrow> j = 51"
    using set_first_hit [OF _ first_draws(2), of "replicate 136 0" 3] by (auto simp: tbit_zero simp del: set_first.simps(2))
  obtain t2 where t2: "set_first 3 4561998992951631716 t1 = set_first 2 265876972068855838 t2"
    "length t2 = 136" "\<And>j. tbit t2 j \<longleftrightarrow> j = 39 \<or> j = 51"
    using set_first_hit [OF t1(2) first_draws(3), of 2] by (auto simp: t1(3) simp del: set_first.simps(2))
  obtain t3 where t3: "set_first (Suc (Suc 0)) 265876972068855838 t2 = set_first 1 8363960998174787318 t3"
    "length t3 = 136" "\<And>j. tbit t3 j \<longleftrightarrow> j = 34 \<or> j = 39 \<or> j = 51"
    using set_first_hit [OF t2(2) first_draws(4), of 1] by (auto simp: t2(3) simp del: set_first.simps(2))
  obtain t4 where t4: "set_first 1 8363960998174787318 t3 = set_first 0 4698812911545753409 t4"
    "length t4 = 136" "\<And>j. tbit t4 j \<longleftrightarrow> j = 1 \<or> j = 34 \<or> j = 39 \<or> j = 51"
    using set_first_hit [OF t3(2) first_draws(5), of 0] by (auto simp: t3(3) simp del: set_first.simps(2))
  from t1(1) t2(1) t3(1) t4 show ?thesis by (auto simp: numeral_2_eq_2)
qed

text \<open>A table fit for use: long enough for every read, and each window has four or five bits.\<close>

definition table_ok :: "u8 list \<Rightarrow> bool" where
  "table_ok t \<longleftrightarrow> length t = 136 \<and> (\<forall>i < 1024. card (window t i) \<in> {4, 5})"

lemma first_count: "MIN_BITS_SET + unat (3086680712 :: u32) mod (MAX_BITS_SET - MIN_BITS_SET + 1) = 4"
proof -
  have two: "MAX_BITS_SET - MIN_BITS_SET + 1 = 2" by (simp add: mask_consts)
  show ?thesis unfolding two by (simp add: MIN_BITS_SET_def)
qed

lemma mask_table_init_eq:
  assumes "\<not> mask_table_inited g"
  shows "\<exists>g'. mask_table_init g = Some g' \<and> mask_table_inited g' \<and> table_ok (MASK_TABLE g')"
proof -
  from first_window obtain s t where
    first: "set_first 4 7624347718526603213 (replicate 136 0) = Some (s, t)" "length t = 136"
      "\<And>j. tbit t j \<longleftrightarrow> j \<in> {1, 34, 39, 51}" by blast
  then have "window t 0 = {1, 34, 39, 51}" by (auto simp: window_def)
  then have "card (window t 0) = 4" by simp
  then have "slide_inv 57 4 t" using first(2,3) by (auto simp: slide_inv_def)
  from slide_correct [OF this, of 1023 s] obtain s' t' cur where
    slide: "slide 1023 57 4 s t = Some (s', t')" "slide_inv 1080 cur t'" by auto
  have "table_ok t'" using slide(2) by (auto simp: slide_inv_def table_ok_def)
  moreover have "mask_table_init g = Some \<lparr>MASK_TABLE = t', mask_table_inited = True, prng_state = s'\<rparr>"
    using assms first(1) slide(1) unfolding mask_table_init_def first_draws Let_def prod.case first_count
    by (simp add: mask_consts)
  ultimately show ?thesis by simp
qed

section \<open>The mask of a hash\<close>

definition LOG_NUM_MASKS :: nat where "LOG_NUM_MASKS = 10"
definition ROTATE_BITS :: nat where "ROTATE_BITS = 6"

definition construct_mask_scalar :: "u8 list \<Rightarrow> u64 \<Rightarrow> u64 option" where
  "construct_mask_scalar table h = do {
     let idx = (ucast (h AND (push_bit LOG_NUM_MASKS 1 - 1)) :: u32);
     raw \<leftarrow> rd_le 8 table (unat (drop_bit 3 idx));
     let unrot = drop_bit (unat (idx AND 7)) raw AND (push_bit BITS_PER_MASK 1 - 1);
         rot = (ucast (drop_bit LOG_NUM_MASKS h AND (push_bit ROTATE_BITS 1 - 1)) :: u32);
         up = push_bit (unat rot) unrot;
         down = (if rot = 0 then 0 else drop_bit (64 - unat rot) unrot)
     in Some (up OR down) }"

text \<open>Vectors of four 64-bit lanes; a shift by 64 or more gives a zero lane.\<close>

type_synonym m256q = "u64 list"

definition mm256_set1_epi64x :: "u64 \<Rightarrow> m256q" where "mm256_set1_epi64x x = replicate 4 x"
definition mm256_and_epi64 :: "m256q \<Rightarrow> m256q \<Rightarrow> m256q" where "mm256_and_epi64 a b = map2 (AND) a b"
definition mm256_or_epi64 :: "m256q \<Rightarrow> m256q \<Rightarrow> m256q" where "mm256_or_epi64 a b = map2 (OR) a b"
definition mm256_sub_epi64 :: "m256q \<Rightarrow> m256q \<Rightarrow> m256q" where "mm256_sub_epi64 a b = map2 (-) a b"
definition mm256_srli_epi64 :: "m256q \<Rightarrow> nat \<Rightarrow> m256q" where "mm256_srli_epi64 a n = map (drop_bit n) a"
definition mm256_srlv_epi64 :: "m256q \<Rightarrow> m256q \<Rightarrow> m256q" where
  "mm256_srlv_epi64 a c = map2 (\<lambda>x n. drop_bit (unat n) x) a c"
definition mm256_sllv_epi64 :: "m256q \<Rightarrow> m256q \<Rightarrow> m256q" where
  "mm256_sllv_epi64 a c = map2 (\<lambda>x n. push_bit (unat n) x) a c"

text \<open>\<open>_mm256_i64gather_epi64\<close> over a byte buffer with scale 1.\<close>

definition gather_bytes :: "u8 list \<Rightarrow> m256q \<Rightarrow> m256q option" where
  "gather_bytes base offs = those (map (\<lambda>i. rd_le 8 base (unat i)) offs)"

definition construct_mask_avx2 :: "u8 list \<Rightarrow> m256q \<Rightarrow> m256q option" where
  "construct_mask_avx2 table hash = do {
     let mask_idx_mask = mm256_set1_epi64x (push_bit LOG_NUM_MASKS 1 - 1);
     let mask_57 = mm256_set1_epi64x (push_bit BITS_PER_MASK 1 - 1);
     let v64 = mm256_set1_epi64x 64;
     let rot_mask = mm256_set1_epi64x (push_bit ROTATE_BITS 1 - 1);
     let seven = mm256_set1_epi64x 0x7;
     let idx = mm256_and_epi64 hash mask_idx_mask;
     let byte_idx = mm256_srli_epi64 idx 3;
     let bit_idx = mm256_and_epi64 idx seven;
     raw \<leftarrow> gather_bytes table byte_idx;
     let unrot = mm256_and_epi64 (mm256_srlv_epi64 raw bit_idx) mask_57;
         rot = mm256_and_epi64 (mm256_srli_epi64 hash LOG_NUM_MASKS) rot_mask;
         up = mm256_sllv_epi64 unrot rot;
         down = mm256_srlv_epi64 unrot (mm256_sub_epi64 v64 rot)
     in Some (mm256_or_epi64 up down) }"

section \<open>The two forms agree\<close>

definition hash_index :: "u64 \<Rightarrow> nat" where "hash_index h = unat h mod 1024"
definition hash_rot :: "u64 \<Rightarrow> nat" where "hash_rot h = unat h div 1024 mod 64"

text \<open>The mask from the eight table bytes at the index.\<close>

definition rotated :: "nat \<Rightarrow> u64 \<Rightarrow> u64" where
  "rotated r w = push_bit r w OR drop_bit (64 - r) w"

definition mask_of :: "u64 \<Rightarrow> u64 \<Rightarrow> u64" where
  "mask_of h raw = rotated (hash_rot h) (take_bit 57 (drop_bit (hash_index h mod 8) raw))"

lemma unat_and_mask: "unat (w AND mask n :: 'a::len word) = unat w mod 2 ^ n"
proof -
  have "unat (w AND mask n) = take_bit n (unat w)" by (simp only: take_bit_eq_mask [symmetric] unsigned_take_bit_eq)
  then show ?thesis by (simp only: take_bit_eq_mod)
qed

lemma low_mask: "push_bit n 1 - 1 = (mask n :: 'a::len word)"
  by (simp add: mask_eq_exp_minus_1 push_bit_eq_mult)

lemma seven_mask: "(7 :: 'a::len word) = mask 3"
  by (simp add: mask_eq_exp_minus_1)

lemma hash_index_vec: "unat (h AND mask 10 :: u64) = hash_index h"
  by (simp only: unat_and_mask hash_index_def) simp

lemma hash_rot_vec: "unat (drop_bit 10 h AND mask 6 :: u64) = hash_rot h"
  by (simp only: unat_and_mask hash_rot_def unat_drop_bit_eq drop_bit_eq_div [where 'a = nat]) simp

lemma hash_index_less: "hash_index h < 1024"
  by (simp add: hash_index_def)

lemma hash_rot_less: "hash_rot h < 64"
  by (simp add: hash_rot_def)

lemma unat_ucast_small: "unat w < 2 ^ 32 \<Longrightarrow> unat (ucast (w :: u64) :: u32) = unat w"
  by (simp add: unsigned_ucast_eq take_bit_nat_eq_self)

lemma scalar_lane:
  "construct_mask_scalar table h = map_option (mask_of h) (rd_le 8 table (hash_index h div 8))"
proof -
  let ?idx = "ucast (h AND mask 10) :: u32" and ?rot = "ucast (drop_bit 10 h AND mask 6) :: u32"
  have idx: "unat ?idx = hash_index h" and rot: "unat ?rot = hash_rot h"
    using hash_index_less [of h] hash_rot_less [of h]
    by (simp_all add: unat_ucast_small hash_index_vec hash_rot_vec)
  have shift: "unat (drop_bit 3 ?idx) = hash_index h div 8"
    by (simp only: unat_drop_bit_eq drop_bit_eq_div [where 'a = nat] idx) simp
  have low: "unat (?idx AND 7) = hash_index h mod 8"
    by (simp only: seven_mask unat_and_mask idx) simp
  have zero: "?rot = 0 \<longleftrightarrow> hash_rot h = 0" by (simp only: rot [symmetric] unat_eq_zero)
  show ?thesis
    unfolding construct_mask_scalar_def LOG_NUM_MASKS_def ROTATE_BITS_def BITS_PER_MASK_def Let_def low_mask
      shift low rot zero
    by (cases "rd_le 8 table (hash_index h div 8) :: u64 option")
      (simp_all add: mask_of_def rotated_def take_bit_eq_mask)
qed

lemma avx2_lane:
  "push_bit (unat (drop_bit 10 h AND mask 6)) (drop_bit (unat ((h AND mask 10) AND 7)) raw AND mask 57) OR
     drop_bit (unat (64 - (drop_bit 10 h AND mask 6))) (drop_bit (unat ((h AND mask 10) AND 7)) raw AND mask 57)
   = mask_of h raw"
proof -
  have low: "unat ((h AND mask 10) AND 7) = hash_index h mod 8"
    by (simp only: seven_mask unat_and_mask [of _ 3] hash_index_vec) simp
  have "unat (64 - (drop_bit 10 h AND mask 6) :: u64) = 64 - hash_rot h"
    using hash_rot_less [of h] by (simp add: unat_sub_if' hash_rot_vec)
  then show ?thesis by (simp only: low hash_rot_vec mask_of_def rotated_def take_bit_eq_mask)
qed

lemma avx2_offset: "unat (drop_bit 3 (h AND mask 10) :: u64) = hash_index h div 8"
  by (simp only: unat_drop_bit_eq drop_bit_eq_div [where 'a = nat] hash_index_vec) simp

lemma construct_mask_avx2_eq:
  "construct_mask_avx2 table [a, b, c, d] = those (map (construct_mask_scalar table) [a, b, c, d])"
proof -
  have four: "replicate 4 x = [x, x, x, x]" for x :: u64 by (simp add: numeral_eq_Suc)
  have those4: "those [p, q, r, s] = do { x \<leftarrow> p; y \<leftarrow> q; z \<leftarrow> r; w \<leftarrow> s; Some [x, y, z, w] }"
    for p q r s :: "u64 option"
    by (auto split: option.split)
  show ?thesis
    unfolding construct_mask_avx2_def mm256_set1_epi64x_def mm256_and_epi64_def mm256_or_epi64_def
      mm256_sub_epi64_def mm256_srli_epi64_def mm256_srlv_epi64_def mm256_sllv_epi64_def gather_bytes_def
      Let_def LOG_NUM_MASKS_def ROTATE_BITS_def BITS_PER_MASK_def low_mask four
    by (cases "rd_le 8 table (hash_index a div 8) :: u64 option"; cases "rd_le 8 table (hash_index b div 8) :: u64 option";
        cases "rd_le 8 table (hash_index c div 8) :: u64 option"; cases "rd_le 8 table (hash_index d div 8) :: u64 option")
      (simp_all only: list.map zip_Cons_Cons zip_Nil prod.case avx2_offset those4 scalar_lane option.map
        bind.simps bind_None_const avx2_lane)
qed

section \<open>The number of bits of a mask\<close>

lemma wrap64: "j < 64 \<Longrightarrow> r < 64 \<Longrightarrow> (j + r) mod 64 = (if j + r < 64 then j + r else j + r - 64)" for j r :: nat
  by (simp add: le_mod_geq)

lemma rotated_bits:
  assumes "r < 64"
  shows "{i. bit (rotated r w) i} = (\<lambda>j. (j + r) mod 64) ` {j. bit w j}"
proof (rule set_eqI, rule iffI)
  fix i assume "i \<in> {i. bit (rotated r w) i}"
  then have i: "i < 64" "(r \<le> i \<and> bit w (i - r)) \<or> bit w (64 - r + i)"
    by (auto simp: rotated_def bit_simps dest: bit_imp_le_length)
  from i(2) show "i \<in> (\<lambda>j. (j + r) mod 64) ` {j. bit w j}"
  proof
    assume "r \<le> i \<and> bit w (i - r)"
    with i(1) show ?thesis by (intro image_eqI [of _ _ "i - r"]) auto
  next
    assume b: "bit w (64 - r + i)"
    from bit_imp_le_length [OF this] assms have "(64 - r + i + r) mod 64 = i" using i(1) by simp
    with b show ?thesis by (intro image_eqI [of _ _ "64 - r + i"]) auto
  qed
next
  fix i assume "i \<in> (\<lambda>j. (j + r) mod 64) ` {j. bit w j}"
  then obtain j where j: "bit w j" "i = (j + r) mod 64" by blast
  from bit_imp_le_length [OF j(1)] have "j < 64" by simp
  then show "i \<in> {i. bit (rotated r w) i}"
    using j assms by (cases "j + r < 64") (auto simp: rotated_def bit_simps wrap64)
qed

lemma card_rotated:
  assumes "r < 64"
  shows "card {i. bit (rotated r w) i} = card {j. bit w j}"
proof -
  have "inj_on (\<lambda>j. (j + r) mod 64) {j. bit w j}"
  proof (rule inj_onI)
    fix x y assume xy: "x \<in> {j. bit w j}" "y \<in> {j. bit w j}" "(x + r) mod 64 = (y + r) mod 64"
    then have "x < 64" "y < 64" by (auto dest: bit_imp_le_length)
    with xy(3) assms show "x = y" by (auto simp: wrap64 split: if_splits)
  qed
  then show ?thesis by (simp add: rotated_bits [OF assms] card_image)
qed

lemma pattern_bits:
  assumes "length t = 136" and "i < 1024"
  shows "bit (take_bit 57 (drop_bit (i mod 8) (le_word (take 8 (drop (i div 8) t)) :: u64))) j
     \<longleftrightarrow> j < 57 \<and> tbit t (i + j)"
proof (cases "j < 57")
  case True
  let ?n = "i mod 8 + j"
  have "i + j = ?n + 8 * (i div 8)" by (metis add.commute add.left_commute mult_div_mod_eq)
  then have pos: "(i + j) div 8 = i div 8 + ?n div 8" "(i + j) mod 8 = ?n mod 8"
    by (metis add.commute div_mult_self2 zero_neq_numeral) (metis mod_mult_self2 \<open>i + j = ?n + 8 * (i div 8)\<close>)
  have "i mod 8 < 8" by simp
  then have "?n < 64" using True by linarith
  then have "?n div 8 < 8" by (simp add: less_mult_imp_div_less)
  moreover have "i div 8 + 8 \<le> length t" using assms less_mult_imp_div_less [of i 128 8] by simp
  ultimately show ?thesis
    using True \<open>?n < 64\<close> by (simp add: bit_simps bit_le_word tbit_def pos)
qed (simp add: bit_simps)

lemma card_mask_of:
  assumes "table_ok t"
  shows "card {j. bit (mask_of h (le_word (take 8 (drop (hash_index h div 8) t)))) j} \<in> {4, 5}"
proof -
  let ?i = "hash_index h"
  let ?w = "take_bit 57 (drop_bit (?i mod 8) (le_word (take 8 (drop (?i div 8) t)))) :: u64"
  have len: "length t = 136" using assms by (simp add: table_ok_def)
  have "window t ?i = (\<lambda>j. ?i + j) ` {j. bit ?w j}"
  proof (rule set_eqI)
    fix x show "x \<in> window t ?i \<longleftrightarrow> x \<in> (\<lambda>j. ?i + j) ` {j. bit ?w j}"
      unfolding pattern_bits [OF len hash_index_less] window_def
      by (auto intro!: image_eqI [of _ _ "x - ?i"])
  qed
  then have "card (window t ?i) = card {j. bit ?w j}" by (simp add: card_image inj_on_def)
  moreover have "card (window t ?i) \<in> {4, 5}" using assms hash_index_less by (simp add: table_ok_def)
  ultimately show ?thesis by (simp add: mask_of_def card_rotated [OF hash_rot_less])
qed

lemma construct_mask_scalar_ok:
  assumes "table_ok t"
  shows "construct_mask_scalar t h = Some (mask_of h (le_word (take 8 (drop (hash_index h div 8) t))))"
proof -
  have "hash_index h div 8 + 8 \<le> length t"
    using assms hash_index_less [of h] less_mult_imp_div_less [of "hash_index h" 128 8] by (simp add: table_ok_def)
  then show ?thesis by (simp add: scalar_lane rd_le_Some)
qed

section \<open>Properties\<close>

text \<open>C31: \<open>mask_table_init\<close> always ends and does what its header says. On a fresh table the searches
  for free positions terminate for the fixed seed, no access leaves the table, and afterwards every
  one of the 1024 masks, for every rotation, has four or five bits set; a second call changes
  nothing.\<close>

theorem mask_table_correct:
  assumes "\<not> mask_table_inited g"
  shows "\<exists>g'. mask_table_init g = Some g' \<and> mask_table_init g' = Some g' \<and>
     (\<forall>h. \<exists>m. construct_mask_scalar (MASK_TABLE g') h = Some m \<and> card {j. bit m j} \<in> {4, 5})"
proof -
  from mask_table_init_eq [OF assms] obtain g' where
    g': "mask_table_init g = Some g'" "mask_table_inited g'" "table_ok (MASK_TABLE g')" by blast
  then have "mask_table_init g' = Some g'" by (simp add: mask_table_init_def)
  with g' construct_mask_scalar_ok [OF g'(3)] card_mask_of [OF g'(3)] show ?thesis by blast
qed

theorem mask_table_correct_witness:
  "\<exists>g'. mask_table_init \<lparr>MASK_TABLE = replicate 136 0, mask_table_inited = False, prng_state = 0\<rparr> = Some g' \<and>
     (\<exists>m. construct_mask_scalar (MASK_TABLE g') 77 = Some m \<and> card {j. bit m j} \<in> {4, 5})"
  using mask_table_correct [of "\<lparr>MASK_TABLE = replicate 136 0, mask_table_inited = False, prng_state = 0\<rparr>"]
  by auto

text \<open>The AVX2 mask construction is the scalar one in each of its four lanes, for every table and
  every four hashes, out-of-range table reads included.\<close>

theorem mask_avx2_is_scalar:
  "construct_mask_avx2 table [a, b, c, d] = do {
     m0 \<leftarrow> construct_mask_scalar table a;
     m1 \<leftarrow> construct_mask_scalar table b;
     m2 \<leftarrow> construct_mask_scalar table c;
     m3 \<leftarrow> construct_mask_scalar table d;
     Some [m0, m1, m2, m3] }"
  by (simp add: construct_mask_avx2_eq split: option.split)

end
