(* ===== verification/Krassovsky.thy ===== *)
theory Krassovsky
  imports Krassovsky_Masks Qb_Lifecycle Qb_Loops Fasthash_Copies
begin

text \<open>
  The filter of \<open>comparisons/bloom_krassovsky.c\<close>: one 64-bit block per key, a mask from the table,
  scalar operations and batches of eight built on AVX2 gathers. The global mask table is an
  argument of every operation. Its \<open>fasthash64_var\<close> is in \<open>Fasthash_Copies\<close>. The batches are proved to be the loops over the scalar operations.
\<close>

section \<open>Definitions\<close>

record krass_t =
  bv :: addr
  num_blocks :: u64
  num_blocks_mask :: u64

type_synonym krass_heap = "(krass_t, u64) heap"

text \<open>
  \<open>bloom_new\<close> uses the result of \<open>malloc\<close> unchecked and falls back to \<open>calloc\<close>; the three answers of
  the allocator follow the global mask state.
\<close>

definition krass_new ::
  "mask_state \<Rightarrow> addr \<Rightarrow> addr \<Rightarrow> addr \<Rightarrow> size_t \<Rightarrow> krass_heap \<Rightarrow> (addr \<times> mask_state \<times> krass_heap) option" where
  "krass_new g ans_b ans_mem ans_calloc nbits hp = do {
     g \<leftarrow> mask_table_init g;
     let (b, hp) = malloc ans_b 24 hp;
     pow2_bits \<leftarrow> pow2_from 64 nbits;
     let num_blocks = pow2_bits div 64;
         num_blocks = (if num_blocks = 0 then 1 else num_blocks);
         nbytes = num_blocks * 8;
         (failed, mem, hp) = posix_memalign ans_mem (unat nbytes) hp
     in if b = NULL then None
        else do {
          (mem, hp) \<leftarrow>
            (if failed then
               (if ans_calloc = NULL then Some (NULL, hp)
                else Some (ans_calloc, hp(ans_calloc \<mapsto> Words (replicate (unat nbytes div 8) 0))))
             else do { hp \<leftarrow> memset_zero 8 mem (unat nbytes) hp; Some (mem, hp) });
          hp \<leftarrow> write_struct b \<lparr>bv = mem, num_blocks = num_blocks, num_blocks_mask = num_blocks - 1\<rparr> hp;
          Some (b, g, hp) } }"

definition krass_free :: "addr \<Rightarrow> krass_heap \<Rightarrow> krass_heap option" where
  "krass_free p hp = do {
     b \<leftarrow> read_struct p hp;
     hp \<leftarrow> free (bv b) hp;
     free p hp }"

definition krass_hash16 :: "u8 list \<Rightarrow> u64 option" where
  "krass_hash16 data = do {
     a \<leftarrow> rd_le 8 data 0;
     b \<leftarrow> rd_le 8 data 8;
     let r = (ucast (a :: u64) * ucast (b :: u64) :: u128);
     Some (ucast r XOR ucast (drop_bit 64 r)) }"

definition krass_bloom_hash :: "u8 list \<Rightarrow> nat \<Rightarrow> u64 option" where
  "krass_bloom_hash data len = (if len = 16 then krass_hash16 data else krass_fasthash64_var data len)"

definition block_idx_scalar :: "krass_t \<Rightarrow> u64 \<Rightarrow> u64" where
  "block_idx_scalar b h = drop_bit (LOG_NUM_MASKS + ROTATE_BITS) h AND num_blocks_mask b"

text \<open>\<open>b->bv[i] |= m\<close>.\<close>

definition or_block :: "krass_t \<Rightarrow> u64 \<Rightarrow> u64 \<Rightarrow> krass_heap \<Rightarrow> krass_heap option" where
  "or_block b i m hp = do {
     w \<leftarrow> read_word (bv b, unat i) hp;
     write_word (bv b, unat i) (w OR m) hp }"

definition krass_insert_prehash :: "u8 list \<Rightarrow> addr \<Rightarrow> u64 \<Rightarrow> krass_heap \<Rightarrow> krass_heap option" where
  "krass_insert_prehash table p h hp = do {
     m \<leftarrow> construct_mask_scalar table h;
     b \<leftarrow> read_struct p hp;
     or_block b (block_idx_scalar b h) m hp }"

definition krass_contains_prehash :: "u8 list \<Rightarrow> addr \<Rightarrow> u64 \<Rightarrow> krass_heap \<Rightarrow> nat option" where
  "krass_contains_prehash table p h hp = do {
     mask \<leftarrow> construct_mask_scalar table h;
     b \<leftarrow> read_struct p hp;
     w \<leftarrow> read_word (bv b, unat (block_idx_scalar b h)) hp;
     Some (if w AND mask = mask then 1 else 0) }"

definition krass_insert :: "u8 list \<Rightarrow> addr \<Rightarrow> u8 list \<Rightarrow> nat \<Rightarrow> krass_heap \<Rightarrow> krass_heap option" where
  "krass_insert table p key len hp = do {
     h \<leftarrow> krass_bloom_hash key len;
     krass_insert_prehash table p h hp }"

definition krass_contains :: "u8 list \<Rightarrow> addr \<Rightarrow> u8 list \<Rightarrow> nat \<Rightarrow> krass_heap \<Rightarrow> nat option" where
  "krass_contains table p key len hp = do {
     h \<leftarrow> krass_bloom_hash key len;
     krass_contains_prehash table p h hp }"

section \<open>Batches of eight\<close>

definition mm256_loadu_epi64 :: "u64 list \<Rightarrow> nat \<Rightarrow> m256q option" where
  "mm256_loadu_epi64 xs i = those [rd_at xs i, rd_at xs (i + 1), rd_at xs (i + 2), rd_at xs (i + 3)]"

definition mm256_extract_epi64 :: "m256q \<Rightarrow> nat \<Rightarrow> u64" where
  "mm256_extract_epi64 v i = v ! i"

definition mm256_cmpeq_epi64 :: "m256q \<Rightarrow> m256q \<Rightarrow> m256q" where
  "mm256_cmpeq_epi64 a b = map2 (\<lambda>x y. if x = y then - 1 else 0) a b"

text \<open>Bit \<open>i\<close> of the result is the top bit of byte \<open>i\<close> of the vector.\<close>

definition mm256_movemask_epi8 :: "m256q \<Rightarrow> u32" where
  "mm256_movemask_epi8 v = horner_sum of_bool 2 (map (\<lambda>i. bit (v ! (i div 8)) (8 * (i mod 8) + 7)) [0..<32])"

text \<open>The gather of 64-bit blocks, scale 8.\<close>

definition gather_blocks :: "addr \<Rightarrow> m256q \<Rightarrow> krass_heap \<Rightarrow> m256q option" where
  "gather_blocks base idx hp = those (map (\<lambda>i. read_word (base, unat i) hp) idx)"

definition block_idx_avx2 :: "krass_t \<Rightarrow> m256q \<Rightarrow> m256q" where
  "block_idx_avx2 b hash =
     (let nbm = mm256_set1_epi64x (num_blocks_mask b);
          idx = mm256_srli_epi64 hash (LOG_NUM_MASKS + ROTATE_BITS)
      in mm256_and_epi64 idx nbm)"

definition krass_insert_batch8 :: "u8 list \<Rightarrow> addr \<Rightarrow> u64 list \<Rightarrow> krass_heap \<Rightarrow> krass_heap option" where
  "krass_insert_batch8 table p h hp = do {
     hA \<leftarrow> mm256_loadu_epi64 h 0;
     hB \<leftarrow> mm256_loadu_epi64 h 4;
     mA \<leftarrow> construct_mask_avx2 table hA;
     mB \<leftarrow> construct_mask_avx2 table hB;
     b \<leftarrow> read_struct p hp;
     let iA = block_idx_avx2 b hA;
     let iB = block_idx_avx2 b hB;
     hp \<leftarrow> or_block b (mm256_extract_epi64 iA 0) (mm256_extract_epi64 mA 0) hp;
     hp \<leftarrow> or_block b (mm256_extract_epi64 iA 1) (mm256_extract_epi64 mA 1) hp;
     hp \<leftarrow> or_block b (mm256_extract_epi64 iA 2) (mm256_extract_epi64 mA 2) hp;
     hp \<leftarrow> or_block b (mm256_extract_epi64 iA 3) (mm256_extract_epi64 mA 3) hp;
     hp \<leftarrow> or_block b (mm256_extract_epi64 iB 0) (mm256_extract_epi64 mB 0) hp;
     hp \<leftarrow> or_block b (mm256_extract_epi64 iB 1) (mm256_extract_epi64 mB 1) hp;
     hp \<leftarrow> or_block b (mm256_extract_epi64 iB 2) (mm256_extract_epi64 mB 2) hp;
     or_block b (mm256_extract_epi64 iB 3) (mm256_extract_epi64 mB 3) hp }"

text \<open>\<open>r |= (uint8_t)(((mm >> (8 * i)) & 1) << j)\<close>.\<close>

definition or_flag :: "u32 \<Rightarrow> nat \<Rightarrow> nat \<Rightarrow> u8 \<Rightarrow> u8" where
  "or_flag mm i j r = r OR ucast (push_bit j (drop_bit (8 * i) mm AND 1))"

definition krass_contains_batch8 :: "u8 list \<Rightarrow> addr \<Rightarrow> u64 list \<Rightarrow> krass_heap \<Rightarrow> u8 option" where
  "krass_contains_batch8 table p h hp = do {
     hA \<leftarrow> mm256_loadu_epi64 h 0;
     hB \<leftarrow> mm256_loadu_epi64 h 4;
     mA \<leftarrow> construct_mask_avx2 table hA;
     mB \<leftarrow> construct_mask_avx2 table hB;
     b \<leftarrow> read_struct p hp;
     let iA = block_idx_avx2 b hA;
     let iB = block_idx_avx2 b hB;
     bA \<leftarrow> gather_blocks (bv b) iA hp;
     bB \<leftarrow> gather_blocks (bv b) iB hp;
     let cA = mm256_cmpeq_epi64 (mm256_and_epi64 mA bA) mA;
         cB = mm256_cmpeq_epi64 (mm256_and_epi64 mB bB) mB;
         mAm = mm256_movemask_epi8 cA;
         mBm = mm256_movemask_epi8 cB;
         r = 0;
         r = or_flag mAm 0 0 r;
         r = or_flag mAm 1 1 r;
         r = or_flag mAm 2 2 r;
         r = or_flag mAm 3 3 r;
         r = or_flag mBm 0 4 r;
         r = or_flag mBm 1 5 r;
         r = or_flag mBm 2 6 r;
         r = or_flag mBm 3 7 r
     in Some r }"

definition popcount :: "u8 \<Rightarrow> nat" where
  "popcount x = length (filter (bit x) [0..<8])"

section \<open>Bulk operations\<close>

function insert_batch8_loop ::
  "u8 list \<Rightarrow> addr \<Rightarrow> u64 list \<Rightarrow> nat \<Rightarrow> nat \<Rightarrow> krass_heap \<Rightarrow> (nat \<times> krass_heap) option" where
  "insert_batch8_loop table p hashes n i hp =
     (if i + 8 \<le> n then do {
        hp \<leftarrow> krass_insert_batch8 table p (drop i hashes) hp;
        insert_batch8_loop table p hashes n (i + 8) hp }
      else Some (i, hp))"
  by pat_completeness auto
termination
  by (relation "measure (\<lambda>(table, p, hashes, n, i, hp). n - i)") auto

function insert_prehash_loop ::
  "u8 list \<Rightarrow> addr \<Rightarrow> u64 list \<Rightarrow> nat \<Rightarrow> nat \<Rightarrow> krass_heap \<Rightarrow> krass_heap option" where
  "insert_prehash_loop table p hashes n i hp =
     (if i < n then do {
        h \<leftarrow> rd_at hashes i;
        hp \<leftarrow> krass_insert_prehash table p h hp;
        insert_prehash_loop table p hashes n (i + 1) hp }
      else Some hp)"
  by pat_completeness auto
termination
  by (relation "measure (\<lambda>(table, p, hashes, n, i, hp). n - i)") auto

definition krass_insert_batch8_bulk :: "u8 list \<Rightarrow> addr \<Rightarrow> u64 list \<Rightarrow> nat \<Rightarrow> krass_heap \<Rightarrow> krass_heap option" where
  "krass_insert_batch8_bulk table p hashes n hp = do {
     (i, hp) \<leftarrow> insert_batch8_loop table p hashes n 0 hp;
     insert_prehash_loop table p hashes n i hp }"

function contains_batch8_loop ::
  "u8 list \<Rightarrow> addr \<Rightarrow> u64 list \<Rightarrow> nat \<Rightarrow> krass_heap \<Rightarrow> nat \<Rightarrow> nat \<Rightarrow> (nat \<times> nat) option" where
  "contains_batch8_loop table p hashes n hp i hits =
     (if i + 8 \<le> n then do {
        r \<leftarrow> krass_contains_batch8 table p (drop i hashes) hp;
        contains_batch8_loop table p hashes n hp (i + 8) (hits + popcount r) }
      else Some (i, hits))"
  by pat_completeness auto
termination
  by (relation "measure (\<lambda>(table, p, hashes, n, hp, i, hits). n - i)") auto

function contains_prehash_loop ::
  "u8 list \<Rightarrow> addr \<Rightarrow> u64 list \<Rightarrow> nat \<Rightarrow> krass_heap \<Rightarrow> nat \<Rightarrow> nat \<Rightarrow> nat option" where
  "contains_prehash_loop table p hashes n hp i hits =
     (if i < n then do {
        h \<leftarrow> rd_at hashes i;
        r \<leftarrow> krass_contains_prehash table p h hp;
        contains_prehash_loop table p hashes n hp (i + 1) (if r \<noteq> 0 then hits + 1 else hits) }
      else Some hits)"
  by pat_completeness auto
termination
  by (relation "measure (\<lambda>(table, p, hashes, n, hp, i, hits). n - i)") auto

definition krass_contains_batch8_bulk :: "u8 list \<Rightarrow> addr \<Rightarrow> u64 list \<Rightarrow> nat \<Rightarrow> krass_heap \<Rightarrow> nat option" where
  "krass_contains_batch8_bulk table p hashes n hp = do {
     (i, hits) \<leftarrow> contains_batch8_loop table p hashes n hp 0 0;
     contains_prehash_loop table p hashes n hp i hits }"

definition krass_insert_prehash_bulk :: "u8 list \<Rightarrow> addr \<Rightarrow> u64 list \<Rightarrow> nat \<Rightarrow> krass_heap \<Rightarrow> krass_heap option" where
  "krass_insert_prehash_bulk = krass_insert_batch8_bulk"

definition krass_contains_prehash_bulk :: "u8 list \<Rightarrow> addr \<Rightarrow> u64 list \<Rightarrow> nat \<Rightarrow> krass_heap \<Rightarrow> nat option" where
  "krass_contains_prehash_bulk = krass_contains_batch8_bulk"

text \<open>The keyed forms hash eight 16-byte keys into a local array first.\<close>

definition hash8 :: "u8 list \<Rightarrow> nat \<Rightarrow> u64 list option" where
  "hash8 keys i = those (map (\<lambda>j. krass_hash16 (drop ((i + j) * 16) keys)) [0..<8])"

function insert_keys_loop8 ::
  "u8 list \<Rightarrow> addr \<Rightarrow> u8 list \<Rightarrow> nat \<Rightarrow> nat \<Rightarrow> krass_heap \<Rightarrow> (nat \<times> krass_heap) option" where
  "insert_keys_loop8 table p keys n i hp =
     (if i + 8 \<le> n then do {
        h \<leftarrow> hash8 keys i;
        hp \<leftarrow> krass_insert_batch8 table p h hp;
        insert_keys_loop8 table p keys n (i + 8) hp }
      else Some (i, hp))"
  by pat_completeness auto
termination
  by (relation "measure (\<lambda>(table, p, keys, n, i, hp). n - i)") auto

function insert_keys_loop ::
  "u8 list \<Rightarrow> addr \<Rightarrow> u8 list \<Rightarrow> nat \<Rightarrow> nat \<Rightarrow> nat \<Rightarrow> krass_heap \<Rightarrow> krass_heap option" where
  "insert_keys_loop table p keys klen n i hp =
     (if i < n then do {
        hp \<leftarrow> krass_insert table p (drop (i * klen) keys) klen hp;
        insert_keys_loop table p keys klen n (i + 1) hp }
      else Some hp)"
  by pat_completeness auto
termination
  by (relation "measure (\<lambda>(table, p, keys, klen, n, i, hp). n - i)") auto

definition krass_insert_bulk :: "u8 list \<Rightarrow> addr \<Rightarrow> u8 list \<Rightarrow> nat \<Rightarrow> nat \<Rightarrow> krass_heap \<Rightarrow> krass_heap option" where
  "krass_insert_bulk table p keys klen n hp = do {
     (i, hp) \<leftarrow> (if klen = 16 \<and> 8 \<le> n then insert_keys_loop8 table p keys n 0 hp else Some (0, hp));
     insert_keys_loop table p keys klen n i hp }"

function contains_keys_loop8 ::
  "u8 list \<Rightarrow> addr \<Rightarrow> u8 list \<Rightarrow> nat \<Rightarrow> krass_heap \<Rightarrow> nat \<Rightarrow> nat \<Rightarrow> (nat \<times> nat) option" where
  "contains_keys_loop8 table p keys n hp i hits =
     (if i + 8 \<le> n then do {
        h \<leftarrow> hash8 keys i;
        r \<leftarrow> krass_contains_batch8 table p h hp;
        contains_keys_loop8 table p keys n hp (i + 8) (hits + popcount r) }
      else Some (i, hits))"
  by pat_completeness auto
termination
  by (relation "measure (\<lambda>(table, p, keys, n, hp, i, hits). n - i)") auto

function contains_keys_loop ::
  "u8 list \<Rightarrow> addr \<Rightarrow> u8 list \<Rightarrow> nat \<Rightarrow> nat \<Rightarrow> krass_heap \<Rightarrow> nat \<Rightarrow> nat \<Rightarrow> nat option" where
  "contains_keys_loop table p keys klen n hp i hits =
     (if i < n then do {
        r \<leftarrow> krass_contains table p (drop (i * klen) keys) klen hp;
        contains_keys_loop table p keys klen n hp (i + 1) (if r \<noteq> 0 then hits + 1 else hits) }
      else Some hits)"
  by pat_completeness auto
termination
  by (relation "measure (\<lambda>(table, p, keys, klen, n, hp, i, hits). n - i)") auto

definition krass_contains_bulk :: "u8 list \<Rightarrow> addr \<Rightarrow> u8 list \<Rightarrow> nat \<Rightarrow> nat \<Rightarrow> krass_heap \<Rightarrow> nat option" where
  "krass_contains_bulk table p keys klen n hp = do {
     (i, hits) \<leftarrow> (if klen = 16 \<and> 8 \<le> n then contains_keys_loop8 table p keys n hp 0 0 else Some (0, 0));
     contains_keys_loop table p keys klen n hp i hits }"

declare insert_batch8_loop.simps [simp del] insert_prehash_loop.simps [simp del]
  contains_batch8_loop.simps [simp del] contains_prehash_loop.simps [simp del]
  insert_keys_loop8.simps [simp del] insert_keys_loop.simps [simp del]
  contains_keys_loop8.simps [simp del] contains_keys_loop.simps [simp del]

section \<open>A batch is eight single operations\<close>

definition set_mask :: "addr \<Rightarrow> u64 \<times> u64 \<Rightarrow> krass_heap \<Rightarrow> krass_heap option" where
  "set_mask p hm hp = do {
     b \<leftarrow> read_struct p hp;
     or_block b (block_idx_scalar b (fst hm)) (snd hm) hp }"

definition masked :: "u8 list \<Rightarrow> u64 \<Rightarrow> (u64 \<times> u64) option" where
  "masked table h = map_option (Pair h) (construct_mask_scalar table h)"

lemma insert_prehash_masked:
  "krass_insert_prehash table p h hp = Option.bind (masked table h) (\<lambda>hm. set_mask p hm hp)"
  by (cases "construct_mask_scalar table h") (simp_all add: krass_insert_prehash_def masked_def set_mask_def)

lemma or_block_struct: "or_block b i m hp = Some hp' \<Longrightarrow> read_struct p hp' = read_struct p hp"
  by (auto simp: or_block_def read_word_def write_word_def read_words_eq read_struct_def bind_eq_Some_conv
      split: if_splits)

lemma set_masks:
  "read_struct p hp = Some b \<Longrightarrow>
     foldM (set_mask p) hms hp = foldM (\<lambda>hm. or_block b (block_idx_scalar b (fst hm)) (snd hm)) hms hp"
proof (induction hms arbitrary: hp)
  case (Cons hm hms)
  show ?case
  proof (cases "or_block b (block_idx_scalar b (fst hm)) (snd hm) hp")
    case None
    with Cons.prems show ?thesis by (simp add: set_mask_def [of p hm])
  next
    case (Some hp')
    with Cons.prems have "read_struct p hp' = Some b" by (simp add: or_block_struct)
    with Cons Some show ?thesis by (simp add: set_mask_def [of p hm])
  qed
qed simp

lemma block_idx_avx2_eq: "block_idx_avx2 b [h0, h1, h2, h3] = map (block_idx_scalar b) [h0, h1, h2, h3]"
  by (simp add: block_idx_avx2_def block_idx_scalar_def mm256_and_epi64_def mm256_srli_epi64_def
      mm256_set1_epi64x_def numeral_eq_Suc)

lemma those4: "those [p, q, r, s] = do { x \<leftarrow> p; y \<leftarrow> q; z \<leftarrow> r; w \<leftarrow> s; Some [x, y, z, w] }"
  by (auto split: option.split)

lemma loadu_8:
  "mm256_loadu_epi64 [h0, h1, h2, h3, h4, h5, h6, h7] 0 = Some [h0, h1, h2, h3]"
  "mm256_loadu_epi64 [h0, h1, h2, h3, h4, h5, h6, h7] 4 = Some [h4, h5, h6, h7]"
  by (simp_all add: mm256_loadu_epi64_def rd_at_def)

lemma insert_batch8_eq:
  "krass_insert_batch8 table p [h0, h1, h2, h3, h4, h5, h6, h7] hp
     = foldM (krass_insert_prehash table p) [h0, h1, h2, h3, h4, h5, h6, h7] hp"
proof -
  let ?m = "construct_mask_scalar table"
  have reads: "foldM (krass_insert_prehash table p) hs hp
      = Option.bind (those (map (masked table) hs)) (\<lambda>hms. foldM (set_mask p) hms hp)" for hs
    by (rule foldM_reads) (rule insert_prehash_masked)
  show ?thesis
  proof (cases "?m h0 = None \<or> ?m h1 = None \<or> ?m h2 = None \<or> ?m h3 = None \<or>
      ?m h4 = None \<or> ?m h5 = None \<or> ?m h6 = None \<or> ?m h7 = None")
    case True
    then show ?thesis
      unfolding reads
      by (elim disjE) (simp_all add: krass_insert_batch8_def loadu_8 construct_mask_avx2_eq those4 masked_def split: bind_splits option.splits)
  next
    case False
    then show ?thesis
      unfolding reads
      by (cases "read_struct p hp")
        (auto simp: krass_insert_batch8_def loadu_8 construct_mask_avx2_eq masked_def block_idx_avx2_eq
          mm256_extract_epi64_def set_masks foldM_Cons_eq set_mask_def Let_def simp del: foldM.simps)
  qed
qed

definition looked_up :: "u8 list \<Rightarrow> addr \<Rightarrow> krass_heap \<Rightarrow> u64 \<Rightarrow> bool option" where
  "looked_up table p hp h = map_option (\<lambda>r. r \<noteq> 0) (krass_contains_prehash table p h hp)"

definition count_hash :: "u8 list \<Rightarrow> addr \<Rightarrow> krass_heap \<Rightarrow> u64 \<Rightarrow> nat \<Rightarrow> nat option" where
  "count_hash table p hp h hits = do {
     r \<leftarrow> krass_contains_prehash table p h hp;
     Some (if r \<noteq> 0 then hits + 1 else hits) }"

lemma count_hash_looked_up:
  "count_hash table p hp h hits = Option.bind (looked_up table p hp h) (\<lambda>t. Some (if t then hits + 1 else hits))"
  by (cases "krass_contains_prehash table p h hp") (simp_all add: count_hash_def looked_up_def)

lemma count_flags:
  "foldM (\<lambda>t hits. Some (if t then hits + 1 else hits)) ts hits = Some (hits + length (filter id ts))"
  by (induction ts arbitrary: hits) auto

lemma count_hashes:
  "foldM (count_hash table p hp) hs hits
     = Option.bind (those (map (looked_up table p hp) hs)) (\<lambda>ts. Some (hits + length (filter id ts)))"
proof -
  have "foldM (count_hash table p hp) hs hits = Option.bind (those (map (looked_up table p hp) hs))
      (\<lambda>ts. foldM (\<lambda>t hits. Some (if t then hits + 1 else hits)) ts hits)"
    by (rule foldM_reads) (rule count_hash_looked_up)
  then show ?thesis by (simp add: count_flags)
qed

text \<open>The comparison lanes, the byte mask and the eight flags.\<close>

definition flag_lane :: "bool \<Rightarrow> u64" where
  "flag_lane t = (if t then - 1 else 0)"

lemma movemask_bit:
  assumes "i < 4"
  shows "drop_bit (8 * i) (mm256_movemask_epi8 (map flag_lane [t0, t1, t2, t3])) AND 1
     = of_bool ([t0, t1, t2, t3] ! i)"
proof -
  have "8 * i < 32" using assms by simp
  then have "bit (mm256_movemask_epi8 (map flag_lane [t0, t1, t2, t3])) (8 * i)
      \<longleftrightarrow> bit (map flag_lane [t0, t1, t2, t3] ! i) 7"
    by (simp add: mm256_movemask_epi8_def bit_horner_sum_bit_iff)
  moreover have "map flag_lane [t0, t1, t2, t3] ! i = flag_lane ([t0, t1, t2, t3] ! i)"
    using assms by (intro nth_map) simp
  moreover have "bit (flag_lane t) 7 \<longleftrightarrow> t" for t by (simp add: flag_lane_def)
  ultimately have "bit (mm256_movemask_epi8 (map flag_lane [t0, t1, t2, t3])) (8 * i) \<longleftrightarrow> [t0, t1, t2, t3] ! i"
    by (simp only:)
  moreover have "drop_bit n w AND 1 = of_bool (bit w n)" for n and w :: u32
    by (simp add: and_one_eq bit_iff_odd_drop_bit mod_2_eq_odd)
  ultimately show ?thesis by (simp only:)
qed

definition flags :: "u32 \<Rightarrow> u32 \<Rightarrow> u8" where
  "flags a b = or_flag b 3 7 (or_flag b 2 6 (or_flag b 1 5 (or_flag b 0 4
     (or_flag a 3 3 (or_flag a 2 2 (or_flag a 1 1 (or_flag a 0 0 0)))))))"

lemma popcount_flags:
  "popcount (flags (mm256_movemask_epi8 (map flag_lane [t0, t1, t2, t3]))
     (mm256_movemask_epi8 (map flag_lane [t4, t5, t6, t7])))
   = length (filter id [t0, t1, t2, t3, t4, t5, t6, t7])"
proof -
  have lane: "or_flag (mm256_movemask_epi8 (map flag_lane [t0, t1, t2, t3])) i j r
      = r OR ucast (push_bit j (of_bool ([t0, t1, t2, t3] ! i)) :: u32)" if "i < 4" for t0 t1 t2 t3 i j r
    by (simp only: or_flag_def movemask_bit [OF that])
  have flag: "bit (ucast (push_bit j (of_bool t) :: u32) :: u8) n \<longleftrightarrow> n = j \<and> t" if "j < 8" "n < 8" for j n t
    using that by (auto simp: bit_simps)
  have list8: "[0..<8] = [0, 1, 2, 3, 4, 5, 6, 7 :: nat]" by (simp add: upt_conv_Cons)
  let ?r = "flags (mm256_movemask_epi8 (map flag_lane [t0, t1, t2, t3]))
     (mm256_movemask_epi8 (map flag_lane [t4, t5, t6, t7]))"
  have "map (bit ?r) [0, 1, 2, 3, 4, 5, 6, 7] = [t0, t1, t2, t3, t4, t5, t6, t7]"
    unfolding flags_def by (simp only: lane) (simp only: list.map flag bit_or_iff bit_0_eq, simp add: flag)
  moreover have "popcount ?r = length (filter id (map (bit ?r) [0..<8]))"
    by (simp add: popcount_def filter_map comp_def)
  ultimately show ?thesis unfolding list8 by (simp only:)
qed

lemma cmpeq_lanes:
  "mm256_cmpeq_epi64 (mm256_and_epi64 [m0, m1, m2, m3] [w0, w1, w2, w3]) [m0, m1, m2, m3]
     = map flag_lane [m0 AND w0 = m0, m1 AND w1 = m1, m2 AND w2 = m2, m3 AND w3 = m3]"
  by (simp add: mm256_cmpeq_epi64_def mm256_and_epi64_def flag_lane_def)

lemma those_lookups:
  assumes "read_struct p hp = Some b"
  shows "those (map (looked_up table p hp) hs) = do {
     ms \<leftarrow> those (map (construct_mask_scalar table) hs);
     ws \<leftarrow> those (map (\<lambda>h. read_word (bv b, unat (block_idx_scalar b h)) hp) hs);
     Some (map2 (\<lambda>m w. m AND w = m) ms ws) }"
proof (induction hs)
  case (Cons h hs)
  then show ?case
    using assms by (cases "construct_mask_scalar table h"; cases "read_word (bv b, unat (block_idx_scalar b h)) hp";
        cases "those (map (construct_mask_scalar table) hs)";
        cases "those (map (\<lambda>h. read_word (bv b, unat (block_idx_scalar b h)) hp) hs)")
      (simp_all add: looked_up_def krass_contains_prehash_def and.commute)
qed simp

lemma those_map4: "those (map f [a, b, c, d]) = Some xs \<Longrightarrow> \<exists>x0 x1 x2 x3. xs = [x0, x1, x2, x3]"
  by (simp only: list.map those4) (auto simp: bind_eq_Some_conv)

lemma contains_batch8_eq:
  "map_option popcount (krass_contains_batch8 table p [h0, h1, h2, h3, h4, h5, h6, h7] hp)
     = map_option (\<lambda>ts. length (filter id ts))
         (those (map (looked_up table p hp) [h0, h1, h2, h3, h4, h5, h6, h7]))"
proof (cases "read_struct p hp")
  case None
  then have "looked_up table p hp h = None" for h by (simp add: looked_up_def krass_contains_prehash_def)
  with None show ?thesis
    by (simp add: krass_contains_batch8_def del: those.simps) (simp add: those.simps)
next
  case (Some b)
  let ?mask = "construct_mask_scalar table"
  let ?word = "\<lambda>h. read_word (bv b, unat (block_idx_scalar b h)) hp"
  have split: "[h0, h1, h2, h3, h4, h5, h6, h7] = [h0, h1, h2, h3] @ [h4, h5, h6, h7]" by simp
  have gather: "gather_blocks (bv b) (block_idx_avx2 b [x0, x1, x2, x3]) hp = those (map ?word [x0, x1, x2, x3])"
    for x0 x1 x2 x3 by (simp add: gather_blocks_def block_idx_avx2_eq)
  show ?thesis
  proof (cases "those (map ?mask [h0, h1, h2, h3]) = None \<or> those (map ?mask [h4, h5, h6, h7]) = None \<or>
      those (map ?word [h0, h1, h2, h3]) = None \<or> those (map ?word [h4, h5, h6, h7]) = None")
    case True
    then show ?thesis
      unfolding those_lookups [OF Some] split map_append those_append
      unfolding split [symmetric] krass_contains_batch8_def loadu_8 Some
      by (elim disjE) (simp_all only: bind.simps construct_mask_avx2_eq gather bind_None_const Let_def option.map)
  next
    case False
    then obtain ma mb wa wb where
      some: "those (map ?mask [h0, h1, h2, h3]) = Some ma" "those (map ?mask [h4, h5, h6, h7]) = Some mb"
        "those (map ?word [h0, h1, h2, h3]) = Some wa" "those (map ?word [h4, h5, h6, h7]) = Some wb"
      by (simp only: de_Morgan_disj not_None_eq) blast
    from some [THEN those_map4] obtain m0 m1 m2 m3 m4 m5 m6 m7 w0 w1 w2 w3 w4 w5 w6 w7 where
      vecs: "ma = [m0, m1, m2, m3]" "mb = [m4, m5, m6, m7]" "wa = [w0, w1, w2, w3]" "wb = [w4, w5, w6, w7]"
      by blast
    have "krass_contains_batch8 table p [h0, h1, h2, h3, h4, h5, h6, h7] hp =
        Some (flags (mm256_movemask_epi8 (map flag_lane [m0 AND w0 = m0, m1 AND w1 = m1, m2 AND w2 = m2, m3 AND w3 = m3]))
          (mm256_movemask_epi8 (map flag_lane [m4 AND w4 = m4, m5 AND w5 = m5, m6 AND w6 = m6, m7 AND w7 = m7])))"
      unfolding krass_contains_batch8_def loadu_8 Some
      by (simp only: bind.simps construct_mask_avx2_eq gather some vecs Let_def cmpeq_lanes flags_def)
    moreover have "those (map (looked_up table p hp) [h0, h1, h2, h3, h4, h5, h6, h7]) =
        Some [m0 AND w0 = m0, m1 AND w1 = m1, m2 AND w2 = m2, m3 AND w3 = m3,
              m4 AND w4 = m4, m5 AND w5 = m5, m6 AND w6 = m6, m7 AND w7 = m7]"
      unfolding those_lookups [OF Some] split map_append those_append
      by (simp only: some vecs bind.simps) simp
    ultimately show ?thesis by (simp only: option.map popcount_flags)
  qed
qed

section \<open>Every bulk loop is the loop over the scalar operation\<close>

definition insert_hash_at :: "u8 list \<Rightarrow> addr \<Rightarrow> u64 list \<Rightarrow> nat \<Rightarrow> krass_heap \<Rightarrow> krass_heap option" where
  "insert_hash_at table p hashes i hp = Option.bind (rd_at hashes i) (\<lambda>h. krass_insert_prehash table p h hp)"

definition count_hash_at :: "u8 list \<Rightarrow> addr \<Rightarrow> u64 list \<Rightarrow> krass_heap \<Rightarrow> nat \<Rightarrow> nat \<Rightarrow> nat option" where
  "count_hash_at table p hashes hp i hits = Option.bind (rd_at hashes i) (\<lambda>h. count_hash table p hp h hits)"

definition insert_key_at :: "u8 list \<Rightarrow> addr \<Rightarrow> u8 list \<Rightarrow> nat \<Rightarrow> nat \<Rightarrow> krass_heap \<Rightarrow> krass_heap option" where
  "insert_key_at table p keys klen i = krass_insert table p (drop (i * klen) keys) klen"

definition count_key_at :: "u8 list \<Rightarrow> addr \<Rightarrow> u8 list \<Rightarrow> nat \<Rightarrow> krass_heap \<Rightarrow> nat \<Rightarrow> nat \<Rightarrow> nat option" where
  "count_key_at table p keys klen hp i hits = do {
     r \<leftarrow> krass_contains table p (drop (i * klen) keys) klen hp;
     Some (if r \<noteq> 0 then hits + 1 else hits) }"

lemma upt8: "[i..<i + 8] = map (\<lambda>j. i + j) [0..<8]"
  by (simp add: map_add_upt add.commute)

lemma list_of_8: "length xs = 8 \<Longrightarrow> \<exists>h0 h1 h2 h3 h4 h5 h6 h7. xs = [h0, h1, h2, h3, h4, h5, h6, h7]"
  by (auto simp: numeral_eq_Suc length_Suc_conv)

text \<open>Eight hashes of a list: loaded by a batch, or read one by one.\<close>

lemma insert_batch8_list:
  "length hs = 8 \<Longrightarrow> krass_insert_batch8 table p hs hp = foldM (krass_insert_prehash table p) hs hp"
  using list_of_8 [of hs] insert_batch8_eq by auto

lemma contains_batch8_list:
  assumes "length hs = 8"
  shows "Option.bind (krass_contains_batch8 table p hs hp) (\<lambda>r. Some (hits + popcount r))
     = foldM (count_hash table p hp) hs hits"
proof -
  from list_of_8 [OF assms] have
    "map_option popcount (krass_contains_batch8 table p hs hp)
       = map_option (\<lambda>ts. length (filter id ts)) (those (map (looked_up table p hp) hs))"
    using contains_batch8_eq by blast
  then show ?thesis
    by (cases "krass_contains_batch8 table p hs hp"; cases "those (map (looked_up table p hp) hs)")
      (auto simp: count_hashes)
qed

lemma reads_of_drop:
  fixes hashes :: "u64 list"
  shows "i + 8 \<le> length hashes \<Longrightarrow> those (map (rd_at hashes) [i..<i + 8]) = Some (take 8 (drop i hashes))"
proof -
  assume "i + 8 \<le> length hashes"
  then have "map (rd_at hashes) [i..<i + 8] = map Some (take 8 (drop i hashes))"
    by (intro nth_equalityI) (auto simp: rd_at_def)
  moreover have "those (map Some xs) = Some xs" for xs :: "u64 list" by (induction xs) auto
  ultimately show ?thesis by (simp only:)
qed

lemma reads_short:
  fixes hashes :: "u64 list"
  shows "length hashes < i + 8 \<Longrightarrow> those (map (rd_at hashes) [i..<i + 8]) = None"
proof -
  assume short: "length hashes < i + 8"
  have "those xs = None" if "None \<in> set xs" for xs :: "u64 option list"
    using that by (induction xs) (auto split: option.splits)
  moreover have "None \<in> set (map (rd_at hashes) [i..<i + 8])"
  proof -
    have "rd_at hashes (i + 7) = None" using short by (simp add: rd_at_def)
    moreover have "i + 7 \<in> set [i..<i + 8]" by simp
    ultimately show ?thesis by (metis image_eqI set_map)
  qed
  ultimately show ?thesis by blast
qed

lemma loadu_take: "mm256_loadu_epi64 (take 8 hs) j = mm256_loadu_epi64 hs j" if "j + 4 \<le> 8"
  using that by (simp add: mm256_loadu_epi64_def rd_at_def)

lemma loadu_short:
  "length hs < 8 \<Longrightarrow> mm256_loadu_epi64 hs 0 = None \<or> mm256_loadu_epi64 hs 4 = None"
  by (auto simp: mm256_loadu_epi64_def rd_at_def split: option.split)

lemma batch8_take:
  "krass_insert_batch8 table p (take 8 hs) hp = krass_insert_batch8 table p hs hp"
  "krass_contains_batch8 table p (take 8 hs) hp = krass_contains_batch8 table p hs hp"
  by (simp_all add: krass_insert_batch8_def krass_contains_batch8_def loadu_take)

lemma batch8_short:
  assumes "length hs < 8"
  shows "krass_insert_batch8 table p hs hp = None" and "krass_contains_batch8 table p hs hp = None"
  using loadu_short [OF assms] by (auto simp: krass_insert_batch8_def krass_contains_batch8_def)

lemma insert_round:
  "krass_insert_batch8 table p (drop i hashes) hp = foldM (insert_hash_at table p hashes) [i..<i + 8] hp"
proof -
  have "foldM (insert_hash_at table p hashes) [i..<i + 8] hp
      = Option.bind (those (map (rd_at hashes) [i..<i + 8])) (\<lambda>hs. foldM (krass_insert_prehash table p) hs hp)"
    by (rule foldM_reads) (rule insert_hash_at_def)
  moreover have "krass_insert_batch8 table p (drop i hashes) hp
      = foldM (krass_insert_prehash table p) (take 8 (drop i hashes)) hp" if "i + 8 \<le> length hashes"
    using that by (subst insert_batch8_list [symmetric]) (simp_all add: batch8_take)
  ultimately show ?thesis
    by (cases "i + 8 \<le> length hashes") (simp_all add: reads_of_drop reads_short batch8_short not_le)
qed

lemma count_round:
  "Option.bind (krass_contains_batch8 table p (drop i hashes) hp) (\<lambda>r. Some (hits + popcount r))
     = foldM (count_hash_at table p hashes hp) [i..<i + 8] hits"
proof -
  have "foldM (count_hash_at table p hashes hp) [i..<i + 8] hits
      = Option.bind (those (map (rd_at hashes) [i..<i + 8])) (\<lambda>hs. foldM (count_hash table p hp) hs hits)"
    by (rule foldM_reads) (rule count_hash_at_def)
  moreover have "Option.bind (krass_contains_batch8 table p (drop i hashes) hp) (\<lambda>r. Some (hits + popcount r))
      = foldM (count_hash table p hp) (take 8 (drop i hashes)) hits" if "i + 8 \<le> length hashes"
    using that by (subst contains_batch8_list [symmetric]) (simp_all add: batch8_take)
  ultimately show ?thesis
    by (cases "i + 8 \<le> length hashes") (simp_all add: reads_of_drop reads_short batch8_short not_le)
qed

lemma insert_key_at_16:
  "insert_key_at table p keys 16 i hp
     = Option.bind (krass_hash16 (drop (i * 16) keys)) (\<lambda>h. krass_insert_prehash table p h hp)"
  by (simp add: insert_key_at_def krass_insert_def krass_bloom_hash_def)

lemma count_key_at_16:
  "count_key_at table p keys 16 hp i hits
     = Option.bind (krass_hash16 (drop (i * 16) keys)) (\<lambda>h. count_hash table p hp h hits)"
  by (simp add: count_key_at_def count_hash_def krass_contains_def krass_bloom_hash_def)

lemma hash8_eq: "hash8 keys i = those (map (\<lambda>i. krass_hash16 (drop (i * 16) keys)) [i..<i + 8])"
  unfolding upt8 by (simp add: hash8_def comp_def)

lemma insert_keys_round:
  "Option.bind (hash8 keys i) (\<lambda>h. krass_insert_batch8 table p h hp)
     = foldM (insert_key_at table p keys 16) [i..<i + 8] hp"
proof -
  have "foldM (insert_key_at table p keys 16) [i..<i + 8] hp
      = Option.bind (hash8 keys i) (\<lambda>hs. foldM (krass_insert_prehash table p) hs hp)"
    unfolding hash8_eq by (rule foldM_reads) (rule insert_key_at_16)
  moreover have "krass_insert_batch8 table p hs hp = foldM (krass_insert_prehash table p) hs hp"
    if "hash8 keys i = Some hs" for hs
    using that by (intro insert_batch8_list) (auto simp: hash8_def dest: length_those)
  ultimately show ?thesis by (cases "hash8 keys i") auto
qed

lemma count_keys_round:
  "Option.bind (hash8 keys i) (\<lambda>h. Option.bind (krass_contains_batch8 table p h hp) (\<lambda>r. Some (hits + popcount r)))
     = foldM (count_key_at table p keys 16 hp) [i..<i + 8] hits"
proof -
  have "foldM (count_key_at table p keys 16 hp) [i..<i + 8] hits
      = Option.bind (hash8 keys i) (\<lambda>hs. foldM (count_hash table p hp) hs hits)"
    unfolding hash8_eq by (rule foldM_reads) (rule count_key_at_16)
  moreover have "Option.bind (krass_contains_batch8 table p hs hp) (\<lambda>r. Some (hits + popcount r))
      = foldM (count_hash table p hp) hs hits" if "hash8 keys i = Some hs" for hs
    using that by (intro contains_batch8_list) (auto simp: hash8_def dest: length_those)
  ultimately show ?thesis by (cases "hash8 keys i") auto
qed

lemma bind_count: "Option.bind x (\<lambda>r. f (hits + popcount r))
    = Option.bind (Option.bind x (\<lambda>r. Some (hits + popcount r))) f"
  by (cases x) auto

interpretation krass_insert_loop: unrolled_loop n "insert_hash_at table p hashes"
  "insert_prehash_loop table p hashes n" 8 "insert_batch8_loop table p hashes n" for n table p hashes
  by unfold_locales
    (simp_all add: insert_prehash_loop.simps [of table p hashes n] insert_hash_at_def
      insert_batch8_loop.simps [of table p hashes n] insert_round [symmetric] del: foldM.simps)

interpretation krass_contains_loop: unrolled_loop n "count_hash_at table p hashes hp"
  "contains_prehash_loop table p hashes n hp" 8 "contains_batch8_loop table p hashes n hp" for n table p hashes hp
  by unfold_locales
    (simp_all add: contains_prehash_loop.simps [of table p hashes n hp] count_hash_at_def count_hash_def
      contains_batch8_loop.simps [of table p hashes n hp] count_round [symmetric]
      bind_count [of _ "contains_batch8_loop table p hashes n hp _"] del: foldM.simps)

interpretation krass_keys_loop: counted_loop n "insert_key_at table p keys klen"
  "insert_keys_loop table p keys klen n" for n table p keys klen
  by unfold_locales (simp add: insert_keys_loop.simps [of table p keys klen n] insert_key_at_def)

interpretation krass_keys_loop8: unrolled_loop n "insert_key_at table p keys 16"
  "insert_keys_loop table p keys 16 n" 8 "insert_keys_loop8 table p keys n" for n table p keys
  by unfold_locales
    (simp_all add: insert_keys_loop8.simps [of table p keys n] insert_keys_round [symmetric] del: foldM.simps)

interpretation krass_count_loop: counted_loop n "count_key_at table p keys klen hp"
  "contains_keys_loop table p keys klen n hp" for n table p keys klen hp
  by unfold_locales (simp add: contains_keys_loop.simps [of table p keys klen n hp] count_key_at_def)

interpretation krass_count_loop8: unrolled_loop n "count_key_at table p keys 16 hp"
  "contains_keys_loop table p keys 16 n hp" 8 "contains_keys_loop8 table p keys n hp" for n table p keys hp
  by unfold_locales
    (simp_all add: contains_keys_loop8.simps [of table p keys n hp] count_keys_round [symmetric]
      bind_count [of _ "contains_keys_loop8 table p keys n hp _"] del: foldM.simps)

lemma krass_insert_bulk_eq:
  "krass_insert_bulk table p keys klen n hp = foldM (insert_key_at table p keys klen) [0..<n] hp"
  using krass_keys_loop8.unrolled_then_rest [of table p keys n 0 hp]
  by (simp add: krass_insert_bulk_def krass_keys_loop.rest_eq)

lemma krass_contains_bulk_eq:
  "krass_contains_bulk table p keys klen n hp = foldM (count_key_at table p keys klen hp) [0..<n] 0"
  using krass_count_loop8.unrolled_then_rest [of table p keys n hp 0 0]
  by (simp add: krass_contains_bulk_def krass_count_loop.rest_eq)

section \<open>The filter in the heap\<close>

definition krass_at :: "krass_heap \<Rightarrow> addr \<Rightarrow> nat \<Rightarrow> krass_t \<Rightarrow> u64 list \<Rightarrow> bool" where
  "krass_at hp p n b ws \<longleftrightarrow>
     hp p = Some (Struct b) \<and> hp (bv b) = Some (Words ws) \<and> p \<noteq> NULL \<and> bv b \<noteq> NULL \<and>
     n \<le> 57 \<and> num_blocks b = 2 ^ n \<and> num_blocks_mask b = 2 ^ n - 1 \<and> length ws = 2 ^ n"

definition krass_block :: "nat \<Rightarrow> u64 \<Rightarrow> nat" where
  "krass_block n h = unat h div 2 ^ 16 mod 2 ^ n"

text \<open>The mask of a hash under a table that is long enough.\<close>

definition table_mask :: "u8 list \<Rightarrow> u64 \<Rightarrow> u64" where
  "table_mask table h = mask_of h (le_word (take 8 (drop (hash_index h div 8) table)))"

definition krass_footprint :: "u8 list \<Rightarrow> nat \<Rightarrow> u64 \<Rightarrow> (nat \<times> nat) set" where
  "krass_footprint table n h = bits_at (krass_block n h) [table_mask table h]"

lemma krass_block_less: "krass_block n h < 2 ^ n"
  by (simp add: krass_block_def)

lemma block_idx_eq: "krass_at hp p n b ws \<Longrightarrow> unat (block_idx_scalar b h) = krass_block n h"
proof -
  assume "krass_at hp p n b ws"
  then have "block_idx_scalar b h = drop_bit 16 h AND mask n"
    by (simp add: block_idx_scalar_def LOG_NUM_MASKS_def ROTATE_BITS_def krass_at_def mask_eq_exp_minus_1)
  then show ?thesis
    by (simp only: unat_and_mask unat_drop_bit_eq drop_bit_eq_div [where 'a = nat] krass_block_def)
qed

lemma krass_insert_eq:
  assumes "krass_at hp p n b ws" and "table_ok table"
  shows "krass_insert_prehash table p h hp
     = Some (hp(bv b \<mapsto> Words (or_at (krass_block n h) [table_mask table h] ws)))"
proof -
  have len: "krass_block n h < length ws" and hp: "hp p = Some (Struct b)" "hp (bv b) = Some (Words ws)"
    using assms(1) krass_block_less by (auto simp: krass_at_def)
  from len have "or_at (krass_block n h) [table_mask table h] ws
      = ws[krass_block n h := ws ! krass_block n h OR table_mask table h]"
    by (intro nth_equalityI) (auto simp: nth_or_at nth_list_update)
  with len hp show ?thesis
    by (simp add: krass_insert_prehash_def or_block_def construct_mask_scalar_ok [OF assms(2)] table_mask_def
        block_idx_eq [OF assms(1)] read_word_Some write_word_Some)
qed

lemma krass_contains_eq:
  assumes "krass_at hp p n b ws" and "table_ok table"
  shows "krass_contains_prehash table p h hp
     = Some (if krass_footprint table n h \<subseteq> bitset ws then 1 else 0)"
proof -
  have len: "krass_block n h < length ws" and hp: "hp p = Some (Struct b)" "hp (bv b) = Some (Words ws)"
    using assms(1) krass_block_less by (auto simp: krass_at_def)
  then have "krass_footprint table n h \<subseteq> bitset ws
      \<longleftrightarrow> ws ! krass_block n h AND table_mask table h = table_mask table h"
    using covered_at_iff [of "krass_block n h" "[table_mask table h]" ws]
    by (simp add: krass_footprint_def covered_at_def)
  with len hp show ?thesis
    by (simp add: krass_contains_prehash_def construct_mask_scalar_ok [OF assms(2)] table_mask_def
        block_idx_eq [OF assms(1)] read_word_Some)
qed

lemma krass_at_update:
  "krass_at hp p n b ws \<Longrightarrow> length ws' = length ws \<Longrightarrow> krass_at (hp(bv b \<mapsto> Words ws')) p n b ws'"
  by (auto simp: krass_at_def)

section \<open>The contract\<close>

definition krass_ok :: "u8 list \<Rightarrow> addr \<Rightarrow> nat \<Rightarrow> krass_t \<Rightarrow> krass_heap \<Rightarrow> bool" where
  "krass_ok table p n b hp \<longleftrightarrow> table_ok table \<and> (\<exists>ws. krass_at hp p n b ws)"

definition krass_bits :: "krass_t \<Rightarrow> krass_heap \<Rightarrow> (nat \<times> nat) set" where
  "krass_bits b hp = (case read_words (bv b) hp of Some ws \<Rightarrow> bitset ws | None \<Rightarrow> {})"

definition krass_query :: "u8 list \<Rightarrow> addr \<Rightarrow> u64 \<Rightarrow> krass_heap \<Rightarrow> bool option" where
  "krass_query table p h hp = map_option (\<lambda>r. r \<noteq> 0) (krass_contains_prehash table p h hp)"

lemma krass_bits_eq: "krass_at hp p n b ws \<Longrightarrow> krass_bits b hp = bitset ws"
  by (simp add: krass_bits_def krass_at_def)

lemma krass_insert_contract:
  assumes "krass_ok table p n b hp"
  shows "\<exists>hp'. krass_insert_prehash table p h hp = Some hp' \<and> krass_ok table p n b hp' \<and>
     krass_bits b hp' = krass_bits b hp \<union> krass_footprint table n h"
proof -
  from assms obtain ws where k: "krass_at hp p n b ws" and t: "table_ok table" by (auto simp: krass_ok_def)
  let ?ws = "or_at (krass_block n h) [table_mask table h] ws"
  have len: "krass_block n h + length [table_mask table h] \<le> length ws"
    using k krass_block_less [of n h] by (simp add: krass_at_def Suc_le_eq)
  then have k': "krass_at (hp(bv b \<mapsto> Words ?ws)) p n b ?ws" by (intro krass_at_update [OF k] length_or_at)
  with k t show ?thesis
    by (auto simp: krass_insert_eq [OF k t] krass_ok_def krass_bits_eq [OF k] krass_bits_eq [OF k']
        krass_footprint_def bitset_or_at [OF len] simp del: fun_upd_apply)
qed

lemma krass_query_contract:
  "krass_ok table p n b hp \<Longrightarrow> krass_query table p h hp = Some (krass_footprint table n h \<subseteq> krass_bits b hp)"
  by (auto simp: krass_ok_def krass_query_def krass_contains_eq krass_bits_eq)

interpretation krass: bloom_filter "krass_ok table p n b" "krass_insert_prehash table p" "krass_query table p"
  "krass_bits b" "krass_footprint table n" for table p n b
  by unfold_locales (simp_all add: krass_insert_contract krass_query_contract)

section \<open>Creation\<close>

definition krass_struct :: "addr \<Rightarrow> nat \<Rightarrow> krass_t" where
  "krass_struct mem n = \<lparr>bv = mem, num_blocks = 2 ^ n, num_blocks_mask = 2 ^ n - 1\<rparr>"

lemma pow2_from_64:
  assumes "unat nbits \<le> 2 ^ 63"
  obtains n where "n \<le> 57" "pow2_from 64 nbits = Some (2 ^ (n + 6))" "unat nbits \<le> 2 ^ (n + 6)"
    "0 < n \<longrightarrow> 2 ^ (n + 5) < unat nbits"
proof -
  from ceil_log2 [OF assms] obtain k where k: "k \<le> 63" "\<And>i. i < k \<Longrightarrow> 2 ^ i < unat nbits" "unat nbits \<le> 2 ^ k"
    by blast
  show thesis
  proof (cases "k \<le> 6")
    case True
    then have "unat nbits \<le> 2 ^ 6" using k(3) power_increasing [OF True, of "2 :: nat"] by linarith
    then have "\<not> (64 :: size_t) < nbits" by (simp add: word_less_nat_alt)
    then have "pow2_from 64 nbits = Some 64" by (simp add: pow2_from.simps [of 64])
    with \<open>unat nbits \<le> 2 ^ 6\<close> that [of 0] show thesis by simp
  next
    case False
    have "pow2_from (2 ^ 6) nbits = Some (2 ^ k)" using k False by (intro pow2_from_eq) auto
    with k False that [of "k - 6"] show thesis by (simp add: k(2) [of "k - 1"])
  qed
qed

lemma krass_new_eq:
  assumes "\<not> mask_table_inited g \<or> table_ok (MASK_TABLE g)" and "unat nbits \<le> 2 ^ 63"
    and "fresh hp ab" and "fresh hp am" and "ab \<noteq> am" and "ab \<noteq> NULL" and "am \<noteq> NULL"
  shows "\<exists>g' n. mask_table_init g = Some g' \<and> table_ok (MASK_TABLE g') \<and> n \<le> 57 \<and> unat nbits \<le> 2 ^ (n + 6) \<and>
     (0 < n \<longrightarrow> 2 ^ (n + 5) < unat nbits) \<and>
     krass_new g ab am ac nbits hp
       = Some (ab, g', hp(am \<mapsto> Words (replicate (2 ^ n) 0), ab \<mapsto> Struct (krass_struct am n)))"
proof -
  obtain g' where g': "mask_table_init g = Some g'" "table_ok (MASK_TABLE g')"
    using assms(1) mask_table_init_eq [of g] by (cases "mask_table_inited g") (auto simp: mask_table_init_def)
  from pow2_from_64 [OF assms(2)] obtain n where n: "n \<le> 57" "unat nbits \<le> 2 ^ (n + 6)"
    "0 < n \<longrightarrow> 2 ^ (n + 5) < unat nbits" and pow2: "pow2_from 64 nbits = Some (2 ^ (n + 6))" by metis
  have "unat ((2 :: size_t) ^ (n + 6)) = 2 ^ (n + 6)" using n(1) by (intro unat_2_power) simp
  then have "unat ((2 :: size_t) ^ (n + 6) div 64) = 2 ^ n"
    by (simp only: unat_div_distrib) (simp add: power_add)
  then have div: "(2 :: size_t) ^ (n + 6) div 64 = 2 ^ n" using n(1) by (simp add: word_unat_eq_iff unat_2_power)
  have "(2 :: size_t) ^ n * 8 = 2 ^ (n + 3)" by (simp add: power_add)
  then have bytes: "unat ((2 :: size_t) ^ n * 8) = 8 * 2 ^ n" using n(1) unat_2_power [of "n + 3", where 'a = 64]
    by (simp add: power_add)
  have nz: "(2 :: size_t) ^ n \<noteq> 0" using n(1) by (simp add: unat_2_power flip: unat_eq_zero)
  have "krass_new g ab am ac nbits hp
      = Some (ab, g', hp(am \<mapsto> Words (replicate (2 ^ n) 0), ab \<mapsto> Struct (krass_struct am n)))"
    using assms(3-7) nz bytes
    unfolding krass_new_def g'(1) pow2 Let_def
    by (simp only: bind.simps div if_False) 
      (auto simp: malloc_def posix_memalign_def memset_zero_def init_block_def pow2 div
        write_struct_def fresh_def krass_struct_def fun_eq_iff)
  with g' n show ?thesis by blast
qed

section \<open>Properties\<close>

text \<open>The states of the global mask table: as the program starts, and after any calls of \<open>bloom_new\<close>,
  which begin with \<open>mask_table_init\<close>. Nothing else writes to it.\<close>

inductive mask_reached :: "mask_state \<Rightarrow> bool" where
  start: "\<not> mask_table_inited g \<Longrightarrow> mask_reached g"
| init: "mask_reached g \<Longrightarrow> mask_table_init g = Some g' \<Longrightarrow> mask_reached g'"

lemma reached_ok: "mask_reached g \<Longrightarrow> \<not> mask_table_inited g \<or> table_ok (MASK_TABLE g)"
proof (induction rule: mask_reached.induct)
  case (init g g')
  then show ?case using mask_table_init_eq [of g] by (cases "mask_table_inited g") (auto simp: mask_table_init_def)
qed simp

text \<open>C33: the gather-based filter has no false negatives. From every state of the global mask table that
  the program produces, before the first \<open>bloom_new\<close> and after any number of them, and in every
  heap, \<open>bloom_new\<close> gives a filter on which insertions never fault and every inserted hash is
  found, and leaves the table in such a state again. The request is at most 2 to the 63 bits, above
  which the doubling loop of \<open>bloom_new\<close> never ends, and \<open>malloc\<close> and \<open>posix_memalign\<close> succeed.\<close>

theorem krass_no_false_negatives:
  assumes "mask_reached g" and "unat nbits \<le> 2 ^ 63"
    and "fresh hp ab" and "fresh hp am" and "ab \<noteq> am" and "ab \<noteq> NULL" and "am \<noteq> NULL"
  shows "\<exists>g' hp1 hp2. krass_new g ab am ac nbits hp = Some (ab, g', hp1) \<and> mask_reached g' \<and>
     foldM (krass_insert_prehash (MASK_TABLE g') ab) hs hp1 = Some hp2 \<and>
     (\<forall>h \<in> set hs. krass_contains_prehash (MASK_TABLE g') ab h hp2 = Some 1)"
proof -
  from krass_new_eq [OF reached_ok [OF assms(1)] assms(2-7)] obtain g' n where
    g': "mask_table_init g = Some g'" and t: "table_ok (MASK_TABLE g')" and n: "n \<le> 57" and
    new: "krass_new g ab am ac nbits hp
       = Some (ab, g', hp(am \<mapsto> Words (replicate (2 ^ n) 0), ab \<mapsto> Struct (krass_struct am n)))" (is "_ = Some (_, _, ?hp1)")
    by blast
  have "krass_at ?hp1 ab n (krass_struct am n) (replicate (2 ^ n) 0)"
    using n assms(5-7) by (auto simp: krass_at_def krass_struct_def)
  with t have "krass_ok (MASK_TABLE g') ab n (krass_struct am n) ?hp1" by (auto simp: krass_ok_def)
  from krass.ins_all [OF this, of hs] obtain hp2 where
    ins: "foldM (krass_insert_prehash (MASK_TABLE g') ab) hs ?hp1 = Some hp2"
    and ok: "krass_ok (MASK_TABLE g') ab n (krass_struct am n) hp2"
    and bits: "krass_bits (krass_struct am n) hp2
      = krass_bits (krass_struct am n) ?hp1 \<union> \<Union> (krass_footprint (MASK_TABLE g') n ` set hs)" by blast
  from ok obtain ws' where k: "krass_at hp2 ab n (krass_struct am n) ws'" by (auto simp: krass_ok_def)
  have "krass_contains_prehash (MASK_TABLE g') ab h hp2 = Some 1" if "h \<in> set hs" for h
    using bits that by (simp add: krass_contains_eq [OF k t] krass_bits_eq [OF k]) blast
  with new ins mask_reached.init [OF assms(1) g'] show ?thesis by blast
qed

theorem krass_no_false_negatives_witness:
  "\<exists>g1 g2 hp1 hp2. mask_table_init \<lparr>MASK_TABLE = replicate 136 0, mask_table_inited = False, prng_state = 0\<rparr> = Some g1 \<and>
     mask_table_inited g1 \<and> krass_new g1 64 128 0 1000 Map.empty = Some (64, g2, hp1) \<and>
     foldM (krass_insert_prehash (MASK_TABLE g2) 64) [3, 4] hp1 = Some hp2 \<and>
     (\<forall>h \<in> set [3, 4]. krass_contains_prehash (MASK_TABLE g2) 64 h hp2 = Some 1)"
proof -
  let ?g = "\<lparr>MASK_TABLE = replicate 136 0, mask_table_inited = False, prng_state = 0\<rparr>"
  from mask_table_init_eq [of ?g] obtain g1 where g1: "mask_table_init ?g = Some g1" "mask_table_inited g1" by auto
  have "mask_reached ?g" by (rule mask_reached.start) simp
  then have "mask_reached g1" using g1(1) by (rule mask_reached.init)
  from krass_no_false_negatives [OF this, of 1000 Map.empty 64 128 0 "[3, 4]"] g1 show ?thesis by (simp add: fresh_def) blast
qed

text \<open>C32: the AVX2 batches compute what the scalar code does: \<open>bloom_insert_batch8\<close> is eight single
  insertions in order, also when several fall into one block, and the population count of
  \<open>bloom_contains_batch8\<close> is the number of the eight hashes that the scalar query accepts; faults
  included.\<close>

theorem krass_batch8_is_scalar:
  "krass_insert_batch8 table p [h0, h1, h2, h3, h4, h5, h6, h7] hp
     = foldM (krass_insert_prehash table p) [h0, h1, h2, h3, h4, h5, h6, h7] hp \<and>
   map_option popcount (krass_contains_batch8 table p [h0, h1, h2, h3, h4, h5, h6, h7] hp)
     = foldM (\<lambda>h hits. do {
         r \<leftarrow> krass_contains_prehash table p h hp;
         Some (if r \<noteq> 0 then hits + 1 else hits) }) [h0, h1, h2, h3, h4, h5, h6, h7] 0"
proof -
  have "foldM (count_hash table p hp) [h0, h1, h2, h3, h4, h5, h6, h7] 0
      = map_option popcount (krass_contains_batch8 table p [h0, h1, h2, h3, h4, h5, h6, h7] hp)"
    unfolding count_hashes contains_batch8_eq
    by (cases "those (map (looked_up table p hp) [h0, h1, h2, h3, h4, h5, h6, h7])") auto
  then show ?thesis by (simp only: insert_batch8_eq count_hash_def [abs_def])
qed

text \<open>Every bulk operation of the gather-based filter, keyed or pre-hashed, batched by eight with a
  scalar remainder, is the loop over the single operation.\<close>

theorem krass_bulk_sequential:
  "krass_insert_prehash_bulk table p hashes n hp =
     foldM (\<lambda>i hp. do { h \<leftarrow> rd_at hashes i; krass_insert_prehash table p h hp }) [0..<n] hp \<and>
   krass_contains_prehash_bulk table p hashes n hp =
     foldM (\<lambda>i hits. do {
       h \<leftarrow> rd_at hashes i;
       r \<leftarrow> krass_contains_prehash table p h hp;
       Some (if r \<noteq> 0 then hits + 1 else hits) }) [0..<n] 0 \<and>
   krass_insert_bulk table p keys klen n hp =
     foldM (\<lambda>i. krass_insert table p (drop (i * klen) keys) klen) [0..<n] hp \<and>
   krass_contains_bulk table p keys klen n hp =
     foldM (\<lambda>i hits. do {
       r \<leftarrow> krass_contains table p (drop (i * klen) keys) klen hp;
       Some (if r \<noteq> 0 then hits + 1 else hits) }) [0..<n] 0"
  by (simp add: krass_insert_bulk_eq krass_contains_bulk_eq krass_insert_prehash_bulk_def
      krass_contains_prehash_bulk_def krass_insert_batch8_bulk_def krass_contains_batch8_bulk_def
      krass_insert_loop.unrolled_then_rest krass_contains_loop.unrolled_then_rest
      insert_hash_at_def [abs_def] count_hash_at_def [abs_def] count_hash_def insert_key_at_def [abs_def]
      count_key_at_def [abs_def])

end
