(* ===== verification/Fuse_Hash.thy ===== *)
theory Fuse_Hash
  imports Qb_Hash
begin

text \<open>
  The arithmetic under the binary fuse filter of \<open>comparisons/binaryfusefilter.h\<close>: its hash
  mixing and pseudo-random numbers, the two versions of \<open>binary_fuse_mulhi\<close>, and the three
  table positions of a hash, computed one by one while the filter is built and all at once when
  it is queried. The lemmas show that no two keys share a hash, that the two computations of the
  positions agree, and that the positions of a well-formed filter are different slots of its table.
\<close>

section \<open>Definitions\<close>

definition murmur64 :: "u64 \<Rightarrow> u64" where
  "murmur64 h =
     (let h = h XOR drop_bit 33 h; h = h * 0xff51afd7ed558ccd; h = h XOR drop_bit 33 h;
          h = h * 0xc4ceb9fe1a85ec53 in h XOR drop_bit 33 h)"

definition mix_split :: "u64 \<Rightarrow> u64 \<Rightarrow> u64" where
  "mix_split key seed = murmur64 (key + seed)"

definition fuse_rotl64 :: "u64 \<Rightarrow> u32 \<Rightarrow> u64" where
  "fuse_rotl64 n c = push_bit (unat (c AND 63)) n OR drop_bit (unat ((- c) AND 63)) n"

definition fuse_reduce :: "u32 \<Rightarrow> u32 \<Rightarrow> u32" where
  "fuse_reduce hash n = ucast (drop_bit 32 (ucast hash * ucast n :: u64))"

definition fingerprint :: "u64 \<Rightarrow> u8" where
  "fingerprint hash = ucast (hash XOR drop_bit 32 hash)"

text \<open>The number drawn and the new value of \<open>*seed\<close>.\<close>

definition rng_splitmix64 :: "u64 \<Rightarrow> u64 \<times> u64" where
  "rng_splitmix64 seed =
     (let seed = seed + 0x9E3779B97F4A7C15;
          z = seed;
          z = (z XOR drop_bit 30 z) * 0xBF58476D1CE4E5B9;
          z = (z XOR drop_bit 27 z) * 0x94D049BB133111EB
      in (z XOR drop_bit 31 z, seed))"

definition fuse_mulhi :: "u64 \<Rightarrow> u64 \<Rightarrow> u64" where
  "fuse_mulhi a b = ucast (drop_bit 64 (ucast a * ucast b :: u128))"

text \<open>The version for compilers without 128-bit integers.\<close>

definition low32 :: "u64 \<Rightarrow> u64" where
  "low32 x = ucast (ucast x :: u32)"

definition fuse_mulhi_portable :: "u64 \<Rightarrow> u64 \<Rightarrow> u64" where
  "fuse_mulhi_portable a b =
     (let a0 = low32 a; a1 = drop_bit 32 a; b0 = low32 b; b1 = drop_bit 32 b;
          p11 = a1 * b1; p01 = a0 * b1; p10 = a1 * b0; p00 = a0 * b0;
          middle = p10 + drop_bit 32 p00 + low32 p01
      in p11 + drop_bit 32 middle + drop_bit 32 p01)"

text \<open>\<open>Fingerprints\<close> is \<open>None\<close> for a null pointer, otherwise the array it owns.\<close>

record binary_fuse8_t =
  Seed :: u64
  Size :: u32
  SegmentLength :: u32
  SegmentLengthMask :: u32
  SegmentCount :: u32
  SegmentCountLength :: u32
  ArrayLength :: u32
  Fingerprints :: "u8 list option"

record binary_hashes_t =
  bh_h0 :: u32
  bh_h1 :: u32
  bh_h2 :: u32

definition hash_batch :: "u64 \<Rightarrow> binary_fuse8_t \<Rightarrow> binary_hashes_t" where
  "hash_batch hash flt =
     (let hi = fuse_mulhi hash (ucast (SegmentCountLength flt));
          a0 = ucast hi :: u32;
          a1 = a0 + SegmentLength flt;
          a2 = a1 + SegmentLength flt;
          a1 = a1 XOR (ucast (drop_bit 18 hash) AND SegmentLengthMask flt);
          a2 = a2 XOR (ucast hash AND SegmentLengthMask flt)
      in \<lparr>bh_h0 = a0, bh_h1 = a1, bh_h2 = a2\<rparr>)"

definition fuse8_hash :: "u64 \<Rightarrow> u64 \<Rightarrow> binary_fuse8_t \<Rightarrow> u32" where
  "fuse8_hash index hash flt =
     (let h = fuse_mulhi hash (ucast (SegmentCountLength flt));
          h = h + index * ucast (SegmentLength flt);
          hh = hash AND (push_bit 36 1 - 1);
          h = h XOR (drop_bit (unat (36 - 18 * index)) hh AND ucast (SegmentLengthMask flt))
      in ucast h)"

definition fuse8_contain :: "u64 \<Rightarrow> binary_fuse8_t \<Rightarrow> bool option" where
  "fuse8_contain key flt = do {
     let hash = mix_split key (Seed flt);
     let f = fingerprint hash;
     let hashes = hash_batch hash flt;
     fp \<leftarrow> Fingerprints flt;
     f0 \<leftarrow> rd_at fp (unat (bh_h0 hashes));
     f1 \<leftarrow> rd_at fp (unat (bh_h1 hashes));
     f2 \<leftarrow> rd_at fp (unat (bh_h2 hashes));
     Some (f XOR (f0 XOR f1 XOR f2) = 0) }"

section \<open>Mixing\<close>

lemma inj_murmur64: "inj murmur64"
proof -
  have i1: "inj (\<lambda>h :: u64. h * 0xff51afd7ed558ccd)"
    by (rule inj_mult_unit [where d = "0x4f74430c22a54005"]) simp
  have i2: "inj (\<lambda>h :: u64. h * 0xc4ceb9fe1a85ec53)"
    by (rule inj_mult_unit [where d = "0x9cb4b2f8129337db"]) simp
  have eq: "murmur64 = (\<lambda>h. h XOR drop_bit 33 h) \<circ> (\<lambda>h. h * 0xc4ceb9fe1a85ec53) \<circ>
      (\<lambda>h. h XOR drop_bit 33 h) \<circ> (\<lambda>h. h * 0xff51afd7ed558ccd) \<circ> (\<lambda>h. h XOR drop_bit 33 h)"
    by (simp add: murmur64_def fun_eq_iff Let_def)
  show ?thesis unfolding eq by (intro inj_compose i1 i2 inj_xorshift) simp_all
qed

lemma mix_split_inj: "mix_split k s = mix_split k' s \<longleftrightarrow> k = k'"
  using injD [OF inj_murmur64, of "k + s" "k' + s"] by (auto simp: mix_split_def)

lemma murmur64_0 [simp]: "murmur64 0 = 0"
  by (simp add: murmur64_def)

lemma mix_split_zero: "mix_split k s = 0 \<longleftrightarrow> k = - s"
  using injD [OF inj_murmur64, of "k + s" 0] by (auto simp: mix_split_def eq_neg_iff_add_eq_0)

section \<open>The portable high product\<close>

lemma unat_low32: "unat (low32 x) = unat x mod 2 ^ 32"
  unfolding low32_def unsigned_ucast_eq unsigned_take_bit_eq by (simp add: take_bit_eq_mod mod_mod_cancel)

lemma unat_drop_bit_div: "unat (drop_bit n x) = unat x div 2 ^ n"
  unfolding unat_drop_bit_eq by (rule drop_bit_eq_div)

lemma unat_add3: "unat (x + y + z :: u64) = (unat x + unat y + unat z) mod 2 ^ 64"
  by (simp add: unat_word_ariths mod_simps)

lemma high32_less: "unat (x :: u64) div 2 ^ 32 < 2 ^ 32"
  using unat_drop_bit_less [of 32 x] by (simp only: unat_drop_bit_div) simp

lemma mulhi_split:
  fixes B :: nat
  assumes "0 < B"
  shows "((a1 * B + a0) * (b1 * B + b0)) div (B * B)
    = a1 * b1 + (a1 * b0 + a0 * b0 div B + a0 * b1 mod B) div B + a0 * b1 div B"
proof -
  let ?p = "a0 * b0" and ?q = "a0 * b1"
  have "(a1 * B + a0) * (b1 * B + b0) = ((a1 * b1) * B + (a1 * b0 + ?q)) * B + ?p" by (simp add: algebra_simps)
  also have "\<dots> = ((a1 * b1 + ?q div B) * B + (a1 * b0 + ?p div B + ?q mod B)) * B + ?p mod B"
    using arg_cong [OF div_mult_mod_eq [of ?p B], of "\<lambda>x. x"]
      arg_cong [OF div_mult_mod_eq [of ?q B], of "\<lambda>x. x * B"] by (simp add: algebra_simps)
  finally have eq: "(a1 * B + a0) * (b1 * B + b0)
     = ((a1 * b1 + ?q div B) * B + (a1 * b0 + ?p div B + ?q mod B)) * B + ?p mod B" .
  from assms show ?thesis unfolding eq div_mult2_eq by simp
qed

lemma unat_fuse_mulhi: "unat (fuse_mulhi a b) = unat a * unat b div 2 ^ 64"
proof -
  have eq: "unat (drop_bit 64 (ucast a * ucast b :: u128)) = unat a * unat b div 2 ^ 64"
    by (simp only: unat_drop_bit_div ucast_mult_128)
  with unat_drop_bit_less [of 64 "ucast a * ucast b :: u128"] have "unat a * unat b div 2 ^ 64 < 2 ^ 64" by simp
  then show ?thesis
    unfolding fuse_mulhi_def unsigned_ucast_eq eq by (simp add: take_bit_nat_eq_self)
qed

lemma unat_mult_small: "unat (a :: u64) < 2 ^ 32 \<Longrightarrow> unat b < 2 ^ 32 \<Longrightarrow> unat (a * b) = unat a * unat b"
proof -
  assume "unat a < 2 ^ 32" and "unat b < 2 ^ 32"
  then have "unat a * unat b < 2 ^ 32 * 2 ^ 32" by (intro mult_strict_mono) auto
  then show ?thesis by (simp add: unat_word_ariths take_bit_nat_eq_self)
qed

lemma mulhi_portable: "fuse_mulhi_portable a b = fuse_mulhi a b"
proof -
  let ?B = "2 ^ 32 :: nat"
  define a0 a1 b0 b1 where "a0 = unat a mod ?B" and "a1 = unat a div ?B" and "b0 = unat b mod ?B" and "b1 = unat b div ?B"
  note halves = a0_def a1_def b0_def b1_def
  define m where "m = a1 * b0 + a0 * b0 div ?B + a0 * b1 mod ?B"
  have less: "a0 < ?B" "a1 < ?B" "b0 < ?B" "b1 < ?B" by (simp_all only: halves high32_less) simp_all
  then have le: "x * y \<le> (?B - 1) * (?B - 1)" if "x \<in> {a0, a1}" "y \<in> {b0, b1}" for x y
    using that by (intro mult_mono) auto
  have "a0 * b0 div ?B < ?B" using mult_strict_mono [of a0 ?B b0 ?B] less by (intro less_mult_imp_div_less) simp
  then have m: "m < 2 ^ 64" using le [of a1 b0] unfolding m_def by simp
  have total: "unat (fuse_mulhi a b) = a1 * b1 + m div ?B + a0 * b1 div ?B"
  proof -
    have "unat a = a1 * ?B + a0" and "unat b = b1 * ?B + b0" by (simp_all add: halves)
    moreover have "(2 :: nat) ^ 64 = ?B * ?B" by simp
    ultimately show ?thesis unfolding unat_fuse_mulhi m_def by (simp only: mulhi_split [of ?B] zero_less_power zero_less_numeral)
  qed
  note prod = unat_mult_small unat_low32 unat_drop_bit_div high32_less
  have parts: "unat (low32 a) = a0" "unat (low32 b) = b0" "unat (drop_bit 32 a) = a1" "unat (drop_bit 32 b) = b1"
    by (simp_all only: halves unat_low32 unat_drop_bit_div)
  then have prods: "unat (low32 a * low32 b) = a0 * b0" "unat (low32 a * drop_bit 32 b) = a0 * b1"
    "unat (drop_bit 32 a * low32 b) = a1 * b0" "unat (drop_bit 32 a * drop_bit 32 b) = a1 * b1"
    using less by (simp_all only: unat_mult_small)
  have "unat (drop_bit 32 a * low32 b + drop_bit 32 (low32 a * low32 b) + low32 (low32 a * drop_bit 32 b)) = m mod 2 ^ 64"
    unfolding m_def by (simp only: unat_add3 prods unat_drop_bit_div unat_low32)
  with m have mid: "unat (drop_bit 32 a * low32 b + drop_bit 32 (low32 a * low32 b) + low32 (low32 a * drop_bit 32 b)) = m" by simp
  have "unat (fuse_mulhi_portable a b) = (a1 * b1 + m div ?B + a0 * b1 div ?B) mod 2 ^ 64"
    unfolding fuse_mulhi_portable_def Let_def
    by (subst unat_add3) (simp only: prods unat_drop_bit_div mid)
  also have "\<dots> = a1 * b1 + m div ?B + a0 * b1 div ?B"
    using unsigned_less [of "fuse_mulhi a b", where 'a = nat] total by simp
  finally show ?thesis using total by (simp add: word_unat_eq_iff)
qed

section \<open>Slots\<close>

text \<open>
  The shape of an allocated filter: \<open>2 ^ j\<close> slots in a segment, three consecutive segments for
  every hash, the sizes below 32 bits.
\<close>

definition geometry :: "nat \<Rightarrow> binary_fuse8_t \<Rightarrow> bool" where
  "geometry j f \<longleftrightarrow> 2 \<le> j \<and> j \<le> 18 \<and> SegmentLength f = 2 ^ j \<and> SegmentLengthMask f = 2 ^ j - 1 \<and>
     0 < unat (SegmentCount f) \<and> (unat (SegmentCount f) + 2) * 2 ^ j < 2 ^ 32 \<and>
     SegmentCountLength f = SegmentCount f * 2 ^ j \<and> ArrayLength f = (SegmentCount f + 2) * 2 ^ j"

definition slot :: "binary_fuse8_t \<Rightarrow> u64 \<Rightarrow> nat \<Rightarrow> nat" where
  "slot f hash r = unat (fuse8_hash (of_nat r) hash f)"

lemma mulhi_less: "0 < unat b \<Longrightarrow> unat (fuse_mulhi a b) < unat b"
  using unsigned_less [of a, where 'a = nat]
  by (simp add: unat_fuse_mulhi less_mult_imp_div_less mult.commute [of "unat a"])

lemma unat_xor_div:
  fixes h m :: "'a::len word"
  assumes "unat m < 2 ^ j"
  shows "unat (h XOR m) div 2 ^ j = unat h div 2 ^ j"
proof -
  have "unat (drop_bit j m) = 0" unfolding unat_drop_bit_div using assms by simp
  then have "drop_bit j m = 0" by (simp only: unat_eq_zero)
  then have "drop_bit j (h XOR m) = drop_bit j h" by (simp add: drop_bit_xor)
  then have "unat (drop_bit j (h XOR m)) = unat (drop_bit j h)" by simp
  then show ?thesis by (simp only: unat_drop_bit_div)
qed

lemma unat_u32 [simp]: "unat (ucast (x :: u32) :: u64) = unat x"
proof -
  have "unat x < 2 ^ 64" using unsigned_less [of x, where 'a = nat] by simp
  then show ?thesis unfolding unsigned_ucast_eq unsigned_take_bit_eq by (simp add: take_bit_nat_eq_self)
qed

lemma unat_and_le: "unat (x AND m :: 'a::len word) \<le> unat m"
  by (simp add: word_and_le1 flip: word_le_nat_alt)

lemma geometryD:
  assumes "geometry j f"
  shows "j \<le> 18" and "unat (SegmentLength f) = 2 ^ j" and "unat (SegmentLengthMask f) = 2 ^ j - 1"
    and "unat (SegmentCountLength f) = unat (SegmentCount f) * 2 ^ j"
    and "unat (ArrayLength f) = (unat (SegmentCount f) + 2) * 2 ^ j"
    and "0 < unat (SegmentCount f)" and "(unat (SegmentCount f) + 2) * 2 ^ j < 2 ^ 32"
proof -
  show j: "j \<le> 18" and pos: "0 < unat (SegmentCount f)" and small: "(unat (SegmentCount f) + 2) * 2 ^ j < 2 ^ 32"
    using assms by (simp_all add: geometry_def)
  have len: "unat (2 ^ j :: u32) = 2 ^ j"
    using j by (simp add: unat_of_nat_small [of "2 ^ j", simplified])
  then show "unat (SegmentLength f) = 2 ^ j" using assms by (simp add: geometry_def)
  have "(1 :: u32) \<le> 2 ^ j" using len by (simp add: word_le_nat_alt)
  then show "unat (SegmentLengthMask f) = 2 ^ j - 1"
    using assms len by (simp add: geometry_def unat_sub)
  have "unat (SegmentCount f) * 2 ^ j < 2 ^ 32" using small by (simp add: algebra_simps)
  then show "unat (SegmentCountLength f) = unat (SegmentCount f) * 2 ^ j"
    using assms len by (simp add: geometry_def unat_word_ariths take_bit_nat_eq_self)
  have "unat (SegmentCount f) + 2 < 2 ^ 32"
    using small one_le_power [of "2 :: nat" j] by (metis le_less_trans mult.right_neutral mult_le_mono2 one_le_numeral)
  then have "unat (SegmentCount f + 2) = unat (SegmentCount f) + 2"
    by (simp add: unat_word_ariths take_bit_nat_eq_self)
  then show "unat (ArrayLength f) = (unat (SegmentCount f) + 2) * 2 ^ j"
    using assms len small by (simp add: geometry_def unat_word_ariths take_bit_nat_eq_self)
qed

lemma slot_segment:
  assumes g: "geometry j f" and "r \<le> 2"
  shows "slot f hash r div 2 ^ j = unat (fuse_mulhi hash (ucast (SegmentCountLength f))) div 2 ^ j + r"
    and "slot f hash r < unat (ArrayLength f)"
proof -
  note d = geometryD [OF g]
  let ?h = "fuse_mulhi hash (ucast (SegmentCountLength f))"
  let ?w = "?h + of_nat r * ucast (SegmentLength f)"
  let ?m = "drop_bit (unat (36 - 18 * (of_nat r :: u64))) (hash AND (push_bit 36 1 - 1)) AND ucast (SegmentLengthMask f)"
  have p: "unat ?h < unat (SegmentCount f) * 2 ^ j"
    using mulhi_less [of "ucast (SegmentCountLength f)" hash] d(4,6) by simp
  then have seg: "unat ?h div 2 ^ j < unat (SegmentCount f)" by (simp add: less_mult_imp_div_less)
  have "r * 2 ^ j \<le> 2 * 2 ^ j" using assms(2) by (rule mult_le_mono1)
  moreover have "unat (SegmentCount f) * 2 ^ j + 2 * 2 ^ j < 2 ^ 32" using d(7) by (simp only: add_mult_distrib)
  ultimately have top: "unat ?h + r * 2 ^ j < 2 ^ 32" using p by linarith
  have "unat (of_nat r * ucast (SegmentLength f) :: u64) = r * 2 ^ j"
  proof -
    have "r * 2 ^ j \<le> 2 * 2 ^ 18" using assms(2) d(1) by (intro mult_mono power_increasing) simp_all
    then have "r * 2 ^ j < 2 ^ 64" by simp
    moreover have "unat (of_nat r :: u64) = r" using assms(2) by (intro unat_of_nat_small) simp
    ultimately show ?thesis using d(2) by (simp add: unat_word_ariths take_bit_nat_eq_self)
  qed
  then have w: "unat ?w = unat ?h + r * 2 ^ j"
    using top by (simp add: unat_word_ariths take_bit_nat_eq_self)
  have "unat ?m \<le> 2 ^ j - 1"
    using unat_and_le [of _ "ucast (SegmentLengthMask f) :: u64"] d(3) by simp
  then have m: "unat ?m < 2 ^ j" by (metis Suc_pred' le_imp_less_Suc zero_less_numeral zero_less_power)
  have val: "unat (?w XOR ?m) div 2 ^ j = unat ?h div 2 ^ j + r"
    using unat_xor_div [OF m, of ?w] w by simp
  with seg assms(2) have "unat (?w XOR ?m) div 2 ^ j < unat (SegmentCount f) + 2" by simp
  then have less: "unat (?w XOR ?m) < (unat (SegmentCount f) + 2) * 2 ^ j"
    by (simp add: div_less_iff_less_mult)
  then have "unat (ucast (?w XOR ?m) :: u32) = unat (?w XOR ?m)"
    using d(7) by (simp add: unsigned_ucast_eq take_bit_nat_eq_self)
  then have "slot f hash r = unat (?w XOR ?m)" by (simp add: slot_def fuse8_hash_def Let_def)
  with val less d(5) show "slot f hash r div 2 ^ j = unat ?h div 2 ^ j + r" and "slot f hash r < unat (ArrayLength f)"
    by simp_all
qed

text \<open>The batch computation in 32 bits is the one by one computation in 64, where the mask has at most
  18 bits.\<close>

lemma mask_bits:
  fixes m :: u32
  assumes "unat m < 2 ^ 18" and "bit m i"
  shows "i < 18"
proof (rule ccontr)
  assume "\<not> i < 18"
  then have "bit (drop_bit 18 m) (i - 18)" using assms(2) by (simp add: bit_drop_bit_eq)
  moreover have "unat (drop_bit 18 m) = 0" unfolding unat_drop_bit_div using assms(1) by simp
  then have "drop_bit 18 m = 0" by (simp only: unat_eq_zero)
  ultimately show False by (simp only: bit_0_eq bot_apply bot_bool_def)
qed

lemma ucast_add_32: "ucast (a + b :: u64) = (ucast a + ucast b :: u32)"
  by (simp add: word_unat_eq_iff unsigned_ucast_eq unat_word_ariths take_bit_eq_mod mod_simps mod_mod_cancel)

lemma batch_is_hash:
  assumes "unat (SegmentLengthMask f) < 2 ^ 18"
  shows "hash_batch hash f = \<lparr>bh_h0 = fuse8_hash 0 hash f, bh_h1 = fuse8_hash 1 hash f, bh_h2 = fuse8_hash 2 hash f\<rparr>"
proof -
  let ?h = "fuse_mulhi hash (ucast (SegmentCountLength f))" and ?m = "SegmentLengthMask f"
  have m: "bit ?m i \<Longrightarrow> i < 18" for i by (rule mask_bits [OF assms])
  have eq36: "(push_bit 36 1 - 1 :: u64) = mask 36" by (simp add: mask_eq_exp_minus_1)
  have low: "(drop_bit n (hash AND (push_bit 36 1 - 1)) AND ucast ?m) = (drop_bit n hash AND ucast ?m)"
    if "n \<le> 18" for n
  proof (rule bit_word_eqI)
    fix i assume "i < LENGTH(64)"
    show "bit (drop_bit n (hash AND (push_bit 36 1 - 1)) AND ucast ?m) i \<longleftrightarrow> bit (drop_bit n hash AND ucast ?m) i"
    proof (cases "bit ?m i")
      case True
      with m [of i] that have "n + i < 36" by simp
      with True show ?thesis unfolding eq36 by (auto simp: bit_simps)
    qed (simp add: bit_simps)
  qed
  have none: "drop_bit 36 (hash AND (push_bit 36 1 - 1)) = 0"
    unfolding eq36 by (auto simp: bit_eq_iff bit_simps)
  have cast: "ucast (w XOR (x AND ucast ?m) :: u64) = (ucast w XOR (ucast x AND ?m) :: u32)" for w x
    by (auto simp: bit_eq_iff bit_simps)
  have round: "ucast (ucast (SegmentLength f) :: u64) = SegmentLength f" by (auto simp: bit_eq_iff bit_simps)
  have sh: "unat (36 - 18 * 0 :: u64) = 36" "unat (36 - 18 * 1 :: u64) = 18" "unat (36 - 18 * 2 :: u64) = 0"
    by simp_all
  have low0: "drop_bit 0 (hash AND (push_bit 36 1 - 1)) AND ucast ?m = hash AND ucast ?m"
    using low [of 0] by (simp only: drop_bit_0 id_apply zero_le)
  have "fuse8_hash 0 hash f = ucast ?h"
    unfolding fuse8_hash_def Let_def sh none by simp
  moreover have "fuse8_hash 1 hash f = (ucast ?h + SegmentLength f) XOR (ucast (drop_bit 18 hash) AND ?m)"
    unfolding fuse8_hash_def Let_def sh low [OF order_refl]
    unfolding cast ucast_add_32 mult_1 round by (rule refl)
  moreover have "fuse8_hash 2 hash f = (ucast ?h + SegmentLength f + SegmentLength f) XOR (ucast hash AND ?m)"
    unfolding fuse8_hash_def Let_def sh low0
    unfolding cast ucast_add_32 mult_2 round add.assoc by (rule refl)
  ultimately show ?thesis
    unfolding hash_batch_def Let_def by (simp only: binary_hashes_t.ext_inject)
qed

text \<open>The three positions of a hash, in the order of the tables of the builder, and what a query reads.\<close>

lemma slot_less: "geometry j f \<Longrightarrow> r \<le> 2 \<Longrightarrow> slot f hash r < unat (ArrayLength f)"
  by (rule slot_segment)

lemma slot_inj:
  assumes "geometry j f" and "r \<le> 2" and "s \<le> 2"
  shows "slot f hash r = slot f hash s \<longleftrightarrow> r = s"
proof
  assume "slot f hash r = slot f hash s"
  with slot_segment(1) [OF assms(1,2), of hash] slot_segment(1) [OF assms(1,3), of hash] show "r = s"
    by (metis add_left_cancel)
qed simp

lemma slot_simps:
  "unat (fuse8_hash 0 hash f) = slot f hash 0"
  "unat (fuse8_hash 1 hash f) = slot f hash 1"
  "unat (fuse8_hash 2 hash f) = slot f hash 2"
  by (simp_all add: slot_def)

definition table_of :: "binary_fuse8_t \<Rightarrow> u8 list \<Rightarrow> bool" where
  "table_of f fp \<longleftrightarrow> (\<exists>j. geometry j f) \<and> Fingerprints f = Some fp \<and> length fp = unat (ArrayLength f)"

lemma contain_eq:
  assumes "table_of f fp"
  shows "fuse8_contain key f = Some (fp ! slot f (mix_split key (Seed f)) 0 XOR
     fp ! slot f (mix_split key (Seed f)) 1 XOR fp ! slot f (mix_split key (Seed f)) 2
       = fingerprint (mix_split key (Seed f)))"
proof -
  obtain j where g: "geometry j f" and fp: "Fingerprints f = Some fp" "length fp = unat (ArrayLength f)"
    using assms by (auto simp: table_of_def)
  have "(2 :: nat) ^ j \<le> 2 ^ 18" using geometryD(1) [OF g] by (intro power_increasing) simp_all
  then have "2 ^ j - 1 < (2 :: nat) ^ 18" by simp
  then have "unat (SegmentLengthMask f) < 2 ^ 18" using geometryD(3) [OF g] by (simp only:)
  note batch = batch_is_hash [OF this]
  note less = slot_less [OF g, of 0] slot_less [OF g, of 1] slot_less [OF g, of 2]
  have "(a XOR b = 0) \<longleftrightarrow> (b = a)" for a b :: u8 by (auto simp: word_xor_eq_0_iff)
  then show ?thesis
    using less fp by (simp add: fuse8_contain_def batch slot_simps rd_at_def Let_def)
qed

section \<open>Properties\<close>

text \<open>The two versions of \<open>binary_fuse_mulhi\<close>, with 128-bit integers and with four 32-bit
  products, are the same function, the upper half of the product.\<close>

theorem mulhi_versions_agree:
  "fuse_mulhi_portable a b = fuse_mulhi a b \<and> unat (fuse_mulhi a b) = unat a * unat b div 2 ^ 64"
  by (simp add: mulhi_portable unat_fuse_mulhi)

text \<open>The query computes the positions the builder used. For every shape that the allocation
  produces, \<open>binary_fuse8_hash_batch\<close> agrees with \<open>binary_fuse8_hash\<close> at 0, 1 and 2, and the three
  positions are different slots inside the table.\<close>

theorem hash_batch_is_hash:
  assumes "geometry j f"
  shows "hash_batch hash f = \<lparr>bh_h0 = fuse8_hash 0 hash f, bh_h1 = fuse8_hash 1 hash f, bh_h2 = fuse8_hash 2 hash f\<rparr> \<and>
     fuse8_hash 0 hash f < fuse8_hash 1 hash f \<and> fuse8_hash 1 hash f < fuse8_hash 2 hash f \<and>
     fuse8_hash 2 hash f < ArrayLength f"
proof -
  have "(2 :: nat) ^ j \<le> 2 ^ 18" using geometryD(1) [OF assms] by (intro power_increasing) simp_all
  then have "2 ^ j - 1 < (2 :: nat) ^ 18" by simp
  then have "unat (SegmentLengthMask f) < 2 ^ 18" using geometryD(3) [OF assms] by (simp only:)
  moreover have "x < y" if "x div 2 ^ j < y div 2 ^ j" for x y :: nat
    using that by (meson div_le_mono leI not_le)
  then have "slot f hash 0 < slot f hash 1" "slot f hash 1 < slot f hash 2"
    using slot_segment(1) [OF assms, of _ hash] by simp_all
  ultimately show ?thesis
    using batch_is_hash [of f hash] slot_less [OF assms, of 2 hash]
    by (simp add: word_less_nat_alt slot_simps)
qed

theorem hash_batch_is_hash_witness:
  "let f = \<lparr>Seed = 7, Size = 100, SegmentLength = 64, SegmentLengthMask = 63, SegmentCount = 1,
        SegmentCountLength = 64, ArrayLength = 192, Fingerprints = None\<rparr> in
   hash_batch 0xFEEDFACECAFEBEEF f = \<lparr>bh_h0 = fuse8_hash 0 0xFEEDFACECAFEBEEF f,
      bh_h1 = fuse8_hash 1 0xFEEDFACECAFEBEEF f, bh_h2 = fuse8_hash 2 0xFEEDFACECAFEBEEF f\<rparr>"
  using hash_batch_is_hash [of 6 "\<lparr>Seed = 7, Size = 100, SegmentLength = 64, SegmentLengthMask = 63, SegmentCount = 1,
        SegmentCountLength = 64, ArrayLength = 192, Fingerprints = None\<rparr>" "0xFEEDFACECAFEBEEF"]
  by (simp add: geometry_def Let_def)

end
