(* ===== verification/Fuse_Alloc.thy ===== *)
theory Fuse_Alloc
  imports Fuse_Hash Qb_Estimate
begin

text \<open>
  \<open>binary_fuse8_allocate\<close> and \<open>binary_fuse8_free\<close>: the floating-point formulas that choose the
  segment length and the capacity, and the integer arithmetic that turns them into the shape of
  the table. As for the sizing helper, the rounding of the floating-point unit and the C library's
  \<open>log\<close> are arguments; a conversion out of range and a shift by the width or more give \<open>None\<close>.
  Signed zeros are not distinguished.
\<close>

section \<open>Definitions\<close>

fun ddiv :: "(real \<Rightarrow> dbl) \<Rightarrow> dbl \<Rightarrow> dbl \<Rightarrow> dbl" where
  "ddiv rnd (Fin x) (Fin y) = (if y \<noteq> 0 then rnd (x / y) else if x = 0 then NaN else dinf (x < 0))"
| "ddiv rnd PInf (Fin y) = dinf (y < 0)"
| "ddiv rnd NInf (Fin y) = dinf (0 \<le> y)"
| "ddiv rnd (Fin x) PInf = Fin 0"
| "ddiv rnd (Fin x) NInf = Fin 0"
| "ddiv rnd _ _ = NaN"

fun dfloor :: "dbl \<Rightarrow> dbl" where
  "dfloor (Fin x) = Fin (of_int (floor x))"
| "dfloor d = d"

text \<open>\<open>round\<close>: to the nearest integer, halves away from zero.\<close>

fun dround :: "dbl \<Rightarrow> dbl" where
  "dround (Fin x) = Fin (of_int (if 0 \<le> x then floor (x + 1 / 2) else ceiling (x - 1 / 2)))"
| "dround d = d"

fun u32_of_dbl :: "dbl \<Rightarrow> u32 option" where
  "u32_of_dbl (Fin x) =
     (if - 1 < x \<and> x < 2 ^ 32 then Some (of_int (if x < 0 then 0 else floor x)) else None)"
| "u32_of_dbl _ = None"

definition dsize :: "(real \<Rightarrow> dbl) \<Rightarrow> u32 \<Rightarrow> dbl" where
  "dsize rnd sz = rnd (real (unat sz))"

text \<open>\<open>((uint32_t)1) << (unsigned)(d)\<close>.\<close>

definition shift_of :: "dbl \<Rightarrow> u32 option" where
  "shift_of d = do {
     e \<leftarrow> u32_of_dbl d;
     if unat e < 32 then Some (push_bit (unat e) 1) else None }"

definition calculate_segment_length :: "(real \<Rightarrow> dbl) \<Rightarrow> (dbl \<Rightarrow> dbl) \<Rightarrow> u32 \<Rightarrow> u32 \<Rightarrow> u32 option" where
  "calculate_segment_length rnd flog arity sz =
     (if arity = 3 then
        shift_of (dfloor (dadd_fin rnd (ddiv rnd (flog (dsize rnd sz)) (flog (rnd (333 / 100)))) (9 / 4)))
      else if arity = 4 then
        shift_of (dfloor (dadd_fin rnd (ddiv rnd (flog (dsize rnd sz)) (flog (rnd (291 / 100)))) (- 1 / 2)))
      else Some 65536)"

definition fuse_max :: "dbl \<Rightarrow> dbl \<Rightarrow> dbl" where
  "fuse_max a b = (if dlt a b then b else a)"

text \<open>\<open>c + k * log(n) / log((double)size)\<close>, the constants being doubles.\<close>

definition factor_term :: "(real \<Rightarrow> dbl) \<Rightarrow> (dbl \<Rightarrow> dbl) \<Rightarrow> u32 \<Rightarrow> dbl \<Rightarrow> dbl \<Rightarrow> real \<Rightarrow> dbl" where
  "factor_term rnd flog sz c k n =
     (let q = ddiv rnd (dmul rnd k (flog (Fin n))) (flog (dsize rnd sz))
      in case c of Fin c \<Rightarrow> dadd_fin rnd q c | _ \<Rightarrow> NaN)"

definition calculate_size_factor :: "(real \<Rightarrow> dbl) \<Rightarrow> (dbl \<Rightarrow> dbl) \<Rightarrow> u32 \<Rightarrow> u32 \<Rightarrow> dbl" where
  "calculate_size_factor rnd flog arity sz =
     (if arity = 3 then fuse_max (Fin (9 / 8)) (factor_term rnd flog sz (Fin (7 / 8)) (Fin (1 / 4)) 1000000)
      else if arity = 4 then fuse_max (rnd (1075 / 1000)) (factor_term rnd flog sz (rnd (77 / 100)) (rnd (305 / 1000)) 600000)
      else Fin 2)"

text \<open>The result and the filter; \<open>got\<close> is whether \<open>calloc\<close> succeeds.\<close>

definition fuse8_allocate ::
  "(real \<Rightarrow> dbl) \<Rightarrow> (dbl \<Rightarrow> dbl) \<Rightarrow> bool \<Rightarrow> u32 \<Rightarrow> binary_fuse8_t \<Rightarrow> (bool \<times> binary_fuse8_t) option" where
  "fuse8_allocate rnd flog got sz f = do {
     let arity = (3 :: u32);
     len \<leftarrow> (if sz = 0 then Some 4 else calculate_segment_length rnd flog arity sz);
     let len = (if 262144 < len then 262144 else len);
     let factor = (if sz \<le> 1 then Fin 0 else calculate_size_factor rnd flog arity sz);
     capacity \<leftarrow> (if sz \<le> 1 then Some 0 else u32_of_dbl (dround (dmul rnd (dsize rnd sz) factor)));
     if len = 0 then None
     else do {
       let init = (capacity + len - 1) div len - (arity - 1);
       let array = (init + arity - 1) * len;
       let segs = (array + len - 1) div len;
       let segs = (if segs \<le> arity - 1 then 1 else segs - (arity - 1));
       let array = (segs + arity - 1) * len;
       Some (got, f\<lparr>Size := sz, SegmentLength := len, SegmentLengthMask := len - 1, SegmentCount := segs,
               SegmentCountLength := segs * len, ArrayLength := array,
               Fingerprints := (if got then Some (replicate (unat array) 0) else None)\<rparr>) } }"

definition fuse8_free :: "binary_fuse8_t \<Rightarrow> binary_fuse8_t" where
  "fuse8_free f = f\<lparr>Fingerprints := None, Seed := 0, Size := 0, SegmentLength := 0, SegmentLengthMask := 0,
     SegmentCount := 0, SegmentCountLength := 0, ArrayLength := 0\<rparr>"

section \<open>The integer part\<close>

lemma power_u32: "j < 32 \<Longrightarrow> unat (2 ^ j :: u32) = 2 ^ j"
  by (simp add: unat_of_nat_small [of "2 ^ j", simplified])

lemma shape_geometry:
  fixes len capacity :: u32
  assumes j: "2 \<le> j" "j \<le> 18" "len = 2 ^ j" and small: "unat capacity \<le> 15 * 2 ^ 28"
  defines "array \<equiv> ((capacity + len - 1) div len - 2 + 2) * len"
  defines "segs \<equiv> (if (array + len - 1) div len \<le> 2 then 1 else (array + len - 1) div len - 2)"
  shows "0 < unat segs" and "(unat segs + 2) * 2 ^ j < 2 ^ 32" and "unat capacity \<le> (unat segs + 2) * 2 ^ j"
proof -
  define q where "q = (unat capacity + (2 ^ j - 1)) div 2 ^ j"
  have len: "unat len = 2 ^ j" using j by (simp add: power_u32)
  have le18: "(2 :: nat) ^ j \<le> 2 ^ 18" using j(2) by (intro power_increasing) simp_all
  have ge4: "(2 :: nat) ^ 2 \<le> 2 ^ j" using j(1) by (intro power_increasing) simp_all
  have ql: "q * 2 ^ j \<le> unat capacity + (2 ^ j - 1)" unfolding q_def by (rule div_times_less_eq_dividend)
  have qu: "unat capacity \<le> q * 2 ^ j"
  proof -
    have pos: "0 < (2 :: nat) ^ j" by simp
    show ?thesis
      using div_mult_mod_eq [of "unat capacity + (2 ^ j - 1)" "2 ^ j"] mod_less_divisor [OF pos, of "unat capacity + (2 ^ j - 1)"] pos
      unfolding q_def by linarith
  qed
  have sum: "unat (c + len - 1) = unat c + (2 ^ j - 1)" if "unat c + 2 ^ j < 2 ^ 32" for c :: u32
  proof -
    have "unat (c + len) = unat c + 2 ^ j" using that len by (simp add: unat_word_ariths take_bit_nat_eq_self)
    moreover from this have "1 \<le> c + len" using ge4 by (simp add: word_le_nat_alt)
    ultimately show ?thesis using ge4 by (simp add: unat_sub)
  qed
  have c: "unat capacity + 2 ^ j < 2 ^ 32" using small le18 by simp
  have div1: "unat ((capacity + len - 1) div len) = q" unfolding unat_div sum [OF c] len q_def by simp
  have array: "unat array = q * 2 ^ j"
  proof -
    have "array = (capacity + len - 1) div len * len" by (simp add: array_def)
    moreover have "q * 2 ^ j < 2 ^ 32" using ql c by simp
    ultimately show ?thesis using div1 len by (simp add: unat_word_ariths take_bit_nat_eq_self)
  qed
  have "unat array + 2 ^ j < 2 ^ 32" using ql small le18 unfolding array by simp
  note sum2 = sum [OF this]
  have "unat ((array + len - 1) div len) = (q * 2 ^ j + (2 ^ j - 1)) div 2 ^ j"
    unfolding unat_div sum2 len array by simp
  also have "\<dots> = q" using ge4 by (intro div_nat_eqI) (simp_all add: algebra_simps)
  finally have div2: "unat ((array + len - 1) div len) = q" .
  have cases: "unat segs = (if q \<le> 2 then 1 else q - 2)"
    unfolding segs_def using div2 by (simp add: word_le_nat_alt unat_sub)
  then show "0 < unat segs" by simp
  show "(unat segs + 2) * 2 ^ j < 2 ^ 32"
  proof (cases "q \<le> 2")
    case True
    then show ?thesis using cases le18 by simp
  next
    case False
    then have "unat segs + 2 = q" using cases by simp
    then have "(unat segs + 2) * 2 ^ j = q * 2 ^ j" by (rule arg_cong)
    then show ?thesis using ql c by simp
  qed
  have "q \<le> unat segs + 2" using cases by (auto split: if_splits)
  then have "q * 2 ^ j \<le> (unat segs + 2) * 2 ^ j" by (rule mult_le_mono1)
  with qu show "unat capacity \<le> (unat segs + 2) * 2 ^ j" by linarith
qed

section \<open>The logarithms\<close>

text \<open>What the C library documents of \<open>log\<close>: exact at 1, and close to the logarithm elsewhere.\<close>

definition log_accurate :: "(dbl \<Rightarrow> dbl) \<Rightarrow> bool" where
  "log_accurate flog \<longleftrightarrow> flog (Fin 1) = Fin 0 \<and>
     (\<forall>x. 2 \<le> x \<and> x \<le> 2 ^ 32 \<longrightarrow> (\<exists>l. flog (Fin x) = Fin l \<and> \<bar>l - ln x\<bar> \<le> 1 / 1000))"

lemma ln2_bounds: "1 / 2 \<le> ln (2 :: real)" "ln (2 :: real) \<le> 3 / 4"
proof -
  have "exp (1 / 2 :: real) ^ 2 = exp 1" by (simp add: exp_double [symmetric] power2_eq_square flip: exp_add)
  also have "\<dots> \<le> 2 ^ 2" using exp_le by simp
  finally have "exp (1 / 2 :: real) \<le> 2" by (rule power2_le_imp_le) simp
  then show "1 / 2 \<le> ln (2 :: real)" by (simp only: ln_ge_iff zero_less_numeral)
  have "2 \<le> exp (3 / 4 :: real)" using exp_lower_Taylor_quadratic [of "3 / 4"] by (simp add: power2_eq_square)
  then show "ln (2 :: real) \<le> 3 / 4" by (metis exp_gt_zero ln_exp ln_le_cancel_iff zero_less_numeral)
qed

lemma ln_power2_le: "x \<le> 2 ^ n \<Longrightarrow> 1 \<le> x \<Longrightarrow> ln x \<le> 3 / 4 * real n"
proof -
  assume "x \<le> 2 ^ n" and "1 \<le> x"
  then have "ln x \<le> ln (2 ^ n)" by (simp add: ln_le_cancel_iff)
  also have "\<dots> = real n * ln 2" by (simp add: ln_realpow)
  also have "\<dots> \<le> real n * (3 / 4)" using ln2_bounds by (intro mult_left_mono) simp_all
  finally show ?thesis by simp
qed

lemma log_bounds:
  assumes "log_accurate flog" and "2 \<le> x" and "x \<le> 2 ^ n" and "n \<le> 32"
  shows "\<exists>l. flog (Fin x) = Fin l \<and> 499 / 1000 \<le> l \<and> l \<le> 3 / 4 * real n + 1 / 1000"
proof -
  have "(2 :: real) ^ n \<le> 2 ^ 32" using assms(4) by (intro power_increasing) simp_all
  then have "x \<le> 2 ^ 32" using assms(3) by linarith
  then obtain l where l: "flog (Fin x) = Fin l" "\<bar>l - ln x\<bar> \<le> 1 / 1000"
    using assms(1,2) by (auto simp: log_accurate_def)
  have "ln 2 \<le> ln x" using assms(2) by (simp add: ln_le_cancel_iff)
  moreover have "ln x \<le> 3 / 4 * real n" using assms(2,3) by (intro ln_power2_le) simp_all
  ultimately have "499 / 1000 \<le> l \<and> l \<le> 3 / 4 * real n + 1 / 1000" using l(2) ln2_bounds(1) by linarith
  with l(1) show ?thesis by blast
qed

lemma round_nat_le: "rounds_with rnd r \<Longrightarrow> n \<le> 2 ^ 53 \<Longrightarrow> x \<le> real n \<Longrightarrow> r x \<le> real n"
  using round_le [of rnd r "int n" 0 x] by simp

lemma round_nat_ge: "rounds_with rnd r \<Longrightarrow> n \<le> 2 ^ 53 \<Longrightarrow> real n \<le> x \<Longrightarrow> real n \<le> r x"
  using round_ge [of rnd r "int n" 0 x] by simp

lemma round_small: "rounds_with rnd r \<Longrightarrow> \<bar>x\<bar> \<le> 2 ^ 60 \<Longrightarrow> rnd x = Fin (r x)"
  by (simp add: rounds_with_def)

lemma segment_exponent:
  assumes rnd: "rounds_with rnd r" and log: "log_accurate flog" and sz: "1 \<le> unat sz" "unat sz \<le> 2 ^ 28"
  shows "\<exists>e. 2 \<le> e \<and> e < 32 \<and> calculate_segment_length rnd flog 3 sz = Some (2 ^ e)"
proof -
  define n where "n = unat sz"
  let ?s = "real n"
  have n: "1 \<le> n" "n \<le> 2 ^ 28" using sz by (simp_all add: n_def)
  have s: "?s \<le> 2 ^ 28" using of_nat_mono [OF n(2), where 'a = real] by simp
  have ds: "dsize rnd sz = Fin ?s"
    unfolding dsize_def n_def [symmetric] using s n by (simp add: round_small [OF rnd] round_int [OF rnd])
  obtain l where l: "flog (Fin ?s) = Fin l" "0 \<le> l" "l \<le> 22"
  proof (cases "n = 1")
    case True
    then show thesis using log that [of 0] by (simp add: log_accurate_def)
  next
    case False
    with n(1) have "2 \<le> ?s" by simp
    from log_bounds [OF log this s] obtain l where "flog (Fin ?s) = Fin l" "499 / 1000 \<le> l" "l \<le> 3 / 4 * 28 + 1 / 1000" by auto
    then show thesis using that [of l] by simp
  qed
  let ?b = "r (333 / 100)"
  have b: "rnd (333 / 100) = Fin ?b" "3 \<le> ?b" "?b \<le> 4"
    using round_small [OF rnd, of "333 / 100"] round_nat_ge [OF rnd, of 3 "333 / 100"] round_nat_le [OF rnd, of 4 "333 / 100"]
    by simp_all
  then have "2 \<le> ?b" "?b \<le> 2 ^ 32" by simp_all
  then obtain m where m: "flog (Fin ?b) = Fin m" "\<bar>m - ln ?b\<bar> \<le> 1 / 1000" using log by (auto simp: log_accurate_def)
  have "exp 1 \<le> ?b" using exp_le b(2) by linarith
  then have "1 \<le> ln ?b" by (metis exp_gt_zero ln_exp ln_le_cancel_iff less_le_trans)
  then have m1: "999 / 1000 \<le> m" using m(2) by linarith
  have q: "0 \<le> l / m" "l / m \<le> 23"
  proof -
    show "0 \<le> l / m" using l(2) m1 by simp
    have "l / m \<le> 22 / (999 / 1000)" using l(2,3) m1 by (intro frac_le) simp_all
    also have "\<dots> \<le> 23" by simp
    finally show "l / m \<le> 23" .
  qed
  have rq: "rnd (l / m) = Fin (r (l / m))" "0 \<le> r (l / m)" "r (l / m) \<le> 23"
    using round_small [OF rnd, of "l / m"] round_nat_ge [OF rnd, of 0 "l / m"] round_nat_le [OF rnd, of 23 "l / m"] q by simp_all
  let ?t = "r (r (l / m) + 9 / 4)"
  have t: "rnd (r (l / m) + 9 / 4) = Fin ?t" "2 \<le> ?t" "?t \<le> 26"
    using round_small [OF rnd, of "r (l / m) + 9 / 4"] round_nat_ge [OF rnd, of 2 "r (l / m) + 9 / 4"]
      round_nat_le [OF rnd, of 26 "r (l / m) + 9 / 4"] rq by simp_all
  define e where "e = nat (floor ?t)"
  have fl: "2 \<le> floor ?t" "floor ?t \<le> 26" using t by (simp_all add: le_floor_iff floor_le_iff)
  then have e: "2 \<le> e" "e < 32" and int: "int e = floor ?t" unfolding e_def by linarith+
  have "dfloor (Fin ?t) = Fin (real e)" unfolding dfloor.simps int [symmetric] by simp
  moreover have "real e < 2 ^ 32" using e(2) by simp
  then have "u32_of_dbl (Fin (real e)) = Some (of_nat e)" by simp
  ultimately have "u32_of_dbl (dfloor (Fin ?t)) = Some (of_nat e)" by simp
  moreover have "unat (of_nat e :: u32) = e" using e by (intro unat_of_nat_small) simp
  ultimately have "calculate_segment_length rnd flog 3 sz = Some (2 ^ e)"
    using e l m(1) m1 b(1) rq(1) t(1) ds by (simp add: calculate_segment_length_def shift_of_def push_bit_eq_mult)
  with e show ?thesis by blast
qed

lemma capacity_value:
  assumes rnd: "rounds_with rnd r" and log: "log_accurate flog" and sz: "2 \<le> unat sz" "unat sz \<le> 2 ^ 28"
  shows "\<exists>capacity. u32_of_dbl (dround (dmul rnd (dsize rnd sz) (calculate_size_factor rnd flog 3 sz))) = Some capacity \<and>
     unat sz \<le> unat capacity \<and> unat capacity \<le> 10 * unat sz"
proof -
  define n where "n = unat sz"
  let ?s = "real n"
  have n: "2 \<le> n" "n \<le> 2 ^ 28" using sz by (simp_all add: n_def)
  have s: "2 \<le> ?s" "?s \<le> 2 ^ 28" using n of_nat_mono [OF n(2), where 'a = real] by simp_all
  have ds: "dsize rnd sz = Fin ?s"
    unfolding dsize_def n_def [symmetric] using s n by (simp add: round_small [OF rnd] round_int [OF rnd])
  from log_bounds [OF log s] obtain l where l: "flog (Fin ?s) = Fin l" "499 / 1000 \<le> l" by auto
  from log_bounds [OF log, of 1000000 20] obtain k where k: "flog (Fin 1000000) = Fin k" "0 \<le> k" "k \<le> 16" by auto
  have p: "rnd (1 / 4 * k) = Fin (r (1 / 4 * k))" "0 \<le> r (1 / 4 * k)" "r (1 / 4 * k) \<le> 4"
    using round_small [OF rnd, of "1 / 4 * k"] round_nat_ge [OF rnd, of 0 "1 / 4 * k"]
      round_nat_le [OF rnd, of 4 "1 / 4 * k"] k by simp_all
  let ?p = "r (1 / 4 * k)"
  have q: "0 \<le> ?p / l" "?p / l \<le> 9"
  proof -
    show "0 \<le> ?p / l" using p l(2) by simp
    have "?p / l \<le> 4 / (499 / 1000)" using p l(2) by (intro frac_le) simp_all
    also have "\<dots> \<le> 9" by simp
    finally show "?p / l \<le> 9" .
  qed
  have rq: "rnd (?p / l) = Fin (r (?p / l))" "0 \<le> r (?p / l)" "r (?p / l) \<le> 9"
    using round_small [OF rnd, of "?p / l"] round_nat_ge [OF rnd, of 0 "?p / l"] round_nat_le [OF rnd, of 9 "?p / l"] q
    by simp_all
  have f: "rnd (r (?p / l) + 7 / 8) = Fin (r (r (?p / l) + 7 / 8))" "r (r (?p / l) + 7 / 8) \<le> 10"
    using round_small [OF rnd, of "r (?p / l) + 7 / 8"] round_nat_le [OF rnd, of 10 "r (?p / l) + 7 / 8"] rq by simp_all
  have quot: "factor_term rnd flog sz (Fin (7 / 8)) (Fin (1 / 4)) 1000000 = Fin (r (r (?p / l) + 7 / 8))"
    using f(1) rq(1) p(1) k(1) l ds by (simp add: factor_term_def)
  define x where "x = (if 9 / 8 < r (r (?p / l) + 7 / 8) then r (r (?p / l) + 7 / 8) else 9 / 8)"
  have x: "calculate_size_factor rnd flog 3 sz = Fin x" "1 \<le> x" "x \<le> 10"
    using f(2) by (simp_all add: calculate_size_factor_def fuse_max_def quot x_def)
  have prod: "real n \<le> ?s * x" "?s * x \<le> real (10 * n)"
    using x(2,3) s mult_left_mono [of 1 x ?s] mult_left_mono [of x 10 ?s] by simp_all
  have n10: "n \<le> 2 ^ 53" "10 * n \<le> 2 ^ 53" "real (10 * n) \<le> 2 ^ 60" using n s by simp_all
  have t: "rnd (?s * x) = Fin (r (?s * x))" "real n \<le> r (?s * x)" "r (?s * x) \<le> real (10 * n)"
  proof -
    have "0 \<le> ?s * x" and "?s * x \<le> 2 ^ 60" using prod n10(3) by linarith+
    then show "rnd (?s * x) = Fin (r (?s * x))" by (intro round_small [OF rnd]) simp
  qed (use round_nat_ge [OF rnd n10(1) prod(1)] round_nat_le [OF rnd n10(2) prod(2)] in simp_all)
  define c where "c = nat (floor (r (?s * x) + 1 / 2))"
  have fl: "int n \<le> floor (r (?s * x) + 1 / 2)" "floor (r (?s * x) + 1 / 2) \<le> int (10 * n)"
    using t(2,3) by (simp_all add: le_floor_iff floor_le_iff)
  then have c: "n \<le> c" "c \<le> 10 * n" "int c = floor (r (?s * x) + 1 / 2)" unfolding c_def by linarith+
  have nn: "0 \<le> r (?s * x)" using t(2) s by linarith
  have round: "dround (Fin (r (?s * x))) = Fin (real c)"
    by (simp only: dround.simps nn if_True c(3) [symmetric] of_int_of_nat_eq)
  have "c < 2 ^ 32" using c(2) n(2) by simp
  then have "real c < 2 ^ 32" using of_nat_less_iff [of c "2 ^ 32", where 'a = real] by simp
  then have "u32_of_dbl (Fin (real c)) = Some (of_nat c)" by simp
  moreover have "unat (of_nat c :: u32) = c" using \<open>c < 2 ^ 32\<close> by (intro unat_of_nat_small) simp
  ultimately show ?thesis
    using c(1,2) x(1) ds t(1) round unfolding n_def [symmetric] by simp
qed

lemma power_min: "e < 32 \<Longrightarrow> (if 262144 < (2 ^ e :: u32) then 262144 else 2 ^ e) = (2 ^ (min e 18) :: u32)"
proof -
  assume e: "e < 32"
  have "(262144 :: u32) < 2 ^ e \<longleftrightarrow> (2 :: nat) ^ 18 < 2 ^ e" using e by (simp add: word_less_nat_alt power_u32)
  also have "\<dots> \<longleftrightarrow> 18 < e" by (rule power_strict_increasing_iff) simp
  finally show ?thesis by (auto simp: min_def)
qed

lemma allocate_eq:
  assumes rnd: "rounds_with rnd r" and log: "log_accurate flog" and sz: "unat sz \<le> 2 ^ 28"
  shows "\<exists>j f'. fuse8_allocate rnd flog got sz f = Some (got, f') \<and> geometry j f' \<and> Size f' = sz \<and> Seed f' = Seed f \<and>
     unat sz \<le> unat (ArrayLength f') \<and>
     Fingerprints f' = (if got then Some (replicate (unat (ArrayLength f')) 0) else None)"
proof -
  obtain e where e: "2 \<le> e" "e < 32" and len: "(if sz = 0 then Some 4 else calculate_segment_length rnd flog 3 sz) = Some (2 ^ e)"
  proof (cases "sz = 0")
    case True
    then show thesis using that [of 2] by simp
  next
    case False
    then have "1 \<le> unat sz" by (metis One_nat_def Suc_leI unat_gt_0)
    from segment_exponent [OF rnd log this sz] False that show thesis by auto
  qed
  define j where "j = min e 18"
  have j: "2 \<le> j" "j \<le> 18" using e by (simp_all add: j_def)
  obtain capacity where cap: "(if sz \<le> 1 then Some 0 else u32_of_dbl (dround (dmul rnd (dsize rnd sz)
      (if sz \<le> 1 then Fin 0 else calculate_size_factor rnd flog 3 sz)))) = Some capacity"
    and small: "unat capacity \<le> 15 * 2 ^ 28" and enough: "sz \<le> 1 \<or> unat sz \<le> unat capacity"
  proof (cases "sz \<le> 1")
    case True
    then show thesis using that [of 0] by simp
  next
    case False
    then have "2 \<le> unat sz" by (simp add: word_le_nat_alt)
    from capacity_value [OF rnd log this sz] False that sz show thesis by fastforce
  qed
  let ?len = "2 ^ j :: u32"
  let ?array = "((capacity + ?len - 1) div ?len - 2 + 2) * ?len"
  define segs where "segs = (if (?array + ?len - 1) div ?len \<le> 2 then 1 else (?array + ?len - 1) div ?len - 2)"
  note shape = shape_geometry [OF j refl small, folded segs_def]
  have "unat ?len = 2 ^ j" using j by (simp add: power_u32)
  then have "unat ?len \<noteq> 0" by simp
  then have nz: "?len \<noteq> 0" by (simp only: unat_eq_zero not_False_eq_True)
  let ?f = "f\<lparr>Size := sz, SegmentLength := ?len, SegmentLengthMask := ?len - 1, SegmentCount := segs,
       SegmentCountLength := segs * ?len, ArrayLength := (segs + 2) * ?len,
       Fingerprints := (if got then Some (replicate (unat ((segs + 2) * ?len)) 0) else None)\<rparr>"
  have arith: "(3 :: u32) - 1 = 2" "x - 2 + 3 - 1 = x - 2 + (2 :: u32)" "x + 3 - 1 = x + (2 :: u32)" for x by simp_all
  have run: "fuse8_allocate rnd flog got sz f = Some (got, ?f)"
    unfolding fuse8_allocate_def Let_def len cap Option.bind.simps power_min [OF e(2)] j_def [symmetric] arith segs_def [symmetric]
    by (simp only: nz if_False)
  have g: "geometry j ?f" using j shape(1,2) by (simp add: geometry_def)
  have array: "unat (ArrayLength ?f) = (unat segs + 2) * 2 ^ j" using geometryD(5) [OF g] by simp
  have "(1 + 2) * 2 ^ 2 \<le> (unat segs + 2) * (2 :: nat) ^ j"
    using shape(1) j(1) by (intro mult_le_mono power_increasing) simp_all
  moreover have "sz \<le> 1 \<Longrightarrow> unat sz \<le> 1" by (simp add: word_le_nat_alt)
  ultimately have "unat sz \<le> unat (ArrayLength ?f)" unfolding array using enough shape(3)
    by (cases "sz \<le> 1") auto
  with run g show ?thesis by (intro exI [of _ j] exI [of _ ?f]) simp
qed

section \<open>Properties\<close>

text \<open>C29: the allocation always chooses a sound shape. For up to \<open>2 ^ 28\<close> keys, any rounding mode and
  any reasonable \<open>log\<close>, no conversion or shift is out of range and no size wraps: the segments have
  a power of two of slots between 4 and 262144, the three segments of every hash lie inside the
  table, the table has a slot for every key, and it is zeroed unless \<open>calloc\<close> failed, which is
  reported.\<close>

theorem allocate_geometry:
  assumes "rounds_with rnd r" and "log_accurate flog" and "unat sz \<le> 2 ^ 28"
  shows "\<exists>j f'. fuse8_allocate rnd flog got sz f = Some (got, f') \<and> geometry j f' \<and> Size f' = sz \<and>
     unat sz \<le> unat (ArrayLength f') \<and>
     Fingerprints f' = (if got then Some (replicate (unat (ArrayLength f')) 0) else None)"
  using allocate_eq [OF assms, of got f] by blast

lemma log_accurate_ln: "log_accurate (\<lambda>d. case d of Fin x \<Rightarrow> Fin (ln x) | _ \<Rightarrow> NaN)"
  by (simp add: log_accurate_def)

lemma rounds_with_exact: "rounds_with Fin (\<lambda>x. x)"
  by (simp add: rounds_with_def mono_def)

theorem allocate_geometry_witness:
  "\<exists>j f'. fuse8_allocate Fin (\<lambda>d. case d of Fin x \<Rightarrow> Fin (ln x) | _ \<Rightarrow> NaN) True 1000
     \<lparr>Seed = 0, Size = 0, SegmentLength = 0, SegmentLengthMask = 0, SegmentCount = 0, SegmentCountLength = 0,
      ArrayLength = 0, Fingerprints = None\<rparr> = Some (True, f') \<and> geometry j f'"
  using allocate_geometry [OF rounds_with_exact log_accurate_ln, of 1000 True] by fastforce

text \<open>Above about 3.8 thousand million keys the capacity, at least nine eighths of the number of
  keys, no longer fits 32 bits: the conversion of the double is then out of range, which C does not
  define and the code does not check.\<close>

lemma allocate_overflow:
  assumes rnd: "rounds_with rnd r" and big: "3817748708 \<le> unat sz"
    and factor: "calculate_size_factor rnd flog 3 sz = Fin x" "x \<le> 2 ^ 40"
  shows "fuse8_allocate rnd flog got sz f = None"
proof -
  define n where "n = unat sz"
  have n: "3817748708 \<le> n" "n < 2 ^ 32" using big unsigned_less [of sz, where 'a = nat] by (simp_all add: n_def)
  then have s: "3817748708 \<le> real n" "real n \<le> 2 ^ 32" by simp_all
  have ds: "dsize rnd sz = Fin (real n)"
    unfolding dsize_def n_def [symmetric] using s n by (simp add: round_small [OF rnd] round_int [OF rnd])
  have x: "9 / 8 \<le> x"
    using factor(1) by (auto simp: calculate_size_factor_def fuse_max_def elim!: dlt.elims split: if_splits)
  have le: "real n * x \<le> 2 ^ 72" using mult_mono [of "real n" "2 ^ 32" x "2 ^ 40"] s x factor(2) by simp
  have "3817748708 * (9 / 8) \<le> real n * x" using s x by (intro mult_mono) simp_all
  then have ge: "real (2 ^ 32) \<le> real n * x" by simp
  have "rnd (real n * x) = Fin (r (real n * x))" using rnd ge le by (simp add: rounds_with_def)
  moreover have "real (2 ^ 32) \<le> r (real n * x)" by (rule round_nat_ge [OF rnd _ ge]) simp
  ultimately have "u32_of_dbl (dround (dmul rnd (dsize rnd sz) (Fin x))) = None"
    using ds by (simp add: le_floor_iff)
  moreover have "\<not> sz \<le> 1" using big by (simp add: word_le_nat_alt)
  ultimately show ?thesis using factor(1) by (simp add: fuse8_allocate_def Let_def)
qed

end
