(* ===== verification/Fuse_Populate.thy ===== *)
theory Fuse_Populate
  imports Fuse_Hash
begin

text \<open>
  \<open>binary_fuse8_populate\<close> of \<open>comparisons/binaryfusefilter.h\<close>, phase by phase: the keys' hashes are
  placed roughly in order, counted into the slots of the table, peeled off slot by slot, and the
  fingerprints assigned in the reverse order of the peeling; a round that fails is repeated with
  another seed, at most a hundred times. The scratch arrays of the function are the fields of a
  record; an access outside an array is \<open>None\<close>. Three things are not the program's: the answers
  of the allocator, what a fresh \<open>malloc\<close> block holds, and the C library's \<open>qsort\<close>.
\<close>

section \<open>Data\<close>

definition XOR_MAX_ITERATIONS :: nat where
  "XOR_MAX_ITERATIONS = 100"

record build =
  reverseOrder :: "u64 list"
  alone :: "u32 list"
  t2count :: "u8 list"
  reverseH :: "u8 list"
  t2hash :: "u64 list"
  startPos :: "u32 list"
  key_buf :: "u64 list"
  nkeys :: u32
  cur_seed :: u64
  rng_counter :: u64

text \<open>The answers to the six allocations, \<open>calloc\<close> with zeros, \<open>malloc\<close> with whatever is there.\<close>

record mallocs =
  got_reverseOrder :: bool
  got_alone :: "u32 list option"
  got_t2count :: bool
  got_reverseH :: "u8 list option"
  got_t2hash :: bool
  got_startPos :: "u32 list option"

section \<open>Duplicate keys\<close>

text \<open>The comparator handed to \<open>qsort\<close>: the conversion to \<open>int\<close> keeps the low 32 bits of the difference.\<close>

definition fuse_cmpfunc :: "u64 \<Rightarrow> u64 \<Rightarrow> int" where
  "fuse_cmpfunc a b = sint (ucast (a - b) :: u32)"

text \<open>The loop of \<open>binary_fuse_sort_and_remove_dup\<close> after the call of \<open>qsort\<close>.\<close>

definition remove_dup_step :: "nat \<Rightarrow> u64 list \<times> nat \<Rightarrow> (u64 list \<times> nat) option" where
  "remove_dup_step i = (\<lambda>(keys, j). do {
     a \<leftarrow> rd_at keys i;
     b \<leftarrow> rd_at keys (i - 1);
     if a \<noteq> b then do { keys \<leftarrow> wr_at keys j a; Some (keys, j + 1) } else Some (keys, j) })"

definition sort_and_remove_dup ::
  "(u64 list \<Rightarrow> u64 list) \<Rightarrow> u64 list \<Rightarrow> nat \<Rightarrow> (u64 list \<times> nat) option" where
  "sort_and_remove_dup qsort keys len =
     foldM remove_dup_step [1..<len] (qsort (take len keys) @ drop len keys, 1)"

section \<open>Placing the hashes\<close>

text \<open>\<open>while (((uint32_t)1 << blockBits) < filter->SegmentCount) blockBits += 1\<close>.\<close>

function block_bits :: "nat \<Rightarrow> u32 \<Rightarrow> nat option" where
  "block_bits b count =
     (if 32 \<le> b then None else if push_bit b 1 < count then block_bits (b + 1) count else Some b)"
  by pat_completeness auto
termination
  by (relation "measure (\<lambda>(b, count). 32 - b)") auto

declare block_bits.simps [simp del]

text \<open>\<open>startPos[i] = (uint32_t)((uint64_t)i * size) >> blockBits\<close>: the cast binds tighter than the shift.\<close>

definition start_pos :: "nat \<Rightarrow> u32 \<Rightarrow> nat \<Rightarrow> u32" where
  "start_pos bits sz i = drop_bit bits (ucast (of_nat i * ucast sz :: u64))"

definition start_positions :: "nat \<Rightarrow> u32 \<Rightarrow> u32 list \<Rightarrow> u32 list option" where
  "start_positions bits sz sp = foldM (\<lambda>i sp. wr_at sp i (start_pos bits sz i)) [0..<2 ^ bits] sp"

definition maskblock :: "nat \<Rightarrow> u64" where
  "maskblock bits = ucast (push_bit bits 1 - 1 :: u32)"

text \<open>\<open>while (reverseOrder[startPos[segment_index]] != 0)\<close>.\<close>

partial_function (option) free_segment :: "nat \<Rightarrow> u64 list \<Rightarrow> u32 list \<Rightarrow> u64 \<Rightarrow> u64 option" where
  "free_segment bits ro sp seg = do {
     pos \<leftarrow> rd_at sp (unat seg);
     x \<leftarrow> rd_at ro (unat pos);
     if x \<noteq> 0 then free_segment bits ro sp ((seg + 1) AND maskblock bits) else Some seg }"

lemma free_segment_code [code]:
  "free_segment bits ro sp seg =
     (case rd_at sp (unat seg) of None \<Rightarrow> None
      | Some pos \<Rightarrow> (case rd_at ro (unat pos) of None \<Rightarrow> None
        | Some x \<Rightarrow> if x \<noteq> 0 then free_segment bits ro sp ((seg + 1) AND maskblock bits) else Some seg))"
  by (subst free_segment.simps) (simp split: option.split)

definition place_hash :: "nat \<Rightarrow> u64 \<Rightarrow> u64 list \<times> u32 list \<Rightarrow> (u64 list \<times> u32 list) option" where
  "place_hash bits hash = (\<lambda>(ro, sp). do {
     seg \<leftarrow> free_segment bits ro sp (drop_bit (64 - bits) hash);
     pos \<leftarrow> rd_at sp (unat seg);
     ro \<leftarrow> wr_at ro (unat pos) hash;
     sp \<leftarrow> wr_at sp (unat seg) (pos + 1);
     Some (ro, sp) })"

definition place_keys ::
  "nat \<Rightarrow> u64 \<Rightarrow> u64 list \<Rightarrow> u32 \<Rightarrow> u64 list \<times> u32 list \<Rightarrow> (u64 list \<times> u32 list) option" where
  "place_keys bits seed keys sz =
     foldM (\<lambda>i st. do { key \<leftarrow> rd_at keys i; place_hash bits (murmur64 (key + seed)) st }) [0..<unat sz]"

section \<open>Counting\<close>

text \<open>Adding a hash to a slot under its role 0, 1 or 2, and taking it out again.\<close>

definition add_slot :: "nat \<Rightarrow> u8 \<Rightarrow> u64 \<Rightarrow> u8 list \<times> u64 list \<Rightarrow> (u8 list \<times> u64 list) option" where
  "add_slot i role hash = (\<lambda>(cnt, hsh). do {
     c \<leftarrow> rd_at cnt i;
     x \<leftarrow> rd_at hsh i;
     Some (cnt[i := (c + 4) XOR role], hsh[i := x XOR hash]) })"

definition del_slot :: "nat \<Rightarrow> u8 \<Rightarrow> u64 \<Rightarrow> u8 list \<times> u64 list \<Rightarrow> (u8 list \<times> u64 list) option" where
  "del_slot i role hash = (\<lambda>(cnt, hsh). do {
     c \<leftarrow> rd_at cnt i;
     x \<leftarrow> rd_at hsh i;
     Some (cnt[i := (c - 4) XOR role], hsh[i := x XOR hash]) })"

definition drop_duplicate ::
  "nat \<Rightarrow> nat \<Rightarrow> nat \<Rightarrow> u64 \<Rightarrow> (u8 list \<times> u64 list) \<times> u32 \<Rightarrow> ((u8 list \<times> u64 list) \<times> u32) option" where
  "drop_duplicate s0 s1 s2 hash = (\<lambda>((cnt, hsh), dups). do {
     x0 \<leftarrow> rd_at hsh s0;
     x1 \<leftarrow> rd_at hsh s1;
     x2 \<leftarrow> rd_at hsh s2;
     if (x0 AND x1 AND x2) = 0 then do {
       c0 \<leftarrow> rd_at cnt s0;
       c1 \<leftarrow> rd_at cnt s1;
       c2 \<leftarrow> rd_at cnt s2;
       if x0 = 0 \<and> c0 = 8 \<or> x1 = 0 \<and> c1 = 8 \<or> x2 = 0 \<and> c2 = 8 then do {
         st \<leftarrow> del_slot s0 0 hash (cnt, hsh);
         st \<leftarrow> del_slot s1 1 hash st;
         st \<leftarrow> del_slot s2 2 hash st;
         Some (st, dups + 1) }
       else Some ((cnt, hsh), dups) }
     else Some ((cnt, hsh), dups) })"

type_synonym counts = "((u8 list \<times> u64 list) \<times> u32) \<times> bool"

definition count_hash :: "binary_fuse8_t \<Rightarrow> u64 \<Rightarrow> counts \<Rightarrow> counts option" where
  "count_hash f hash = (\<lambda>((st, dups), error). do {
     let s0 = unat (fuse8_hash 0 hash f);
     st \<leftarrow> add_slot s0 0 hash st;
     let s1 = unat (fuse8_hash 1 hash f);
     st \<leftarrow> add_slot s1 1 hash st;
     let s2 = unat (fuse8_hash 2 hash f);
     st \<leftarrow> add_slot s2 2 hash st;
     ((cnt, hsh), dups) \<leftarrow> drop_duplicate s0 s1 s2 hash (st, dups);
     c0 \<leftarrow> rd_at cnt s0;
     c1 \<leftarrow> rd_at cnt s1;
     c2 \<leftarrow> rd_at cnt s2;
     Some (((cnt, hsh), dups), error \<or> c0 < 4 \<or> c1 < 4 \<or> c2 < 4) })"

definition count_hashes :: "binary_fuse8_t \<Rightarrow> u64 list \<Rightarrow> u32 \<Rightarrow> counts \<Rightarrow> counts option" where
  "count_hashes f ro sz = foldM (\<lambda>i st. do { hash \<leftarrow> rd_at ro i; count_hash f hash st }) [0..<unat sz]"

section \<open>Peeling\<close>

definition fuse_mod3 :: "u8 \<Rightarrow> u8" where
  "fuse_mod3 x = (if 2 < x then x - 3 else x)"

text \<open>The slots that hold one hash only, \<open>Qsize\<close> of them, listed in \<open>alone\<close>.\<close>

definition find_alone :: "u8 list \<Rightarrow> nat \<Rightarrow> u32 list \<Rightarrow> (u32 list \<times> nat) option" where
  "find_alone cnt capacity al =
     foldM (\<lambda>i (al, q). do {
       al \<leftarrow> wr_at al q (of_nat i);
       c \<leftarrow> rd_at cnt i;
       Some (al, q + (if drop_bit 2 c = 1 then 1 else 0)) }) [0..<capacity] (al, 0)"

record peel =
  p_tables :: "u8 list \<times> u64 list"
  p_alone :: "u32 list"
  Qsize :: nat
  p_order :: "u64 list"
  p_found :: "u8 list"
  stacksize :: nat

text \<open>\<open>h012[found + d]\<close>; the entry 0 is left from before and not read.\<close>

definition h012 :: "binary_fuse8_t \<Rightarrow> u64 \<Rightarrow> u32 list" where
  "h012 f hash = [0, fuse8_hash 1 hash f, fuse8_hash 2 hash f, fuse8_hash 0 hash f, fuse8_hash 1 hash f]"

definition drop_other :: "binary_fuse8_t \<Rightarrow> u64 \<Rightarrow> u8 \<Rightarrow> u8 \<Rightarrow> peel \<Rightarrow> peel option" where
  "drop_other f hash found d st = do {
     other \<leftarrow> rd_at (h012 f hash) (unat found + unat d);
     al \<leftarrow> wr_at (p_alone st) (Qsize st) other;
     c \<leftarrow> rd_at (fst (p_tables st)) (unat other);
     tables \<leftarrow> del_slot (unat other) (fuse_mod3 (found + d)) hash (p_tables st);
     Some (st\<lparr>p_alone := al, Qsize := Qsize st + (if drop_bit 2 c = 2 then 1 else 0), p_tables := tables\<rparr>) }"

definition peel_step :: "binary_fuse8_t \<Rightarrow> peel \<Rightarrow> peel option" where
  "peel_step f st = do {
     let st = st\<lparr>Qsize := Qsize st - 1\<rparr>;
     index \<leftarrow> rd_at (p_alone st) (Qsize st);
     c \<leftarrow> rd_at (fst (p_tables st)) (unat index);
     if drop_bit 2 c = 1 then do {
       hash \<leftarrow> rd_at (snd (p_tables st)) (unat index);
       let found = c AND 3;
       rh \<leftarrow> wr_at (p_found st) (stacksize st) found;
       ro \<leftarrow> wr_at (p_order st) (stacksize st) hash;
       let st = st\<lparr>p_found := rh, p_order := ro, stacksize := stacksize st + 1\<rparr>;
       st \<leftarrow> drop_other f hash found 1 st;
       drop_other f hash found 2 st }
     else Some st }"

partial_function (option) peel_loop :: "binary_fuse8_t \<Rightarrow> peel \<Rightarrow> peel option" where
  "peel_loop f st = (if Qsize st = 0 then Some st else Option.bind (peel_step f st) (peel_loop f))"

lemma peel_loop_code [code]:
  "peel_loop f st =
     (if Qsize st = 0 then Some st else case peel_step f st of None \<Rightarrow> None | Some st \<Rightarrow> peel_loop f st)"
  by (subst peel_loop.simps) (simp split: option.split)

section \<open>Rounds\<close>

text \<open>The arrays cleared and a new seed drawn, at the end of a round that failed.\<close>

definition reseed :: "u32 \<Rightarrow> build \<Rightarrow> build" where
  "reseed capacity st =
     (let (s, rng) = rng_splitmix64 (rng_counter st) in
      st\<lparr>reverseOrder := replicate (unat (nkeys st)) 0 @ drop (unat (nkeys st)) (reverseOrder st),
         t2count := replicate (unat capacity) 0, t2hash := replicate (unat capacity) 0,
         cur_seed := s, rng_counter := rng\<rparr>)"

text \<open>One round: whether the loop is left with \<open>break\<close>, and the state after it.\<close>

definition build_round ::
  "(u64 list \<Rightarrow> u64 list) \<Rightarrow> nat \<Rightarrow> binary_fuse8_t \<Rightarrow> build \<Rightarrow> (bool \<times> build) option" where
  "build_round qsort bits f st = do {
     let sz = nkeys st;
     sp \<leftarrow> start_positions bits sz (startPos st);
     (ro, sp) \<leftarrow> place_keys bits (cur_seed st) (key_buf st) sz (reverseOrder st, sp);
     ((tables, duplicates), error) \<leftarrow> count_hashes f ro sz (((t2count st, t2hash st), 0), False);
     let st = st\<lparr>startPos := sp, reverseOrder := ro, t2count := fst tables, t2hash := snd tables\<rparr>;
     if error then Some (False, reseed (ArrayLength f) st)
     else do {
       (al, q) \<leftarrow> find_alone (fst tables) (unat (ArrayLength f)) (alone st);
       p \<leftarrow> peel_loop f \<lparr>p_tables = tables, p_alone = al, Qsize = q, p_order = ro, p_found = reverseH st, stacksize = 0\<rparr>;
       let st = st\<lparr>t2count := fst (p_tables p), t2hash := snd (p_tables p), alone := p_alone p,
                   reverseOrder := p_order p, reverseH := p_found p\<rparr>;
       if of_nat (stacksize p) + duplicates = sz then Some (True, st\<lparr>nkeys := of_nat (stacksize p)\<rparr>)
       else do {
         (keys, n) \<leftarrow> (if 0 < duplicates then do {
             (keys, j) \<leftarrow> sort_and_remove_dup qsort (key_buf st) (unat sz);
             Some (keys, of_nat j :: u32) }
           else Some (key_buf st, sz));
         Some (False, reseed (ArrayLength f) (st\<lparr>key_buf := keys, nkeys := n\<rparr>)) } } }"

fun build_rounds ::
  "nat \<Rightarrow> (u64 list \<Rightarrow> u64 list) \<Rightarrow> nat \<Rightarrow> binary_fuse8_t \<Rightarrow> build \<Rightarrow> (bool \<times> build) option" where
  "build_rounds 0 qsort bits f st = Some (False, st)"
| "build_rounds (Suc r) qsort bits f st = do {
     (done, st) \<leftarrow> build_round qsort bits f st;
     if done then Some (True, st) else build_rounds r qsort bits f st }"

section \<open>Assigning the fingerprints\<close>

definition assign_one :: "binary_fuse8_t \<Rightarrow> u64 \<Rightarrow> u8 \<Rightarrow> u8 list \<Rightarrow> u8 list option" where
  "assign_one f hash found fp = do {
     let h = [fuse8_hash 0 hash f, fuse8_hash 1 hash f, fuse8_hash 2 hash f, fuse8_hash 0 hash f, fuse8_hash 1 hash f];
     i \<leftarrow> rd_at h (unat found);
     i1 \<leftarrow> rd_at h (unat found + 1);
     i2 \<leftarrow> rd_at h (unat found + 2);
     x1 \<leftarrow> rd_at fp (unat i1);
     x2 \<leftarrow> rd_at fp (unat i2);
     wr_at fp (unat i) (fingerprint hash XOR x1 XOR x2) }"

fun assign_all :: "binary_fuse8_t \<Rightarrow> u64 list \<Rightarrow> u8 list \<Rightarrow> nat \<Rightarrow> u8 list \<Rightarrow> u8 list option" where
  "assign_all f ro rh 0 fp = Some fp"
| "assign_all f ro rh (Suc i) fp = do {
     hash \<leftarrow> rd_at ro i;
     found \<leftarrow> rd_at rh i;
     fp \<leftarrow> assign_one f hash found fp;
     assign_all f ro rh i fp }"

section \<open>The whole function\<close>

text \<open>The result, the filter and the caller's array of keys afterwards.\<close>

definition fuse8_populate ::
  "(u64 list \<Rightarrow> u64 list) \<Rightarrow> mallocs \<Rightarrow> u64 list \<Rightarrow> u32 \<Rightarrow> binary_fuse8_t \<Rightarrow>
     (bool \<times> binary_fuse8_t \<times> u64 list) option" where
  "fuse8_populate qsort m keys sz f =
     (if sz \<noteq> Size f then Some (False, f, keys)
      else do {
        let (s, rng) = rng_splitmix64 0x726b2b9d438b9d4d;
        let f = f\<lparr>Seed := s\<rparr>;
        bits \<leftarrow> block_bits 1 (SegmentCount f);
        (case (got_alone m, got_reverseH m, got_startPos m) of
           (Some al, Some rh, Some sp) \<Rightarrow>
             if \<not> got_reverseOrder m \<or> \<not> got_t2count m \<or> \<not> got_t2hash m then Some (False, f, keys)
             else do {
               ro \<leftarrow> wr_at (replicate (unat (sz + 1)) 0) (unat sz) 1;
               (done, st) \<leftarrow> build_rounds XOR_MAX_ITERATIONS qsort bits f
                 \<lparr>reverseOrder = ro, alone = al, t2count = replicate (unat (ArrayLength f)) 0, reverseH = rh,
                  t2hash = replicate (unat (ArrayLength f)) 0, startPos = sp, key_buf = keys, nkeys = sz,
                  cur_seed = s, rng_counter = rng\<rparr>;
               let f = f\<lparr>Seed := cur_seed st\<rparr>;
               if \<not> done then Some (False, f, key_buf st)
               else do {
                 fp \<leftarrow> Fingerprints f;
                 fp \<leftarrow> assign_all f (reverseOrder st) (reverseH st) (unat (nkeys st)) fp;
                 Some (True, f\<lparr>Fingerprints := Some fp\<rparr>, key_buf st) } }
         | _ \<Rightarrow> Some (False, f, keys)) })"

end
