(* ===== verification/Fuse_Place.thy ===== *)
theory Fuse_Place
  imports Fuse_Populate "HOL-Library.Multiset"
begin

text \<open>
  The placing phase of the fuse builder. The keys' hashes go, by their upper bits, into segments of
  one array that are filled from different starting points; a full segment overflows into the
  next. The lemmas show that the search for a segment with room always ends, that no write leaves
  the array, and that afterwards the array holds every hash exactly as often as it was placed,
  a hash of zero (the mark of a free slot) included.
\<close>

section \<open>The search for a free segment\<close>

lemma maskblock_eq: "bits < 32 \<Longrightarrow> maskblock bits = mask bits"
proof -
  assume "bits < 32"
  then have "bit (push_bit bits 1 - 1 :: u32) i \<longleftrightarrow> i < bits" for i
    using \<open>bits < 32\<close> bit_mask_iff [of bits i, where 'a = "32 word"]
    by (auto simp: mask_eq_exp_minus_1 push_bit_of_1)
  then show ?thesis using \<open>bits < 32\<close> by (auto simp: maskblock_def bit_eq_iff bit_simps)
qed

lemma next_segment:
  assumes "bits < 32" and "unat seg < 2 ^ bits"
  shows "unat ((seg + 1) AND maskblock bits) = (unat seg + 1) mod 2 ^ bits"
proof -
  have "(2 :: nat) ^ bits \<le> 2 ^ 31" using assms(1) by (intro power_increasing) simp_all
  then have "unat (seg + 1) = unat seg + 1" using assms(2) by (simp add: unat_word_ariths take_bit_nat_eq_self)
  moreover have "(seg + 1) AND maskblock bits = take_bit bits (seg + 1)"
    using assms(1) by (simp only: maskblock_eq take_bit_eq_mask)
  ultimately show ?thesis by (simp only: unsigned_take_bit_eq take_bit_eq_mod [where 'a = nat])
qed

lemma free_segment_finds:
  assumes bits: "bits < 32" and sp: "length sp = 2 ^ bits"
    and inside: "\<And>b. b < 2 ^ bits \<Longrightarrow> unat (sp ! b) < length ro"
  shows "unat seg < 2 ^ bits \<Longrightarrow> ro ! unat (sp ! ((unat seg + d) mod 2 ^ bits)) = 0 \<Longrightarrow>
     \<exists>s. free_segment bits ro sp seg = Some s \<and> unat s < 2 ^ bits \<and> ro ! unat (sp ! unat s) = 0"
proof (induction d arbitrary: seg)
  case 0
  then show ?case using inside [of "unat seg"] sp
    by (simp add: free_segment.simps [of bits ro sp seg] rd_at_def)
next
  case (Suc d)
  show ?case
  proof (cases "ro ! unat (sp ! unat seg) = 0")
    case True
    then show ?thesis using inside [of "unat seg"] sp Suc.prems(1)
      by (simp add: free_segment.simps [of bits ro sp seg] rd_at_def)
  next
    case False
    let ?next = "(seg + 1) AND maskblock bits"
    have "unat ?next = (unat seg + 1) mod 2 ^ bits" by (rule next_segment [OF bits Suc.prems(1)])
    then have "unat ?next < 2 ^ bits" and "(unat ?next + d) mod 2 ^ bits = (unat seg + Suc d) mod 2 ^ bits"
      by (simp_all add: mod_simps)
    with Suc.IH [of ?next] Suc.prems(2) have
      "\<exists>s. free_segment bits ro sp ?next = Some s \<and> unat s < 2 ^ bits \<and> ro ! unat (sp ! unat s) = 0" by simp
    then show ?thesis using inside [of "unat seg"] sp Suc.prems(1) False
      by (simp add: free_segment.simps [of bits ro sp seg] rd_at_def)
  qed
qed

section \<open>Room is always left\<close>

text \<open>
  The slots written so far: from every other slot, some segment's next position can be reached
  going down over unwritten slots only. \<open>hs\<close> are the hashes placed so far.
\<close>

definition place_inv :: "nat \<Rightarrow> nat \<Rightarrow> u64 list \<Rightarrow> u64 list \<Rightarrow> u64 list \<times> u32 list \<Rightarrow> bool" where
  "place_inv bits n tail hs = (\<lambda>(ro, sp).
     length sp = 2 ^ bits \<and> (\<forall>b < 2 ^ bits. unat (sp ! b) \<le> n) \<and> n \<le> length ro \<and> drop n ro = tail \<and>
     filter_mset (\<lambda>h. h \<noteq> 0) (mset (take n ro)) = filter_mset (\<lambda>h. h \<noteq> 0) (mset hs) \<and>
     (\<exists>W \<subseteq> {..<n}. card W \<le> length hs \<and> (\<forall>z < n. z \<notin> W \<longrightarrow> ro ! z = 0) \<and>
        (\<forall>z < n. z \<notin> W \<longrightarrow> (\<exists>b < 2 ^ bits. unat (sp ! b) \<le> z \<and> {unat (sp ! b)..z} \<inter> W = {}))))"

lemma filter_mset_update:
  assumes "i < n" and "n \<le> length xs" and "xs ! i = (0 :: u64)"
  shows "filter_mset (\<lambda>h. h \<noteq> 0) (mset (take n (xs[i := v])))
     = (if v \<noteq> 0 then add_mset v (filter_mset (\<lambda>h. h \<noteq> 0) (mset (take n xs))) else filter_mset (\<lambda>h. h \<noteq> 0) (mset (take n xs)))"
proof -
  have "mset (take n (xs[i := v])) = add_mset v (mset (take n xs) - {#0#})"
    using assms by (simp add: take_update_swap mset_update)
  moreover have "xs ! i \<in> set (take n xs)" using assms(1,2) by (auto simp: in_set_conv_nth intro!: exI [of _ i])
  then have "0 \<in># mset (take n xs)" using assms(3) by simp
  from multi_member_split [OF this] obtain A where "mset (take n xs) = add_mset 0 A" ..
  ultimately show ?thesis by simp
qed

lemma room_left:
  assumes "place_inv bits n tail hs (ro, sp)" and "length hs < n"
  shows "\<exists>b < 2 ^ bits. ro ! unat (sp ! b) = 0"
proof -
  from assms(1) obtain W where W: "W \<subseteq> {..<n}" "card W \<le> length hs" and free: "\<forall>z < n. z \<notin> W \<longrightarrow> ro ! z = 0"
    and reach: "\<forall>z < n. z \<notin> W \<longrightarrow> (\<exists>b < 2 ^ bits. unat (sp ! b) \<le> z \<and> {unat (sp ! b)..z} \<inter> W = {})"
    by (auto simp: place_inv_def)
  have "W \<noteq> {..<n}" using W assms(2) by auto
  with W obtain z where z: "z < n" "z \<notin> W" by auto
  with reach obtain b where b: "b < 2 ^ bits" "unat (sp ! b) \<le> z" "{unat (sp ! b)..z} \<inter> W = {}" by blast
  then have "unat (sp ! b) \<notin> W" by auto
  with free b z show ?thesis by (intro exI [of _ b]) simp
qed

lemma reach_step:
  fixes sp :: "u32 list"
  assumes reach: "\<forall>z < n. z \<notin> W \<longrightarrow> (\<exists>b < m. unat (sp ! b) \<le> z \<and> {unat (sp ! b)..z} \<inter> W = {})"
    and s: "s < m" "m = length sp" "unat (sp ! s) < n" "n < 2 ^ 32 - 1"
    and z: "z < n" "z \<notin> insert (unat (sp ! s)) W"
  shows "\<exists>b < m. unat (sp[s := sp ! s + 1] ! b) \<le> z \<and> {unat (sp[s := sp ! s + 1] ! b)..z} \<inter> insert (unat (sp ! s)) W = {}"
proof -
  let ?p = "unat (sp ! s)"
  from reach z obtain c where c: "c < m" "unat (sp ! c) \<le> z" "{unat (sp ! c)..z} \<inter> W = {}" by auto
  have inc: "unat (sp ! s + 1) = ?p + 1" using s(3,4) by (simp add: unat_word_ariths take_bit_nat_eq_self)
  show ?thesis
  proof (cases "?p \<in> {unat (sp ! c)..z}")
    case True
    with z c inc have "unat (sp[s := sp ! s + 1] ! s) \<le> z" "{unat (sp[s := sp ! s + 1] ! s)..z} \<inter> insert ?p W = {}"
      using s(1,2) by (auto simp: disjoint_iff)
    with s(1) show ?thesis by blast
  next
    case False
    then have "c \<noteq> s" using c(2) by auto
    with False c show ?thesis by (intro exI [of _ c]) auto
  qed
qed

lemma place_step:
  assumes inv: "place_inv bits n tail hs (ro, sp)" and "length hs < n" and n: "n < 2 ^ 32 - 1"
    and tail: "tail \<noteq> []" "hd tail \<noteq> 0" and bits: "1 \<le> bits" "bits < 32"
  shows "\<exists>st'. place_hash bits h (ro, sp) = Some st' \<and> place_inv bits n tail (hs @ [h]) st'"
proof -
  have sp: "length sp = 2 ^ bits" and le: "\<And>b. b < 2 ^ bits \<Longrightarrow> unat (sp ! b) \<le> n" and "n \<le> length ro"
    and drop: "drop n ro = tail" using inv by (auto simp: place_inv_def)
  have "n < length ro" using drop tail(1) by (metis drop_all not_le)
  have "ro ! n \<noteq> 0" using tail drop \<open>n < length ro\<close> by (metis hd_drop_conv_nth)
  have seg: "unat (drop_bit (64 - bits) h) < 2 ^ bits"
    using unat_drop_bit_less [of "64 - bits" h] bits by simp
  from room_left [OF inv assms(2)] obtain b where b: "b < 2 ^ bits" "ro ! unat (sp ! b) = 0" by blast
  then have target: "ro ! unat (sp ! ((unat (drop_bit (64 - bits) h) + (2 ^ bits - unat (drop_bit (64 - bits) h) + b)) mod 2 ^ bits)) = 0"
    using seg by simp
  have inside: "\<And>b. b < 2 ^ bits \<Longrightarrow> unat (sp ! b) < length ro" using le \<open>n < length ro\<close> le_less_trans by blast
  from free_segment_finds [OF bits(2) sp inside seg target] obtain s where
    s: "free_segment bits ro sp (drop_bit (64 - bits) h) = Some s" "unat s < 2 ^ bits" "ro ! unat (sp ! unat s) = 0"
    by blast
  let ?p = "unat (sp ! unat s)"
  have p: "?p < n" using le [OF s(2)] s(3) \<open>ro ! n \<noteq> 0\<close> by (cases "?p = n") auto
  have run: "place_hash bits h (ro, sp) = Some (ro[?p := h], sp[unat s := sp ! unat s + 1])"
    using s p \<open>n < length ro\<close> sp by (simp add: place_hash_def rd_at_def wr_at_def)
  from inv obtain W where W: "W \<subseteq> {..<n}" "card W \<le> length hs" and free: "\<forall>z < n. z \<notin> W \<longrightarrow> ro ! z = 0"
    and reach: "\<forall>z < n. z \<notin> W \<longrightarrow> (\<exists>b < 2 ^ bits. unat (sp ! b) \<le> z \<and> {unat (sp ! b)..z} \<inter> W = {})"
    by (auto simp: place_inv_def)
  have "finite W" using W(1) by (rule finite_subset) simp
  then have card: "card (insert ?p W) \<le> length (hs @ [h])" using W(2) by (simp add: card_insert_if)
  have inc: "unat (sp ! unat s + 1) = ?p + 1" using p n by (simp add: unat_word_ariths take_bit_nat_eq_self)
  have i1: "drop n (ro[?p := h]) = tail" using drop p by simp
  have w1: "\<forall>z < n. z \<notin> insert ?p W \<longrightarrow> ro[?p := h] ! z = 0" using free by simp
  have i2: "\<forall>b < 2 ^ bits. unat (sp[unat s := sp ! unat s + 1] ! b) \<le> n"
  proof (intro allI impI)
    fix b :: nat assume "b < 2 ^ bits"
    then show "unat (sp[unat s := sp ! unat s + 1] ! b) \<le> n"
      using le p inc sp by (cases "b = unat s") simp_all
  qed
  have i3: "filter_mset (\<lambda>h. h \<noteq> 0) (mset (take n (ro[?p := h]))) = filter_mset (\<lambda>h. h \<noteq> 0) (mset (hs @ [h]))"
    using filter_mset_update [OF p \<open>n \<le> length ro\<close> s(3), of h] inv by (simp add: place_inv_def)
  have w2: "\<forall>z < n. z \<notin> insert ?p W \<longrightarrow> (\<exists>b < 2 ^ bits. unat (sp[unat s := sp ! unat s + 1] ! b) \<le> z \<and>
      {unat (sp[unat s := sp ! unat s + 1] ! b)..z} \<inter> insert ?p W = {})"
    using reach_step [OF reach s(2) sp [symmetric] p n] by blast
  have w3: "insert ?p W \<subseteq> {..<n}" using W(1) p by simp
  have "place_inv bits n tail (hs @ [h]) (ro[?p := h], sp[unat s := sp ! unat s + 1])"
    unfolding place_inv_def prod.case
    by (intro conjI exI [of _ "insert ?p W"] i1 i2 i3 w1 w2 w3 card)
      (simp_all only: length_list_update sp \<open>n \<le> length ro\<close>)
  with run show ?thesis by blast
qed

section \<open>The whole phase\<close>

lemma foldM_wr_at:
  "m \<le> length xs \<Longrightarrow> foldM (\<lambda>i xs. wr_at xs i (g i)) [0..<m] xs = Some (map g [0..<m] @ drop m xs)"
proof (induction m)
  case (Suc m)
  then have "(map g [0..<m] @ drop m xs)[m := g m] = map g [0..<Suc m] @ drop (Suc m) xs"
    by (simp add: list_update_append Cons_nth_drop_Suc [symmetric])
  with Suc show ?case by (simp add: foldM_append wr_at_def)
qed simp

lemma start_positions_eq:
  "length sp = 2 ^ bits \<Longrightarrow> start_positions bits sz sp = Some (map (start_pos bits sz) [0..<2 ^ bits])"
  by (simp add: start_positions_def foldM_wr_at)

lemma start_pos_le:
  assumes "i < 2 ^ bits" shows "unat (start_pos bits sz i) \<le> unat sz"
proof -
  have "unat (ucast (of_nat i * ucast sz :: u64) :: u32) \<le> unat (of_nat i * ucast sz :: u64)"
    by (simp add: unsigned_ucast_eq unsigned_take_bit_eq take_bit_nat_less_eq_self)
  also have "\<dots> \<le> unat (of_nat i :: u64) * unat sz"
    by (simp add: unat_word_ariths)
  also have "\<dots> \<le> i * unat sz"
    by (intro mult_le_mono1) (simp add: unsigned_of_nat take_bit_nat_less_eq_self)
  finally have "unat (start_pos bits sz i) \<le> i * unat sz div 2 ^ bits"
    unfolding start_pos_def unat_drop_bit_div by (rule div_le_mono)
  also have "\<dots> \<le> 2 ^ bits * unat sz div 2 ^ bits" using assms by (intro div_le_mono mult_le_mono1) simp
  finally show ?thesis by simp
qed

lemma place_start:
  assumes "tail \<noteq> []"
  shows "place_inv bits (unat sz) tail [] (replicate (unat sz) 0 @ tail, map (start_pos bits sz) [0..<2 ^ bits])"
  unfolding place_inv_def prod.case
proof (intro conjI exI [of _ "{}"])
  have "unat (map (start_pos bits sz) [0..<2 ^ bits] ! 0) = 0" by (simp add: start_pos_def)
  then show "\<forall>z < unat sz. z \<notin> {} \<longrightarrow> (\<exists>b < 2 ^ bits. unat (map (start_pos bits sz) [0..<2 ^ bits] ! b) \<le> z \<and>
      {unat (map (start_pos bits sz) [0..<2 ^ bits] ! b)..z} \<inter> {} = {})"
    by (intro allI impI exI [of _ 0]) simp
qed (simp_all add: start_pos_le nth_append)

lemma place_loop:
  assumes "n < 2 ^ 32 - 1" and "tail \<noteq> []" "hd tail \<noteq> 0" and "1 \<le> bits" "bits < 32"
  shows "place_inv bits n tail hs (ro, sp) \<Longrightarrow> length hs + length ks \<le> n \<Longrightarrow>
     \<exists>st'. foldM (place_hash bits) ks (ro, sp) = Some st' \<and> place_inv bits n tail (hs @ ks) st'"
proof (induction ks arbitrary: hs ro sp)
  case (Cons h ks)
  then have "length hs < n" by simp
  from place_step [OF Cons.prems(1) this assms, of h] obtain ro' sp' where
    "place_hash bits h (ro, sp) = Some (ro', sp')" "place_inv bits n tail (hs @ [h]) (ro', sp')" by auto
  with Cons.IH [of "hs @ [h]" ro' sp'] Cons.prems(2) show ?case by simp
qed simp

text \<open>Two arrays of equal length with the same nonzero entries have the same entries.\<close>

lemma zeros_fill:
  assumes "filter_mset (\<lambda>h. h \<noteq> 0) A = filter_mset (\<lambda>h. h \<noteq> 0) B" and "size A = size B"
  shows "A = (B :: u64 multiset)"
proof -
  have split: "M = filter_mset (\<lambda>h. h \<noteq> 0) M + replicate_mset (count M 0) 0" for M :: "u64 multiset"
    by (rule multiset_eqI) simp
  have "size M = size (filter_mset (\<lambda>h. h \<noteq> 0) M) + count M 0" for M :: "u64 multiset"
    using arg_cong [OF split [of M], of size] by simp
  from this [of A] this [of B] assms have "count A 0 = count B 0" by simp
  with assms(1) split [of A] split [of B] show ?thesis by metis
qed

lemma place_keys_result:
  assumes "unat sz < 2 ^ 32 - 1" and "unat sz \<le> length keys" and "tail \<noteq> []" "hd tail \<noteq> 0"
    and "1 \<le> bits" "bits < 32" and "length sp = 2 ^ bits"
  shows "\<exists>sp0 ro' sp'. start_positions bits sz sp = Some sp0 \<and>
     place_keys bits seed keys sz (replicate (unat sz) 0 @ tail, sp0) = Some (ro', sp') \<and>
     length sp' = 2 ^ bits \<and> length ro' = unat sz + length tail \<and> drop (unat sz) ro' = tail \<and>
     mset (take (unat sz) ro') = mset (map (\<lambda>k. mix_split k seed) (take (unat sz) keys))"
proof -
  let ?n = "unat sz" and ?hs = "map (\<lambda>k. mix_split k seed) (take (unat sz) keys)"
  have "map (rd_at keys) [0..<?n] = map Some (take ?n keys)"
    using assms(2) by (intro nth_equalityI) (simp_all add: rd_at_def)
  then have "those (map (rd_at keys) [0..<?n]) = Some (take ?n keys)" using those_map_Some [of "\<lambda>x. x"] by simp
  then have run: "place_keys bits seed keys sz st = foldM (place_hash bits) ?hs st" for st
    unfolding place_keys_def
    by (subst foldM_reads [where rd = "rd_at keys" and act = "\<lambda>key. place_hash bits (murmur64 (key + seed))"])
      (simp_all add: foldM_map mix_split_def)
  from place_loop [OF assms(1,3-6) place_start [OF assms(3)], of ?hs] assms(2) obtain ro' sp' where
    res: "foldM (place_hash bits) ?hs (replicate ?n 0 @ tail, map (start_pos bits sz) [0..<2 ^ bits]) = Some (ro', sp')"
    and "place_inv bits ?n tail ([] @ ?hs) (ro', sp')" by auto
  then have inv: "length sp' = 2 ^ bits" "?n \<le> length ro'" "drop ?n ro' = tail"
    "filter_mset (\<lambda>h. h \<noteq> 0) (mset (take ?n ro')) = filter_mset (\<lambda>h. h \<noteq> 0) (mset ?hs)"
    unfolding place_inv_def prod.case append_Nil by blast+
  have "length ro' = ?n + length tail"
    using inv(2) arg_cong [OF inv(3), of length] by simp
  moreover have "mset (take ?n ro') = mset ?hs"
    using inv(2) assms(2) by (intro zeros_fill [OF inv(4)]) simp
  ultimately show ?thesis
    using run res inv(1,3) start_positions_eq [OF assms(7)] by (intro exI conjI) simp_all
qed

end
