(* ===== verification/Fuse_Count.thy ===== *)
theory Fuse_Count
  imports Fuse_Place
begin

text \<open>
  The counting phase of the fuse builder. For every slot of the table one byte holds how many hashes
  fall into it (modulo 64, in the upper six bits) and the exclusive or of their roles there, and
  one word the exclusive or of the hashes. \<open>rep_at\<close> says that a slot stands for a multiset of
  hashes in this way; the lemmas show that the additions and removals of the code keep it, that
  no duplicate is seen among different hashes, and that the error flag catches every overflow of
  a counter.
\<close>

section \<open>What a slot stands for\<close>

definition touches :: "binary_fuse8_t \<Rightarrow> u64 \<Rightarrow> nat \<Rightarrow> bool" where
  "touches f h i \<longleftrightarrow> i = slot f h 0 \<or> i = slot f h 1 \<or> i = slot f h 2"

definition role :: "binary_fuse8_t \<Rightarrow> u64 \<Rightarrow> nat \<Rightarrow> u8" where
  "role f h i = (if i = slot f h 0 then 0 else if i = slot f h 1 then 1 else 2)"

definition touching :: "binary_fuse8_t \<Rightarrow> u64 multiset \<Rightarrow> nat \<Rightarrow> u64 multiset" where
  "touching f M i = filter_mset (\<lambda>h. touches f h i) M"

definition xor_all :: "'a::len word multiset \<Rightarrow> 'a word" where
  "xor_all M = fold_mset (XOR) 0 M"

definition rep_at :: "binary_fuse8_t \<Rightarrow> u64 multiset \<Rightarrow> nat \<Rightarrow> u8 \<Rightarrow> u64 \<Rightarrow> bool" where
  "rep_at f M i c x \<longleftrightarrow> unat (drop_bit 2 c) = size (touching f M i) mod 64 \<and>
     c AND 3 = xor_all (image_mset (\<lambda>h. role f h i) (touching f M i)) \<and> x = xor_all (touching f M i)"

interpretation xor_comm: comp_fun_commute "(XOR) :: 'a::len word \<Rightarrow> 'a word \<Rightarrow> 'a word"
  by unfold_locales (simp add: fun_eq_iff xor.left_commute)

lemma xor_all_empty [simp]: "xor_all {#} = 0"
  by (simp add: xor_all_def)

lemma xor_all_add [simp]: "xor_all (add_mset a M) = a XOR xor_all M"
  by (simp add: xor_all_def xor_comm.fold_mset_add_mset)

lemma touching_empty [simp]: "touching f {#} i = {#}"
  by (simp add: touching_def)

lemma touching_add [simp]:
  "touching f (add_mset h M) i = (if touches f h i then add_mset h (touching f M i) else touching f M i)"
  by (simp add: touching_def)

lemma size_touching_le: "size (touching f M i) \<le> size M"
  by (simp add: touching_def size_filter_mset_lesseq)

lemma touching_in: "h \<in># touching f M i \<longleftrightarrow> h \<in># M \<and> touches f h i"
  by (simp add: touching_def)

section \<open>Six bits of count and two of roles\<close>

lemma unat_add4: "unat (c + 4 :: u8) = (unat c + 4) mod 256"
  by (simp add: unat_word_ariths)

lemma unat_sub4: "unat (c - 4 :: u8) = (unat c + 252) mod 256"
proof -
  have "c - 4 = c + 252" by simp
  then have "unat (c - 4) = unat (c + 252)" by (rule arg_cong)
  also have "\<dots> = (unat c + 252) mod 256" by (simp add: unat_word_ariths)
  finally show ?thesis .
qed

lemma high_xor: "unat r < 4 \<Longrightarrow> unat (drop_bit 2 (c XOR r :: u8)) = unat (drop_bit 2 c)"
  using unat_xor_div [of r 2 c] by (simp only: unat_drop_bit_div) simp

lemma low_and: "unat (c AND 3 :: u8) = unat c mod 4"
proof -
  have "c AND 3 = take_bit 2 c" by (simp add: take_bit_eq_mask mask_eq_exp_minus_1)
  then show ?thesis by (simp only: unsigned_take_bit_eq take_bit_eq_mod [where 'a = nat]) simp
qed

lemma low_xor: "unat r < 4 \<Longrightarrow> (c XOR r) AND 3 = (c AND 3) XOR (r :: u8)"
proof -
  assume "unat r < 4"
  then have "r AND 3 = r" by (simp add: word_unat_eq_iff low_and)
  then show ?thesis by (metis bit.conj_xor_distrib2)
qed

lemma role_less: "unat (role f h i) < 4"
  by (simp add: role_def)

lemma mod256: "(n :: nat) mod 256 div 4 = n div 4 mod 64" "(n :: nat) mod 256 mod 4 = n mod 4"
  using mod_mult2_eq [of n 4 64] by (simp_all add: mod_mod_cancel)

lemma add4:
  assumes r: "unat r < 4"
  shows "unat (drop_bit 2 ((c + 4) XOR r :: u8)) = (unat (drop_bit 2 c) + 1) mod 64"
    and "((c + 4) XOR r) AND 3 = (c AND 3) XOR r"
proof -
  have "(n + 4) div 4 = n div 4 + 1" for n :: nat by presburger
  then show "unat (drop_bit 2 ((c + 4) XOR r)) = (unat (drop_bit 2 c) + 1) mod 64"
    unfolding high_xor [OF r]
    unfolding unat_drop_bit_div unat_add4 by (simp add: mod256(1))
  have "(n + 4) mod 4 = n mod 4" for n :: nat by presburger
  then have "unat ((c + 4) AND 3) = unat (c AND 3)" unfolding low_and unat_add4 mod256 .
  then have "(c + 4) AND 3 = c AND 3" by (rule word_unat_eq_iff [THEN iffD2])
  then show "((c + 4) XOR r) AND 3 = (c AND 3) XOR r" by (simp only: low_xor [OF r])
qed

lemma sub4:
  assumes r: "unat r < 4"
  shows "unat (drop_bit 2 ((c - 4) XOR r :: u8)) = (unat (drop_bit 2 c) + 63) mod 64"
    and "((c - 4) XOR r) AND 3 = (c AND 3) XOR r"
proof -
  have "(n + 252) div 4 = n div 4 + 63" for n :: nat by presburger
  then show "unat (drop_bit 2 ((c - 4) XOR r)) = (unat (drop_bit 2 c) + 63) mod 64"
    unfolding high_xor [OF r]
    unfolding unat_drop_bit_div unat_sub4 by (simp add: mod256(1))
  have "(n + 252) mod 4 = n mod 4" for n :: nat by presburger
  then have "unat ((c - 4) AND 3) = unat (c AND 3)" unfolding low_and unat_sub4 mod256 .
  then have "(c - 4) AND 3 = c AND 3" by (rule word_unat_eq_iff [THEN iffD2])
  then show "((c - 4) XOR r) AND 3 = (c AND 3) XOR r" by (simp only: low_xor [OF r])
qed

lemma rep_add:
  assumes "rep_at f M i c x" and "touches f h i"
  shows "rep_at f (add_mset h M) i ((c + 4) XOR role f h i) (x XOR h)"
proof -
  have "(n mod 64 + 1) mod 64 = Suc n mod 64" for n :: nat by (simp add: mod_simps)
  with assms show ?thesis
    unfolding rep_at_def add4 [OF role_less] by (simp add: xor.commute)
qed

lemma rep_skip: "\<not> touches f h i \<Longrightarrow> rep_at f (add_mset h M) i c x = rep_at f M i c x"
  by (simp add: rep_at_def)

lemma xor_cancel: "(a XOR b) XOR a = (b :: 'a::len word)"
  by (metis xor.commute xor.assoc xor_self_eq xor.left_neutral)

lemma rep_del:
  assumes "rep_at f (add_mset h M) i c x" and "touches f h i"
  shows "rep_at f M i ((c - 4) XOR role f h i) (x XOR h)"
proof -
  have "(Suc n mod 64 + 63) mod 64 = n mod 64" for n :: nat by (simp add: mod_simps)
  then show ?thesis
    using assms unfolding rep_at_def sub4 [OF role_less] by (simp add: xor_cancel)
qed

section \<open>Adding a hash to its three slots\<close>

definition rep_all :: "binary_fuse8_t \<Rightarrow> nat \<Rightarrow> u64 multiset \<Rightarrow> u8 list \<times> u64 list \<Rightarrow> bool" where
  "rep_all f cap M = (\<lambda>(cnt, hsh). \<forall>i < cap. rep_at f M i (cnt ! i) (hsh ! i))"

definition sized :: "nat \<Rightarrow> u8 list \<times> u64 list \<Rightarrow> bool" where
  "sized cap = (\<lambda>(cnt, hsh). length cnt = cap \<and> length hsh = cap)"

lemma add_slot_eq:
  "sized cap (cnt, hsh) \<Longrightarrow> i < cap \<Longrightarrow>
     add_slot i r h (cnt, hsh) = Some (cnt[i := (cnt ! i + 4) XOR r], hsh[i := hsh ! i XOR h])"
  by (simp add: add_slot_def sized_def rd_at_def)

lemma del_slot_eq:
  "sized cap (cnt, hsh) \<Longrightarrow> i < cap \<Longrightarrow>
     del_slot i r h (cnt, hsh) = Some (cnt[i := (cnt ! i - 4) XOR r], hsh[i := hsh ! i XOR h])"
  by (simp add: del_slot_def sized_def rd_at_def)

lemma sized_update [simp]: "sized cap (cnt[i := c], hsh[i := x]) = sized cap (cnt, hsh)"
  by (simp add: sized_def)

lemma slots_distinct:
  assumes "geometry j f"
  shows "slot f h 0 \<noteq> slot f h 1" "slot f h 0 \<noteq> slot f h 2" "slot f h 1 \<noteq> slot f h 2"
    "slot f h 1 \<noteq> slot f h 0" "slot f h 2 \<noteq> slot f h 0" "slot f h 2 \<noteq> slot f h 1"
  using slot_inj [OF assms] by simp_all

lemma add_three:
  assumes g: "geometry j f" and cap: "cap = unat (ArrayLength f)" and s: "sized cap st"
  shows "\<exists>st'. do { st \<leftarrow> add_slot (slot f h 0) 0 h st; st \<leftarrow> add_slot (slot f h 1) 1 h st; add_slot (slot f h 2) 2 h st }
       = Some st' \<and> sized cap st' \<and> (rep_all f cap M st \<longrightarrow> rep_all f cap (add_mset h M) st')"
proof -
  obtain cnt hsh where st: "st = (cnt, hsh)" by (cases st)
  have less: "slot f h 0 < cap" "slot f h 1 < cap" "slot f h 2 < cap" using slot_less [OF g] cap by simp_all
  note d = slots_distinct [OF g, of h]
  let ?cnt = "cnt[slot f h 0 := (cnt ! slot f h 0 + 4) XOR 0, slot f h 1 := (cnt ! slot f h 1 + 4) XOR 1,
      slot f h 2 := (cnt ! slot f h 2 + 4) XOR 2]"
  let ?hsh = "hsh[slot f h 0 := hsh ! slot f h 0 XOR h, slot f h 1 := hsh ! slot f h 1 XOR h,
      slot f h 2 := hsh ! slot f h 2 XOR h]"
  have "rep_at f (add_mset h M) i (?cnt ! i) (?hsh ! i)" if r: "rep_all f cap M st" and i: "i < cap" for i
  proof (cases "touches f h i")
    case True
    have "?cnt ! i = (cnt ! i + 4) XOR role f h i" and "?hsh ! i = hsh ! i XOR h"
      using True d less s i by (auto simp: st touches_def role_def sized_def)
    with rep_add [OF _ True] r i show ?thesis by (simp add: rep_all_def st)
  next
    case False
    then have "?cnt ! i = cnt ! i" and "?hsh ! i = hsh ! i" by (auto simp: touches_def)
    with rep_skip [OF False] r i show ?thesis by (simp add: rep_all_def st)
  qed
  then show ?thesis
    using s less d by (simp add: st add_slot_eq rep_all_def)
qed

lemma del_three:
  assumes g: "geometry j f" and cap: "cap = unat (ArrayLength f)" and s: "sized cap st"
  shows "\<exists>st'. do { st \<leftarrow> del_slot (slot f h 0) 0 h st; st \<leftarrow> del_slot (slot f h 1) 1 h st; del_slot (slot f h 2) 2 h st }
       = Some st' \<and> sized cap st' \<and> (rep_all f cap (add_mset h M) st \<longrightarrow> rep_all f cap M st')"
proof -
  obtain cnt hsh where st: "st = (cnt, hsh)" by (cases st)
  have less: "slot f h 0 < cap" "slot f h 1 < cap" "slot f h 2 < cap" using slot_less [OF g] cap by simp_all
  note d = slots_distinct [OF g, of h]
  let ?cnt = "cnt[slot f h 0 := (cnt ! slot f h 0 - 4) XOR 0, slot f h 1 := (cnt ! slot f h 1 - 4) XOR 1,
      slot f h 2 := (cnt ! slot f h 2 - 4) XOR 2]"
  let ?hsh = "hsh[slot f h 0 := hsh ! slot f h 0 XOR h, slot f h 1 := hsh ! slot f h 1 XOR h,
      slot f h 2 := hsh ! slot f h 2 XOR h]"
  have "rep_at f M i (?cnt ! i) (?hsh ! i)" if r: "rep_all f cap (add_mset h M) st" and i: "i < cap" for i
  proof (cases "touches f h i")
    case True
    have "?cnt ! i = (cnt ! i - 4) XOR role f h i" and "?hsh ! i = hsh ! i XOR h"
      using True d less s i by (auto simp: st touches_def role_def sized_def)
    with rep_del [OF _ True] r i show ?thesis by (simp add: rep_all_def st)
  next
    case False
    then have "?cnt ! i = cnt ! i" and "?hsh ! i = hsh ! i" by (auto simp: touches_def)
    moreover have "rep_at f M i (cnt ! i) (hsh ! i)"
      using rep_skip [OF False, of M "cnt ! i" "hsh ! i"] r i by (simp add: rep_all_def st)
    ultimately show ?thesis by simp
  qed
  then show ?thesis
    using s less d by (simp add: st del_slot_eq rep_all_def)
qed

section \<open>No false duplicates, no missed overflow\<close>

lemma drop_duplicate_sized:
  assumes g: "geometry j f" and cap: "cap = unat (ArrayLength f)" and s: "sized cap st"
  shows "\<exists>st' dups'. drop_duplicate (slot f h 0) (slot f h 1) (slot f h 2) h (st, dups) = Some (st', dups') \<and> sized cap st'"
proof -
  obtain cnt hsh where st: "st = (cnt, hsh)" by (cases st)
  have "slot f h 0 < cap" "slot f h 1 < cap" "slot f h 2 < cap" using slot_less [OF g] cap by simp_all
  with s show ?thesis unfolding st
    by (auto simp: drop_duplicate_def del_slot_eq rd_at_def sized_def)
qed

text \<open>A slot that looks as if it held one hash twice does hold it twice.\<close>

lemma duplicate_seen:
  assumes rep: "rep_at f (add_mset h M) i c x" and t: "touches f h i"
    and small: "size (touching f M i) < 64" and looks: "x = 0" "c = 8"
  shows "h \<in># M"
proof -
  have "unat (drop_bit 2 c) = 2" using looks(2) by simp
  then have "Suc (size (touching f M i)) mod 64 = 2" using rep t by (simp add: rep_at_def)
  then have "size (touching f M i) = 1" using small by (cases "size (touching f M i) = 63") simp_all
  from size_1_singleton_mset [OF this] obtain g where g: "touching f M i = {#g#}" ..
  then have "x = h XOR g" using rep t by (simp add: rep_at_def)
  with looks(1) have "h = g" by (simp add: word_xor_eq_0_iff)
  with g touching_in [of g f M i] show ?thesis by simp
qed

lemma drop_duplicate_cases:
  assumes g: "geometry j f" and cap: "cap = unat (ArrayLength f)" and s: "sized cap st"
    and rep: "rep_all f cap (add_mset h M) st" and small: "\<forall>i < cap. size (touching f M i) < 64"
    and run: "drop_duplicate (slot f h 0) (slot f h 1) (slot f h 2) h (st, dups) = Some (st', dups')"
  shows "st' = st \<and> dups' = dups \<or> h \<in># M \<and> dups' = dups + 1 \<and> rep_all f cap M st'"
proof -
  obtain cnt hsh where st: "st = (cnt, hsh)" by (cases st)
  have less: "slot f h 0 < cap" "slot f h 1 < cap" "slot f h 2 < cap" using slot_less [OF g] cap by simp_all
  have reads: "rd_at hsh (slot f h r) = Some (hsh ! slot f h r)" "rd_at cnt (slot f h r) = Some (cnt ! slot f h r)"
    if "r \<in> {0, 1, 2}" for r using that less s by (auto simp: st rd_at_def sized_def)
  define looks where "looks r \<longleftrightarrow> hsh ! slot f h r = 0 \<and> cnt ! slot f h r = 8" for r
  have dup: "h \<in># M" if "r \<in> {0, 1, 2}" "looks r" for r
  proof (rule duplicate_seen)
    show "rep_at f (add_mset h M) (slot f h r) (cnt ! slot f h r) (hsh ! slot f h r)"
      using rep less that(1) by (auto simp: rep_all_def st)
    show "touches f h (slot f h r)" using that(1) by (auto simp: touches_def)
    show "size (touching f M (slot f h r)) < 64" using small less that(1) by auto
  qed (use that(2) in \<open>simp_all add: looks_def\<close>)
  from del_three [OF g cap s, of h M] obtain st2 where
    del: "do { st \<leftarrow> del_slot (slot f h 0) 0 h st; st \<leftarrow> del_slot (slot f h 1) 1 h st; del_slot (slot f h 2) 2 h st } = Some st2"
    and rep2: "rep_all f cap M st2" using rep by blast
  have "drop_duplicate (slot f h 0) (slot f h 1) (slot f h 2) h (st, dups)
    = (if (hsh ! slot f h 0 AND hsh ! slot f h 1 AND hsh ! slot f h 2) = 0 then
         if looks 0 \<or> looks 1 \<or> looks 2 then Option.bind
           (do { st \<leftarrow> del_slot (slot f h 0) 0 h st; st \<leftarrow> del_slot (slot f h 1) 1 h st; del_slot (slot f h 2) 2 h st })
           (\<lambda>st. Some (st, dups + 1))
         else Some (st, dups)
       else Some (st, dups))"
    unfolding st looks_def by (simp add: drop_duplicate_def reads Option.bind_assoc del: One_nat_def)
  then show ?thesis
    using run rep2 dup unfolding del by (auto split: if_splits)
qed

lemma below4: "c < 4 \<longleftrightarrow> unat (drop_bit 2 c :: u8) = 0"
  unfolding unat_drop_bit_div by (simp add: word_less_nat_alt div_eq_0_iff)

text \<open>After the hashes \<open>ps\<close>: the tables stand for hashes \<open>M\<close> that lack only copies of others, as many
  as \<open>dups\<close> says.\<close>

definition count_inv :: "binary_fuse8_t \<Rightarrow> nat \<Rightarrow> u64 list \<Rightarrow> u8 list \<times> u64 list \<Rightarrow> u32 \<Rightarrow> bool" where
  "count_inv f cap ps st dups \<longleftrightarrow> (\<exists>M k. set_mset M = set ps \<and> size M + k = length ps \<and> (distinct ps \<longrightarrow> k = 0) \<and>
     dups = of_nat k \<and> rep_all f cap M st \<and> (\<forall>i < cap. size (touching f M i) < 64))"

lemma count_invI:
  "set_mset M = set ps \<Longrightarrow> size M + k = length ps \<Longrightarrow> (distinct ps \<Longrightarrow> k = 0) \<Longrightarrow> dups = of_nat k \<Longrightarrow>
     rep_all f cap M st \<Longrightarrow> (\<And>i. i < cap \<Longrightarrow> size (touching f M i) < 64) \<Longrightarrow> count_inv f cap ps st dups"
  unfolding count_inv_def by blast

lemma count_invE:
  assumes "count_inv f cap ps st dups"
  obtains M k where "set_mset M = set ps" "size M + k = length ps" "distinct ps \<longrightarrow> k = 0" "dups = of_nat k"
    "rep_all f cap M st" "\<forall>i < cap. size (touching f M i) < 64"
  using assms unfolding count_inv_def by blast

lemma count_hash_step:
  assumes g: "geometry j f" and cap: "cap = unat (ArrayLength f)" and s: "sized cap st"
    and ok: "\<not> err \<longrightarrow> count_inv f cap ps st dups"
  shows "\<exists>st' dups' err'. count_hash f h ((st, dups), err) = Some ((st', dups'), err') \<and> sized cap st' \<and> (err \<longrightarrow> err') \<and>
     (\<not> err' \<longrightarrow> count_inv f cap (ps @ [h]) st' dups')"
proof -
  let ?drop = "drop_duplicate (slot f h 0) (slot f h 1) (slot f h 2) h"
  let ?add = "do { st \<leftarrow> add_slot (slot f h 0) 0 h st; st \<leftarrow> add_slot (slot f h 1) 1 h st; add_slot (slot f h 2) 2 h st }"
  from add_three [OF g cap s, of h] obtain st1 where add: "?add = Some st1" and s1: "sized cap st1" by blast
  have rep1: "rep_all f cap M st \<Longrightarrow> rep_all f cap (add_mset h M) st1" for M
    using add_three [OF g cap s, of h M] unfolding add by blast
  from drop_duplicate_sized [OF g cap s1] obtain cnt hsh dups' where
    drop: "?drop (st1, dups) = Some ((cnt, hsh), dups')" and s2: "sized cap (cnt, hsh)" by (metis surj_pair)
  have less: "slot f h 0 < cap" "slot f h 1 < cap" "slot f h 2 < cap" using slot_less [OF g] cap by simp_all
  define err' where "err' \<longleftrightarrow> err \<or> cnt ! slot f h 0 < 4 \<or> cnt ! slot f h 1 < 4 \<or> cnt ! slot f h 2 < 4"
  have "count_hash f h ((st, dups), err) = Option.bind ?add
      (\<lambda>st. do { ((cnt, hsh), dups) \<leftarrow> ?drop (st, dups); c0 \<leftarrow> rd_at cnt (slot f h 0); c1 \<leftarrow> rd_at cnt (slot f h 1);
         c2 \<leftarrow> rd_at cnt (slot f h 2); Some (((cnt, hsh), dups), err \<or> c0 < 4 \<or> c1 < 4 \<or> c2 < 4) })"
    by (simp add: count_hash_def slot_simps Let_def Option.bind_assoc del: One_nat_def)
  also have "\<dots> = Some (((cnt, hsh), dups'), err')"
    unfolding add using less s2 by (simp add: drop rd_at_def sized_def err'_def del: One_nat_def)
  finally have run: "count_hash f h ((st, dups), err) = Some (((cnt, hsh), dups'), err')" .
  have "count_inv f cap (ps @ [h]) (cnt, hsh) dups'" if "\<not> err'"
  proof -
    from that ok have "count_inv f cap ps st dups" by (auto simp: err'_def)
    then obtain M k where M: "set_mset M = set ps" "size M + k = length ps" "distinct ps \<longrightarrow> k = 0" "dups = of_nat k"
      and rep: "rep_all f cap M st" and small: "\<forall>i < cap. size (touching f M i) < 64" by (rule count_invE)
    from drop_duplicate_cases [OF g cap s1 rep1 [OF rep] small drop] show ?thesis
    proof
      assume eq: "(cnt, hsh) = st1 \<and> dups' = dups"
      have "size (touching f (add_mset h M) i) < 64" if "i < cap" for i
      proof (cases "touches f h i")
        case True
        then have "\<not> cnt ! i < 4" using \<open>\<not> err'\<close> by (auto simp: err'_def touches_def)
        then have "Suc (size (touching f M i)) mod 64 \<noteq> 0"
          using rep1 [OF rep] eq that True by (auto simp: below4 rep_all_def rep_at_def)
        then have "size (touching f M i) \<noteq> 63" by auto
        moreover have "size (touching f M i) < 64" using small that by blast
        ultimately show ?thesis using True by simp
      qed (use small that in simp)
      then show ?thesis
        using M eq rep1 [OF rep] by (intro count_invI [of "add_mset h M" _ k]) simp_all
    next
      assume "h \<in># M \<and> dups' = dups + 1 \<and> rep_all f cap M (cnt, hsh)"
      then show ?thesis
        using M small by (intro count_invI [of M _ "k + 1"]) auto
    qed
  qed
  moreover have "err \<longrightarrow> err'" by (simp add: err'_def)
  ultimately show ?thesis using run s2 by blast
qed

section \<open>The whole phase\<close>

lemma count_loop:
  assumes g: "geometry j f" and cap: "cap = unat (ArrayLength f)"
  shows "sized cap st \<Longrightarrow> (\<not> err \<longrightarrow> count_inv f cap ps st dups) \<Longrightarrow>
     \<exists>st' dups' err'. foldM (count_hash f) hs ((st, dups), err) = Some ((st', dups'), err') \<and> sized cap st' \<and>
       (\<not> err' \<longrightarrow> count_inv f cap (ps @ hs) st' dups')"
proof (induction hs arbitrary: st dups err ps)
  case (Cons h hs)
  from count_hash_step [OF g cap Cons.prems, of h] obtain st1 dups1 err1 where
    run: "count_hash f h ((st, dups), err) = Some ((st1, dups1), err1)" and s1: "sized cap st1"
    and ok1: "\<not> err1 \<longrightarrow> count_inv f cap (ps @ [h]) st1 dups1" by blast
  from Cons.IH [OF s1 ok1] run show ?case by simp
qed simp

lemma count_hashes_result:
  assumes g: "geometry j f" and cap: "cap = unat (ArrayLength f)" and "unat sz \<le> length ro"
  shows "\<exists>st dups err. count_hashes f ro sz (((replicate cap 0, replicate cap 0), 0), False) = Some ((st, dups), err) \<and>
     sized cap st \<and> (\<not> err \<longrightarrow> count_inv f cap (take (unat sz) ro) st dups)"
proof -
  have "map (rd_at ro) [0..<unat sz] = map Some (take (unat sz) ro)"
    using assms(3) by (intro nth_equalityI) (simp_all add: rd_at_def)
  then have "those (map (rd_at ro) [0..<unat sz]) = Some (take (unat sz) ro)" using those_map_Some [of "\<lambda>x. x"] by simp
  then have run: "count_hashes f ro sz st = foldM (count_hash f) (take (unat sz) ro) st" for st
    unfolding count_hashes_def by (subst foldM_reads [where rd = "rd_at ro" and act = "count_hash f"]) simp_all
  have "sized cap (replicate cap 0, replicate cap 0)" by (simp add: sized_def)
  moreover have "rep_all f cap {#} (replicate cap 0, replicate cap 0)" by (simp add: rep_all_def rep_at_def)
  then have "count_inv f cap [] (replicate cap 0, replicate cap 0) 0" by (intro count_invI [of "{#}" _ 0]) simp_all
  ultimately show ?thesis
    unfolding run using count_loop [OF g cap, of "(replicate cap 0, replicate cap 0)" False "[]" 0 "take (unat sz) ro"] by simp
qed

end
