(* ===== verification/Fuse_Peel.thy ===== *)
theory Fuse_Peel
  imports Fuse_Count
begin

text \<open>
  The peeling phase of the fuse builder and the assignment of the fingerprints. A slot with one
  hash gives that hash up: it is pushed on a stack with its role there and taken out of its other
  two slots, which may then hold one hash themselves. The invariant says what the tables stand
  for while this goes on, that the list of slots to look at never outgrows its array, and that no
  hash peeled later touches the slot by which an earlier one was peeled. Assigning in the
  reverse order therefore never spoils an assignment already made.
\<close>

section \<open>Invariants\<close>

text \<open>While a hash \<open>h\<close> is being taken out, it is still counted in the slots \<open>P\<close>. The slots \<open>D\<close> were
  the ones by which hashes were peeled; the code leaves their bytes as they are.\<close>

definition pend :: "u64 \<Rightarrow> nat set \<Rightarrow> u64 multiset \<Rightarrow> nat \<Rightarrow> u64 multiset" where
  "pend h P M i = (if i \<in> P then add_mset h M else M)"

definition tab_inv ::
  "binary_fuse8_t \<Rightarrow> nat \<Rightarrow> u64 \<Rightarrow> nat set \<Rightarrow> u64 multiset \<Rightarrow> nat set \<Rightarrow> u8 list \<times> u64 list \<Rightarrow> bool" where
  "tab_inv f cap h P M D tb \<longleftrightarrow> sized cap tb \<and>
     (\<forall>i < cap. i \<notin> D \<longrightarrow> rep_at f (pend h P M i) i (fst tb ! i) (snd tb ! i)) \<and>
     (\<forall>i \<in> D. touching f M i = {#}) \<and> (\<forall>i < cap. size (touching f (pend h P M i) i) < 64)"

definition queued :: "u32 list \<Rightarrow> nat \<Rightarrow> nat list" where
  "queued al q = map unat (take q al)"

definition q_inv ::
  "binary_fuse8_t \<Rightarrow> nat \<Rightarrow> u64 \<Rightarrow> nat set \<Rightarrow> u64 multiset \<Rightarrow> nat set \<Rightarrow> u32 list \<Rightarrow> nat \<Rightarrow> bool" where
  "q_inv f cap h P M D al q \<longleftrightarrow> length al = cap \<and> q \<le> cap \<and> distinct (queued al q) \<and>
     (\<forall>i \<in> set (queued al q). i < cap \<and> i \<notin> D \<and> size (touching f (pend h P M i) i) \<le> 1)"

text \<open>The stack: what is on it and what is left are all the hashes, and each entry's slot is free of
  everything above it and of everything left.\<close>

definition stack_inv ::
  "binary_fuse8_t \<Rightarrow> nat \<Rightarrow> u64 multiset \<Rightarrow> u64 multiset \<Rightarrow> u64 list \<Rightarrow> u8 list \<Rightarrow> nat \<Rightarrow> bool" where
  "stack_inv f n M0 M ro rh s \<longleftrightarrow> n \<le> length ro \<and> n \<le> length rh \<and> s \<le> n \<and> size M0 = n \<and> mset (take s ro) + M = M0 \<and>
     (\<forall>k < s. unat (rh ! k) \<le> 2 \<and>
        (\<forall>l < s. k < l \<longrightarrow> \<not> touches f (ro ! l) (slot f (ro ! k) (unat (rh ! k)))) \<and>
        (\<forall>g \<in># M. \<not> touches f g (slot f (ro ! k) (unat (rh ! k)))))"

definition peel_inv ::
  "binary_fuse8_t \<Rightarrow> nat \<Rightarrow> nat \<Rightarrow> u64 multiset \<Rightarrow> u64 multiset \<Rightarrow> nat set \<Rightarrow> peel \<Rightarrow> bool" where
  "peel_inv f cap n M0 M D st \<longleftrightarrow> D \<subseteq> {..<cap} \<and> tab_inv f cap 0 {} M D (p_tables st) \<and>
     q_inv f cap 0 {} M D (p_alone st) (Qsize st) \<and> stack_inv f n M0 M (p_order st) (p_found st) (stacksize st)"

lemma pend_empty [simp]: "pend h {} M i = M"
  by (simp add: pend_def)

section \<open>Taking a hash out of one slot\<close>

lemma queue_room:
  assumes "q_inv f cap h P M D al q" and "D \<subseteq> {..<cap}" and "D \<noteq> {}"
  shows "q < cap"
proof -
  have sub: "set (queued al q) \<subseteq> {..<cap} - D" using assms(1) by (auto simp: q_inv_def)
  have "card (set (queued al q)) = length (queued al q)" using assms(1) by (intro distinct_card) (simp add: q_inv_def)
  then have "q = card (set (queued al q))" using assms(1) by (simp add: q_inv_def queued_def)
  also have "\<dots> \<le> card ({..<cap} - D)" using sub by (intro card_mono) simp_all
  also have "\<dots> < cap"
  proof -
    have "{..<cap} - D \<subset> {..<cap}" using assms(2,3) by blast
    from psubset_card_mono [OF _ this] show ?thesis by simp
  qed
  finally show ?thesis .
qed

lemma drop_tables:
  assumes tab: "tab_inv f cap h P M D tb" and j: "j < cap" "j \<in> P" "j \<notin> D" "touches f h j"
  shows "del_slot j (role f h j) h tb = Some ((fst tb)[j := (fst tb ! j - 4) XOR role f h j], (snd tb)[j := snd tb ! j XOR h])"
    and "tab_inv f cap h (P - {j}) M D ((fst tb)[j := (fst tb ! j - 4) XOR role f h j], (snd tb)[j := snd tb ! j XOR h])"
proof -
  have s: "sized cap (fst tb, snd tb)" using tab by (simp add: tab_inv_def)
  show "del_slot j (role f h j) h tb = Some ((fst tb)[j := (fst tb ! j - 4) XOR role f h j], (snd tb)[j := snd tb ! j XOR h])"
    using del_slot_eq [OF s j(1), of "role f h j" h] by simp
  have "rep_at f M j ((fst tb ! j - 4) XOR role f h j) (snd tb ! j XOR h)"
    using tab j by (intro rep_del) (auto simp: tab_inv_def pend_def)
  moreover have "size (touching f M j) < 64" using tab j by (auto simp: tab_inv_def pend_def split: if_splits)
  ultimately show "tab_inv f cap h (P - {j}) M D ((fst tb)[j := (fst tb ! j - 4) XOR role f h j], (snd tb)[j := snd tb ! j XOR h])"
    using tab j s by (auto simp: tab_inv_def pend_def sized_def nth_list_update)
qed

lemma drop_queue:
  assumes q: "q_inv f cap h P M D al q" and tab: "tab_inv f cap h P M D tb" and "q < cap"
    and j: "unat other = j" "j < cap" "j \<in> P" "j \<notin> D" "touches f h j"
  shows "q_inv f cap h (P - {j}) M D (al[q := other]) (q + (if drop_bit 2 (fst tb ! j) = 2 then 1 else 0))"
proof -
  have le: "size (touching f (pend h (P - {j}) M i) i) \<le> size (touching f (pend h P M i) i)" for i
    by (auto simp: pend_def)
  have len: "length al = cap" using q by (simp add: q_inv_def)
  show ?thesis
  proof (cases "drop_bit 2 (fst tb ! j) = 2")
    case False
    have "queued (al[q := other]) q = queued al q" by (simp add: queued_def)
    with q False le show ?thesis by (auto simp: q_inv_def intro: order.trans)
  next
    case True
    have "size (touching f (add_mset h M) j) < 64" and "rep_at f (add_mset h M) j (fst tb ! j) (snd tb ! j)"
      using tab j by (auto simp: tab_inv_def pend_def)
    then have two: "size (touching f (add_mset h M) j) = 2" using True by (simp add: rep_at_def)
    then have "j \<notin> set (queued al q)" using q j(3) by (auto simp: q_inv_def pend_def)
    moreover have "queued (al[q := other]) (q + 1) = queued al q @ [j]"
      using assms(3) len j(1) by (simp add: queued_def take_Suc_conv_app_nth)
    moreover have "size (touching f M j) = 1" using two j(5) by simp
    ultimately show ?thesis
      using q True le j(2,4) assms(3) by (auto simp: q_inv_def pend_def intro: order.trans)
  qed
qed

lemma drop_other_step:
  assumes tab: "tab_inv f cap h P M D (p_tables st)" and q: "q_inv f cap h P M D (p_alone st) (Qsize st)"
    and D: "D \<subseteq> {..<cap}" "D \<noteq> {}"
    and other: "rd_at (h012 f h) (unat found + unat d) = Some other" "unat other = j" "fuse_mod3 (found + d) = role f h j"
    and j: "j < cap" "j \<in> P" "j \<notin> D" "touches f h j"
  shows "\<exists>tb al q'. drop_other f h found d st = Some (st\<lparr>p_alone := al, Qsize := q', p_tables := tb\<rparr>) \<and>
     tab_inv f cap h (P - {j}) M D tb \<and> q_inv f cap h (P - {j}) M D al q' \<and> q' \<le> Qsize st + 1"
proof -
  have room: "Qsize st < cap" by (rule queue_room [OF q D])
  have "length (p_alone st) = cap" "length (fst (p_tables st)) = cap"
    using q tab by (auto simp: q_inv_def tab_inv_def sized_def split_beta)
  then have "drop_other f h found d st = Some (st\<lparr>p_alone := (p_alone st)[Qsize st := other],
      Qsize := Qsize st + (if drop_bit 2 (fst (p_tables st) ! j) = 2 then 1 else 0),
      p_tables := ((fst (p_tables st))[j := (fst (p_tables st) ! j - 4) XOR role f h j],
        (snd (p_tables st))[j := snd (p_tables st) ! j XOR h])\<rparr>)"
    using room other j(1) drop_tables(1) [OF tab j]
    by (simp add: drop_other_def rd_at_def wr_at_def)
  moreover note drop_tables(2) [OF tab j] drop_queue [OF q tab room other(2) j]
  moreover have "Qsize st + (if drop_bit 2 (fst (p_tables st) ! j) = 2 then 1 else 0) \<le> Qsize st + 1" by simp
  ultimately show ?thesis by blast
qed

section \<open>One step of the peeling\<close>

text \<open>The two other slots of a hash found in the role \<open>r\<close>, in the order of \<open>h012\<close>.\<close>

lemma others:
  assumes g: "geometry j f" and r: "r \<in> {0, 1, 2}"
  shows "\<exists>o1 o2. rd_at (h012 f h) (unat r + unat (1 :: u8)) = Some o1 \<and> rd_at (h012 f h) (unat r + unat (2 :: u8)) = Some o2 \<and>
     fuse_mod3 (r + 1) = role f h (unat o1) \<and> fuse_mod3 (r + 2) = role f h (unat o2) \<and>
     {unat o1, unat o2} = {slot f h 0, slot f h 1, slot f h 2} - {slot f h (unat r)} \<and> unat o1 \<noteq> unat o2"
proof -
  note d = slots_distinct [OF g, of h]
  from r consider "r = 0" | "r = 1" | "r = 2" by blast
  then show ?thesis
    using d by cases (auto simp: h012_def rd_at_def slot_simps role_def fuse_mod3_def)
qed

lemma pop_single:
  assumes tab: "tab_inv f cap 0 {} M D (p_tables st)" and q: "q_inv f cap 0 {} M D (p_alone st) (Qsize st)"
    and pos: "0 < Qsize st" and index: "index = p_alone st ! (Qsize st - 1)"
  shows "unat index < cap" and "unat index \<notin> D"
    and "q_inv f cap 0 {} M D (p_alone st) (Qsize st - 1)"
    and "unat index \<notin> set (queued (p_alone st) (Qsize st - 1))"
    and "drop_bit 2 (fst (p_tables st) ! unat index) \<noteq> 1 \<or>
      (\<exists>h M'. M = add_mset h M' \<and> touches f h (unat index) \<and> touching f M' (unat index) = {#} \<and>
         snd (p_tables st) ! unat index = h \<and> fst (p_tables st) ! unat index AND 3 = role f h (unat index))"
proof -
  let ?i = "unat index"
  have "Qsize st \<le> length (p_alone st)" using q by (simp add: q_inv_def)
  then have split: "queued (p_alone st) (Qsize st) = queued (p_alone st) (Qsize st - 1) @ [?i]"
    using pos take_Suc_conv_app_nth [of "Qsize st - 1" "p_alone st"] by (simp add: queued_def index)
  then show i: "?i < cap" "?i \<notin> D" and "q_inv f cap 0 {} M D (p_alone st) (Qsize st - 1)"
    and "?i \<notin> set (queued (p_alone st) (Qsize st - 1))"
    using q by (auto simp: q_inv_def)
  have one: "size (touching f M ?i) \<le> 1" using q split by (simp add: q_inv_def)
  have rep: "rep_at f M ?i (fst (p_tables st) ! ?i) (snd (p_tables st) ! ?i)"
    using tab i by (auto simp: tab_inv_def)
  show "drop_bit 2 (fst (p_tables st) ! ?i) \<noteq> 1 \<or>
      (\<exists>h M'. M = add_mset h M' \<and> touches f h ?i \<and> touching f M' ?i = {#} \<and>
         snd (p_tables st) ! ?i = h \<and> fst (p_tables st) ! ?i AND 3 = role f h ?i)"
  proof (rule disjCI)
    assume "\<not> (\<exists>h M'. M = add_mset h M' \<and> touches f h ?i \<and> touching f M' ?i = {#} \<and>
         snd (p_tables st) ! ?i = h \<and> fst (p_tables st) ! ?i AND 3 = role f h ?i)"
    moreover have False if "size (touching f M ?i) = 1" and no: "\<not> (\<exists>h M'. M = add_mset h M' \<and> touches f h ?i \<and>
        touching f M' ?i = {#} \<and> snd (p_tables st) ! ?i = h \<and> fst (p_tables st) ! ?i AND 3 = role f h ?i)"
    proof -
      from size_1_singleton_mset [OF that(1)] obtain h where h: "touching f M ?i = {#h#}" ..
      then have "h \<in># M" "touches f h ?i" using touching_in [of h f M ?i] by simp_all
      from multi_member_split [OF this(1)] obtain M' where M: "M = add_mset h M'" ..
      with h \<open>touches f h ?i\<close> have "touching f M' ?i = {#}" by simp
      with no M h \<open>touches f h ?i\<close> rep show False by (auto simp: rep_at_def)
    qed
    ultimately have "size (touching f M ?i) = 0" using one by (metis le_eq_less_or_eq less_one)
    then have "unat (drop_bit 2 (fst (p_tables st) ! ?i)) = 0" using rep by (simp add: rep_at_def)
    then show "drop_bit 2 (fst (p_tables st) ! ?i) \<noteq> 1" by (metis unat_1 zero_neq_one)
  qed
qed

lemma stack_push:
  assumes stack: "stack_inv f n M0 (add_mset h M) ro rh s" and r: "unat r \<le> 2"
    and free: "touching f M (slot f h (unat r)) = {#}"
  shows "s < n" and "stack_inv f n M0 M (ro[s := h]) (rh[s := r]) (s + 1)"
proof -
  have len: "n \<le> length ro" "n \<le> length rh" "size M0 = n" "mset (take s ro) + add_mset h M = M0" "s \<le> n"
    using stack by (auto simp: stack_inv_def)
  have "length (take s ro) = s" using len(1,5) by simp
  then have "s + size (add_mset h M) = n" using arg_cong [OF len(4), of size] len(3) by simp
  then show "s < n" by simp
  have no: "\<not> touches f g (slot f h (unat r))" if "g \<in># M" for g
    using free that touching_in [of g f M "slot f h (unat r)"] by auto
  have "mset (take (s + 1) (ro[s := h])) + M = M0"
    using len \<open>s < n\<close> by (simp add: take_Suc_conv_app_nth)
  moreover have "unat (rh[s := r] ! k) \<le> 2 \<and>
      (\<forall>l < s + 1. k < l \<longrightarrow> \<not> touches f (ro[s := h] ! l) (slot f (ro[s := h] ! k) (unat (rh[s := r] ! k)))) \<and>
      (\<forall>g \<in># M. \<not> touches f g (slot f (ro[s := h] ! k) (unat (rh[s := r] ! k))))" if k: "k < s + 1" for k
  proof (cases "k = s")
    case True
    then show ?thesis using len \<open>s < n\<close> r no by simp
  next
    case False
    with k have "k < s" by simp
    then have old: "unat (rh ! k) \<le> 2" "\<And>l. l < s \<Longrightarrow> k < l \<Longrightarrow> \<not> touches f (ro ! l) (slot f (ro ! k) (unat (rh ! k)))"
      "\<And>g. g \<in># add_mset h M \<Longrightarrow> \<not> touches f g (slot f (ro ! k) (unat (rh ! k)))"
      using stack unfolding stack_inv_def by blast+
    then show ?thesis using \<open>k < s\<close> len \<open>s < n\<close> by (auto simp: less_Suc_eq)
  qed
  ultimately show "stack_inv f n M0 M (ro[s := h]) (rh[s := r]) (s + 1)"
    using len \<open>s < n\<close> by (simp add: stack_inv_def)
qed

lemma role_slot: "touches f h i \<Longrightarrow> geometry j f \<Longrightarrow> i = slot f h (unat (role f h i)) \<and> role f h i \<in> {0, 1, 2}"
  using slots_distinct [of j f h] by (auto simp: touches_def role_def)

text \<open>Before the hash is taken out of its other two slots.\<close>

lemma tab_pending:
  assumes g: "geometry j f" and tab: "tab_inv f cap 0 {} (add_mset h M) D tb" and i: "i < cap"
    and free: "touching f M i = {#}" and P: "P = {slot f h 0, slot f h 1, slot f h 2} - {i}"
    and t: "touches f h i"
  shows "tab_inv f cap h P M (insert i D) tb"
proof -
  have eq: "touching f (pend h P M k) k = touching f (add_mset h M) k" if "k \<noteq> i" for k
    using that by (auto simp: pend_def P touches_def)
  have rep: "rep_at f (pend h P M k) k c x = rep_at f (add_mset h M) k c x" if "k \<noteq> i" for k c x
    using eq [OF that] by (simp add: rep_at_def)
  have "size (touching f (pend h P M k) k) < 64" if "k < cap" for k
  proof (cases "k = i")
    case True
    then show ?thesis using free by (simp add: pend_def P)
  next
    case False
    then show ?thesis using eq [OF False] tab that unfolding tab_inv_def by (simp only: pend_empty)
  qed
  moreover have "\<forall>k \<in> insert i D. touching f M k = {#}"
    using tab free by (auto simp: tab_inv_def split: if_splits)
  ultimately show ?thesis using tab rep by (auto simp: tab_inv_def)
qed

lemma queue_pending:
  assumes q: "q_inv f cap 0 {} (add_mset h M) D al q" and i: "i \<notin> set (queued al q)"
    and P: "P = {slot f h 0, slot f h 1, slot f h 2} - {i}" and t: "touches f h i"
  shows "q_inv f cap h P M (insert i D) al q"
proof -
  have "touching f (pend h P M k) k = touching f (add_mset h M) k" if "k \<noteq> i" for k
    using that by (auto simp: pend_def P touches_def)
  with q i show ?thesis unfolding q_inv_def pend_empty by (metis insert_iff)
qed

lemma peel_step_inv:
  assumes g: "geometry j f" and cap: "cap = unat (ArrayLength f)"
    and inv: "peel_inv f cap n M0 M D st" and pos: "0 < Qsize st"
  shows "\<exists>st' M' D'. peel_step f st = Some st' \<and> peel_inv f cap n M0 M' D' st' \<and>
     Qsize st' + 3 * size M' < Qsize st + 3 * size M"
proof -
  have D: "D \<subseteq> {..<cap}" and tab: "tab_inv f cap 0 {} M D (p_tables st)"
    and q: "q_inv f cap 0 {} M D (p_alone st) (Qsize st)"
    and stack: "stack_inv f n M0 M (p_order st) (p_found st) (stacksize st)"
    using inv by (simp_all add: peel_inv_def)
  define index where "index = p_alone st ! (Qsize st - 1)"
  note pop = pop_single [OF tab q pos index_def]
  let ?i = "unat index" and ?c = "fst (p_tables st) ! unat index"
  have reads: "rd_at (p_alone st) (Qsize st - 1) = Some index" "rd_at (fst (p_tables st)) ?i = Some ?c"
    "rd_at (snd (p_tables st)) ?i = Some (snd (p_tables st) ! ?i)"
    using q tab pos pop(1) by (auto simp: rd_at_def index_def q_inv_def tab_inv_def sized_def split_beta)
  show ?thesis
  proof (cases "drop_bit 2 ?c = 1")
    case False
    then have "peel_step f st = Some (st\<lparr>Qsize := Qsize st - 1\<rparr>)" by (simp add: peel_step_def reads Let_def del: One_nat_def)
    moreover have "peel_inv f cap n M0 M D (st\<lparr>Qsize := Qsize st - 1\<rparr>)"
      using D tab pop(3) stack by (simp add: peel_inv_def)
    ultimately show ?thesis using pos by (intro exI [of _ "st\<lparr>Qsize := Qsize st - 1\<rparr>"] exI [of _ M] exI [of _ D]) simp
  next
    case True
    with pop(5) obtain h M' where M: "M = add_mset h M'" and t: "touches f h ?i" and free: "touching f M' ?i = {#}"
      and h: "snd (p_tables st) ! ?i = h" and r: "?c AND 3 = role f h ?i" by blast
    define P where "P = {slot f h 0, slot f h 1, slot f h 2} - {?i}"
    have role: "?i = slot f h (unat (role f h ?i))" "role f h ?i \<in> {0, 1, 2}" using role_slot [OF t g] by simp_all
    then have le: "unat (role f h ?i) \<le> 2" by auto
    note push = stack_push [OF stack [unfolded M] le, folded role(1), OF free]
    define st1 where "st1 = st\<lparr>Qsize := Qsize st - 1, p_found := (p_found st)[stacksize st := role f h ?i],
      p_order := (p_order st)[stacksize st := h], stacksize := stacksize st + 1\<rparr>"
    have D': "insert ?i D \<subseteq> {..<cap}" "insert ?i D \<noteq> {}" using D pop(1) by auto
    have tab1: "tab_inv f cap h P M' (insert ?i D) (p_tables st1)"
      using tab_pending [OF g tab [unfolded M] pop(1) free P_def t] by (simp add: st1_def)
    have q1: "q_inv f cap h P M' (insert ?i D) (p_alone st1) (Qsize st1)"
      using queue_pending [OF pop(3) [unfolded M] pop(4) P_def t] by (simp add: st1_def)
    from others [OF g role(2), of h] obtain o1 o2 where
      o1: "rd_at (h012 f h) (unat (role f h ?i) + unat (1 :: u8)) = Some o1" "fuse_mod3 (role f h ?i + 1) = role f h (unat o1)" and
      o2: "rd_at (h012 f h) (unat (role f h ?i) + unat (2 :: u8)) = Some o2" "fuse_mod3 (role f h ?i + 2) = role f h (unat o2)" and
      P: "{unat o1, unat o2} = P" "unat o1 \<noteq> unat o2" unfolding P_def role(1) [symmetric] by blast
    have mem: "x \<in> P \<Longrightarrow> x < cap \<and> touches f h x \<and> x \<noteq> ?i" for x
      using slot_less [OF g, of _ h] cap by (auto simp: P_def touches_def)
    have notD: "x \<in> P \<Longrightarrow> x \<notin> insert ?i D" for x
      using mem [of x] tab by (auto simp: tab_inv_def M split: if_splits)
    have in1: "unat o1 \<in> P" and in2: "unat o2 \<in> P - {unat o1}" using P by auto
    from drop_other_step [OF tab1 q1 D' o1(1) refl o1(2) _ in1 notD [OF in1]] mem [OF in1] obtain tb1 al1 n1 where
      d1: "drop_other f h (role f h ?i) 1 st1 = Some (st1\<lparr>p_alone := al1, Qsize := n1, p_tables := tb1\<rparr>)"
      and tab2: "tab_inv f cap h (P - {unat o1}) M' (insert ?i D) tb1"
      and q2: "q_inv f cap h (P - {unat o1}) M' (insert ?i D) al1 n1" and n1: "n1 \<le> Qsize st1 + 1" by blast
    define st2 where "st2 = st1\<lparr>p_alone := al1, Qsize := n1, p_tables := tb1\<rparr>"
    have "tab_inv f cap h (P - {unat o1}) M' (insert ?i D) (p_tables st2)"
      and "q_inv f cap h (P - {unat o1}) M' (insert ?i D) (p_alone st2) (Qsize st2)"
      using tab2 q2 by (simp_all add: st2_def)
    from drop_other_step [OF this D' o2(1) refl o2(2) _ in2 notD] mem in2 obtain tb2 al2 n2 where
      d2: "drop_other f h (role f h ?i) 2 st2 = Some (st2\<lparr>p_alone := al2, Qsize := n2, p_tables := tb2\<rparr>)"
      and tab3: "tab_inv f cap h (P - {unat o1} - {unat o2}) M' (insert ?i D) tb2"
      and q3: "q_inv f cap h (P - {unat o1} - {unat o2}) M' (insert ?i D) al2 n2" and n2: "n2 \<le> Qsize st2 + 1" by blast
    have none: "P - {unat o1} - {unat o2} = {}" using P by auto
    have stack_len: "stacksize st < length (p_found st)" "stacksize st < length (p_order st)"
      using push(1) stack by (auto simp: stack_inv_def)
    have run: "peel_step f st = Some (st2\<lparr>p_alone := al2, Qsize := n2, p_tables := tb2\<rparr>)"
      using True stack_len d1 d2
      by (simp add: peel_step_def reads wr_at_def h r Let_def del: One_nat_def flip: st1_def st2_def) 
    have "tab_inv f cap 0 {} M' (insert ?i D) tb2" and "q_inv f cap 0 {} M' (insert ?i D) al2 n2"
      using tab3 q3 unfolding none by (simp_all add: tab_inv_def q_inv_def)
    then have "peel_inv f cap n M0 M' (insert ?i D) (st2\<lparr>p_alone := al2, Qsize := n2, p_tables := tb2\<rparr>)"
      using D' push(2) by (simp add: peel_inv_def st2_def st1_def)
    moreover have "n2 + 3 * size M' < Qsize st + 3 * size M"
      using n1 n2 pos by (simp add: st1_def st2_def M)
    ultimately show ?thesis using run by (intro exI conjI) (assumption | simp)+
  qed
qed

section \<open>The whole phase\<close>

text \<open>Above the stack the array of hashes stays as it was.\<close>

definition stack_rest :: "u64 list \<Rightarrow> u64 list \<Rightarrow> nat \<Rightarrow> bool" where
  "stack_rest ro ro' s \<longleftrightarrow> length ro' = length ro \<and> drop s ro' = drop s ro"

lemma stack_rest_above: "stack_rest ro ro' s \<Longrightarrow> s \<le> n \<Longrightarrow> drop n ro' = drop n ro"
  unfolding stack_rest_def using drop_drop [of "n - s" s ro'] drop_drop [of "n - s" s ro] by simp

lemma stack_rest_trans: "stack_rest ro ro1 s1 \<Longrightarrow> s1 \<le> s2 \<Longrightarrow> stack_rest ro1 ro2 s2 \<Longrightarrow> stack_rest ro ro2 s2"
  using stack_rest_above [of ro ro1 s1 s2] by (simp add: stack_rest_def)

lemma peel_step_rest:
  assumes "peel_step f st = Some st'"
  shows "length (p_found st') = length (p_found st) \<and> stacksize st \<le> stacksize st' \<and>
     stack_rest (p_order st) (p_order st') (stacksize st')"
  using assms
  by (auto simp: peel_step_def drop_other_def wr_at_def stack_rest_def Let_def split: bind_splits if_splits)

lemma peel_loop_rest:
  "peel_loop f st = Some st' \<Longrightarrow> length (p_found st') = length (p_found st) \<and> stacksize st \<le> stacksize st' \<and>
     stack_rest (p_order st) (p_order st') (stacksize st')"
proof (rule peel_loop.raw_induct [where P = "\<lambda>f st st'. length (p_found st') = length (p_found st) \<and>
    stacksize st \<le> stacksize st' \<and> stack_rest (p_order st) (p_order st') (stacksize st')"])
  fix loop f st st'
  assume IH: "\<And>f st st'. loop f st = Some st' \<Longrightarrow> length (p_found st') = length (p_found st) \<and>
      stacksize st \<le> stacksize st' \<and> stack_rest (p_order st) (p_order st') (stacksize st')"
    and run: "(if Qsize st = 0 then Some st else Option.bind (peel_step f st) (loop f)) = Some st'"
  show "length (p_found st') = length (p_found st) \<and> stacksize st \<le> stacksize st' \<and>
      stack_rest (p_order st) (p_order st') (stacksize st')"
  proof (cases "Qsize st = 0")
    case True
    with run show ?thesis by (simp add: stack_rest_def)
  next
    case False
    with run obtain st1 where "peel_step f st = Some st1" "loop f st1 = Some st'"
      by (auto split: bind_splits)
    with IH [of f st1 st'] peel_step_rest [of f st st1] show ?thesis
      by (auto intro: stack_rest_trans)
  qed
qed

lemma peel_loop_ends:
  assumes g: "geometry j f" and cap: "cap = unat (ArrayLength f)"
  shows "peel_inv f cap n M0 M D st \<Longrightarrow> \<exists>st' M' D'. peel_loop f st = Some st' \<and> peel_inv f cap n M0 M' D' st' \<and> Qsize st' = 0"
proof (induction "Qsize st + 3 * size M" arbitrary: st M D rule: less_induct)
  case less
  show ?case
  proof (cases "Qsize st = 0")
    case True
    with less.prems show ?thesis by (subst peel_loop.simps) auto
  next
    case False
    with peel_step_inv [OF g cap less.prems] obtain st1 M1 D1 where
      step: "peel_step f st = Some st1" and inv: "peel_inv f cap n M0 M1 D1 st1"
      and smaller: "Qsize st1 + 3 * size M1 < Qsize st + 3 * size M" by auto
    from less.hyps [OF smaller inv] False step show ?thesis by (subst peel_loop.simps) simp
  qed
qed

lemma find_alone_queue:
  assumes "length cnt = cap" and "length al = cap" and "cap < 2 ^ 32"
  shows "m \<le> cap \<Longrightarrow> \<exists>al' q. find_alone cnt m al = Some (al', q) \<and> length al' = cap \<and> q \<le> m \<and>
     queued al' q = filter (\<lambda>i. drop_bit 2 (cnt ! i) = 1) [0..<m]"
proof (induction m)
  case 0
  then show ?case using assms(2) by (simp add: find_alone_def queued_def)
next
  case (Suc m)
  then obtain al1 q where run: "find_alone cnt m al = Some (al1, q)" and len: "length al1 = cap" "q \<le> m"
    and queue: "queued al1 q = filter (\<lambda>i. drop_bit 2 (cnt ! i) = 1) [0..<m]" by auto
  let ?one = "drop_bit 2 (cnt ! m) = 1"
  have un: "unat (of_nat m :: u32) = m" using Suc.prems assms(3) by (intro unat_of_nat_small) simp
  have "find_alone cnt (Suc m) al = Some (al1[q := of_nat m], q + (if ?one then 1 else 0))"
    using run len Suc.prems assms(1) by (simp add: find_alone_def foldM_append wr_at_def rd_at_def)
  moreover have "queued (al1[q := of_nat m]) (q + (if ?one then 1 else 0)) = filter (\<lambda>i. drop_bit 2 (cnt ! i) = 1) [0..<Suc m]"
    using queue len Suc.prems un by (simp add: queued_def take_Suc_conv_app_nth)
  ultimately show ?case using len by auto
qed

lemma peel_result:
  assumes g: "geometry j f" and cap: "cap = unat (ArrayLength f)"
    and tab: "sized cap tb" "rep_all f cap M tb" "\<forall>i < cap. size (touching f M i) < 64"
    and len: "length al = cap" "size M \<le> length rh" "size M \<le> length ro"
  shows "\<exists>al' q st'. find_alone (fst tb) cap al = Some (al', q) \<and>
     peel_loop f \<lparr>p_tables = tb, p_alone = al', Qsize = q, p_order = ro, p_found = rh, stacksize = 0\<rparr> = Some st' \<and>
     sized cap (p_tables st') \<and> length (p_alone st') = cap \<and> length (p_found st') = length rh \<and> stack_rest ro (p_order st') (stacksize st') \<and>
     (\<exists>M'. stack_inv f (size M) M M' (p_order st') (p_found st') (stacksize st'))"
proof -
  have "cap < 2 ^ 32" using cap unsigned_less [of "ArrayLength f", where 'a = nat] by simp
  moreover have "length (fst tb) = cap" using tab(1) by (auto simp: sized_def)
  ultimately obtain al' q where find: "find_alone (fst tb) cap al = Some (al', q)" and al': "length al' = cap" "q \<le> cap"
    and queue: "queued al' q = filter (\<lambda>i. drop_bit 2 (fst tb ! i) = 1) [0..<cap]"
    using find_alone_queue [of "fst tb" cap al cap] len(1) by auto
  have rep: "rep_at f M i (fst tb ! i) (snd tb ! i)" if "i < cap" for i
    using tab(2) that by (auto simp: rep_all_def split_beta)
  have "size (touching f M i) = 1" if "i < cap" "drop_bit 2 (fst tb ! i) = 1" for i
  proof -
    have "size (touching f M i) < 64" using tab(3) that(1) by blast
    with rep [OF that(1)] that(2) show ?thesis by (simp add: rep_at_def)
  qed
  then have "q_inv f cap 0 {} M {} al' q" using al' queue by (auto simp: q_inv_def)
  moreover have "tab_inv f cap 0 {} M {} tb" using tab(1,3) rep by (simp add: tab_inv_def)
  moreover have "stack_inv f (size M) M M ro rh 0" using len by (simp add: stack_inv_def)
  ultimately have "peel_inv f cap (size M) M M {}
      \<lparr>p_tables = tb, p_alone = al', Qsize = q, p_order = ro, p_found = rh, stacksize = 0\<rparr>"
    by (simp add: peel_inv_def)
  from peel_loop_ends [OF g cap this] obtain st' M' D' where
    run: "peel_loop f \<lparr>p_tables = tb, p_alone = al', Qsize = q, p_order = ro, p_found = rh, stacksize = 0\<rparr> = Some st'"
    and inv: "peel_inv f cap (size M) M M' D' st'" by blast
  from peel_loop_rest [OF run] find run inv show ?thesis
    by (auto simp: peel_inv_def tab_inv_def q_inv_def)
qed

section \<open>Assigning\<close>

definition tri :: "binary_fuse8_t \<Rightarrow> u8 list \<Rightarrow> u64 \<Rightarrow> u8" where
  "tri f fp h = fp ! slot f h 0 XOR fp ! slot f h 1 XOR fp ! slot f h 2"

lemma assign_one_ok:
  assumes g: "geometry j f" and len: "length fp = unat (ArrayLength f)" and r: "unat r \<le> 2"
  shows "\<exists>v. assign_one f h r fp = Some (fp[slot f h (unat r) := v]) \<and> tri f (fp[slot f h (unat r) := v]) h = fingerprint h"
proof -
  note d = slots_distinct [OF g, of h] and less = slot_less [OF g, of 0 h] slot_less [OF g, of 1 h] slot_less [OF g, of 2 h]
  have cancel: "(v XOR a XOR b) XOR a XOR b = v" "a XOR (v XOR b XOR a) XOR b = v" "a XOR b XOR v XOR a XOR b = v"
    for v a b :: u8 by (auto simp: bit_eq_iff bit_simps)
  from r consider "unat r = 0" | "unat r = 1" | "unat r = 2" by linarith
  then show ?thesis
  proof cases
    case 1
    then show ?thesis using d less len
      by (intro exI [of _ "fingerprint h XOR fp ! slot f h 1 XOR fp ! slot f h 2"])
        (simp add: assign_one_def rd_at_def wr_at_def slot_simps tri_def cancel Let_def del: One_nat_def)
  next
    case 2
    then show ?thesis using d less len
      by (intro exI [of _ "fingerprint h XOR fp ! slot f h 2 XOR fp ! slot f h 0"])
        (simp add: assign_one_def rd_at_def wr_at_def slot_simps tri_def cancel Let_def del: One_nat_def)
  next
    case 3
    then show ?thesis using d less len
      by (intro exI [of _ "fingerprint h XOR fp ! slot f h 0 XOR fp ! slot f h 1"])
        (simp add: assign_one_def rd_at_def wr_at_def slot_simps tri_def cancel Let_def del: One_nat_def)
  qed
qed

lemma tri_update: "\<not> touches f h i \<Longrightarrow> tri f (fp[i := v]) h = tri f fp h"
  by (auto simp: tri_def touches_def)

lemma assign_all_ok:
  assumes g: "geometry j f" and stack: "stack_inv f n M0 M ro rh n"
  shows "i \<le> n \<Longrightarrow> length fp = unat (ArrayLength f) \<Longrightarrow> (\<forall>k. i \<le> k \<and> k < n \<longrightarrow> tri f fp (ro ! k) = fingerprint (ro ! k)) \<Longrightarrow>
     \<exists>fp'. assign_all f ro rh i fp = Some fp' \<and> length fp' = length fp \<and> (\<forall>k < n. tri f fp' (ro ! k) = fingerprint (ro ! k))"
proof (induction i arbitrary: fp)
  case (Suc i)
  have len: "n \<le> length ro" "n \<le> length rh" using stack by (simp_all add: stack_inv_def)
  have "i < n" using Suc.prems(1) by simp
  then have r: "unat (rh ! i) \<le> 2" and above: "\<And>l. l < n \<Longrightarrow> i < l \<Longrightarrow> \<not> touches f (ro ! l) (slot f (ro ! i) (unat (rh ! i)))"
    using stack unfolding stack_inv_def by blast+
  from assign_one_ok [OF g Suc.prems(2) r, of "ro ! i"] obtain v where
    run: "assign_one f (ro ! i) (rh ! i) fp = Some (fp[slot f (ro ! i) (unat (rh ! i)) := v])"
    and here: "tri f (fp[slot f (ro ! i) (unat (rh ! i)) := v]) (ro ! i) = fingerprint (ro ! i)" by blast
  let ?fp = "fp[slot f (ro ! i) (unat (rh ! i)) := v]"
  have "tri f ?fp (ro ! k) = fingerprint (ro ! k)" if "i \<le> k" "k < n" for k
    using that here Suc.prems(3) tri_update [OF above] by (cases "k = i") simp_all
  with Suc.IH [of ?fp] Suc.prems \<open>i < n\<close> len run show ?case by (simp add: rd_at_def)
qed simp

end
