(* ===== verification/Fuse_Dedup.thy ===== *)
theory Fuse_Dedup
  imports Fuse_Populate "HOL-Library.Multiset"
begin

text \<open>
  Duplicate keys in the fuse builder. \<open>binary_fuse_sort_and_remove_dup\<close> hands the keys to the C
  library's \<open>qsort\<close> with a comparator that is no ordering, and then closes the gaps between
  neighbours that differ. Whatever order \<open>qsort\<close> leaves, as long as it leaves the same keys, the
  kept prefix holds every key at least once; nothing says that it holds it only once.
\<close>

section \<open>What \<open>qsort\<close> promises here\<close>

definition permutes_list :: "(u64 list \<Rightarrow> u64 list) \<Rightarrow> bool" where
  "permutes_list qsort \<longleftrightarrow> (\<forall>xs. mset (qsort xs) = mset xs)"

lemma permutes_listD:
  assumes "permutes_list qsort" shows "length (qsort xs) = length xs" "set (qsort xs) = set xs"
  using assms unfolding permutes_list_def by (metis size_mset, metis set_mset_mset)

section \<open>The loop over neighbours\<close>

lemma remove_dup_loop:
  assumes "m \<le> length ks" and "1 \<le> m"
  shows "\<exists>keys' j. foldM remove_dup_step [1..<m] (ks, 1) = Some (keys', j) \<and> 1 \<le> j \<and> j \<le> m \<and>
     length keys' = length ks \<and> drop (m - 1) keys' = drop (m - 1) ks \<and>
     set (take j keys') = set (take m ks) \<and> set (take m keys') = set (take m ks)"
  using assms(2,1)
proof (induction m rule: dec_induct)
  case base
  then show ?case by simp
next
  case (step m)
  then obtain keys' j where run: "foldM remove_dup_step [1..<m] (ks, 1) = Some (keys', j)"
    and j: "1 \<le> j" "j \<le> m" and len: "length keys' = length ks" and rest: "drop (m - 1) keys' = drop (m - 1) ks"
    and kept: "set (take j keys') = set (take m ks)" "set (take m keys') = set (take m ks)" by auto
  have m: "1 \<le> m" "m < length ks" using step by simp_all
  have at: "keys' ! i = ks ! i" if "m - 1 \<le> i" "i < length ks" for i
  proof -
    have "keys' ! i = drop (m - 1) keys' ! (i - (m - 1))" using that len by simp
    also have "\<dots> = ks ! i" unfolding rest using that by simp
    finally show ?thesis .
  qed
  have rest': "drop m keys' = drop m ks"
    using rest m(1) drop_drop [of 1 "m - 1" keys'] drop_drop [of 1 "m - 1" ks] by simp
  have reads: "rd_at keys' m = Some (ks ! m)" "rd_at keys' (m - 1) = Some (ks ! (m - 1))"
    using at m len by (simp_all add: rd_at_def)
  have more: "set (take (Suc m) xs) = insert (xs ! m) (set (take m xs))" if "m < length xs" for xs :: "u64 list"
    using that by (simp add: take_Suc_conv_app_nth)
  have all: "[1..<Suc m] = [1..<m] @ [m]" using m(1) by simp
  show ?case
  proof (cases "ks ! m = ks ! (m - 1)")
    case True
    have "m - 1 < length (take m ks)" and "take m ks ! (m - 1) = ks ! m" using m True by simp_all
    then have "ks ! m \<in> set (take m ks)" by (metis nth_mem)
    then have "set (take (Suc m) ks) = set (take m ks)" "set (take (Suc m) keys') = set (take m ks)"
      using more [of ks] more [of keys'] m len kept at [of m] by auto
    moreover have "remove_dup_step m (keys', j) = Some (keys', j)"
      using True by (simp add: remove_dup_step_def reads del: One_nat_def)
    then have "foldM remove_dup_step [1..<Suc m] (ks, 1) = Some (keys', j)"
      unfolding all foldM_append run by simp
    ultimately show ?thesis using j len kept rest' by simp
  next
    case False
    let ?keys = "keys'[j := ks ! m]"
    have "remove_dup_step m (keys', j) = Some (?keys, j + 1)"
      using False j m len by (simp add: remove_dup_step_def reads wr_at_def del: One_nat_def)
    then have "foldM remove_dup_step [1..<Suc m] (ks, 1) = Some (?keys, j + 1)"
      unfolding all foldM_append run by simp
    moreover have "set (take (j + 1) ?keys) = set (take (Suc m) ks)"
      using j m len kept(1) more [of ks] by (simp add: take_Suc_conv_app_nth)
    moreover have "set (take (Suc m) ?keys) = set (take (Suc m) ks)"
    proof
      have "set (take (Suc m) ?keys) \<subseteq> insert (ks ! m) (set (take (Suc m) keys'))"
        by (simp add: take_update_swap set_update_subset_insert)
      then show "set (take (Suc m) ?keys) \<subseteq> set (take (Suc m) ks)"
        using more [of ks] more [of keys'] m len kept(2) at [of m] by auto
      have "set (take (j + 1) ?keys) \<subseteq> set (take (Suc m) ?keys)" using j by (intro set_take_subset_set_take) simp
      then show "set (take (Suc m) ks) \<subseteq> set (take (Suc m) ?keys)" using calculation(2) by simp
    qed
    moreover have "drop m ?keys = drop m ks"
    proof (cases "j = m")
      case True
      then have "?keys = keys'" using at [of m] m by (metis diff_le_self list_update_id)
      then show ?thesis using rest' by simp
    next
      case False
      then show ?thesis using j rest' by simp
    qed
    ultimately show ?thesis using j len by simp
  qed
qed

lemma sort_and_remove_dup_ok:
  assumes q: "permutes_list qsort" and len: "1 \<le> len" "len \<le> length keys"
  shows "\<exists>keys' j. sort_and_remove_dup qsort keys len = Some (keys', j) \<and> 1 \<le> j \<and> j \<le> len \<and>
     length keys' = length keys \<and> drop len keys' = drop len keys \<and>
     set (take j keys') = set (take len keys) \<and> set (take len keys') = set (take len keys)"
proof -
  let ?ks = "qsort (take len keys) @ drop len keys"
  have ks: "length (qsort (take len keys)) = len" "set (qsort (take len keys)) = set (take len keys)"
    using permutes_listD [OF q, of "take len keys"] len(2) by simp_all
  then have "len \<le> length ?ks" "length ?ks = length keys" using len(2) by simp_all
  from remove_dup_loop [OF this(1) len(1)] obtain keys' j where
    run: "foldM remove_dup_step [1..<len] (?ks, 1) = Some (keys', j)" and j: "1 \<le> j" "j \<le> len"
    and keys': "length keys' = length ?ks" "drop (len - 1) keys' = drop (len - 1) ?ks"
    and kept: "set (take j keys') = set (take len ?ks)" "set (take len keys') = set (take len ?ks)" by blast
  have "drop len keys' = drop len ?ks"
    using keys'(2) len(1) drop_drop [of 1 "len - 1" keys'] drop_drop [of 1 "len - 1" ?ks] by simp
  then have "drop len keys' = drop len keys" using ks(1) by simp
  then show ?thesis
    using run j keys'(1) kept ks \<open>length ?ks = length keys\<close> by (simp add: sort_and_remove_dup_def)
qed

section \<open>Property\<close>

text \<open>Removing duplicates can miss them. The comparator takes keys with the same low 32 bits for
  equal and is not even antisymmetric, so \<open>qsort\<close> may leave two copies of a key apart: an order in
  which no key is greater than the next, from which \<open>binary_fuse_sort_and_remove_dup\<close> removes
  nothing.\<close>

theorem dedup_misses_duplicates:
  "fuse_cmpfunc 0x100000001 1 = 0 \<and> fuse_cmpfunc 0x80000000 0 < 0 \<and> fuse_cmpfunc 0 0x80000000 < 0 \<and>
   sorted_wrt (\<lambda>a b. fuse_cmpfunc a b \<le> 0) [1, 0x100000001, 1] \<and>
   sort_and_remove_dup (\<lambda>keys. keys) [1, 0x100000001, 1] 3 = Some ([1, 0x100000001, 1], 3)"
  by code_simp

end
