(* ===== verification/Fuse_Build.thy ===== *)
theory Fuse_Build
  imports Fuse_Peel Fuse_Dedup
begin

text \<open>
  The rounds of \<open>binary_fuse8_populate\<close> and the function as a whole: it always returns, whatever the
  outcome of the allocations and of the rounds, touches only its arrays, and when it reports
  success every key is found by \<open>binary_fuse8_contain\<close>.
\<close>

section \<open>Seeds\<close>

text \<open>The seed of the round \<open>i\<close>, from 0, and the state of the generator before it is drawn.\<close>

definition seed_state :: "nat \<Rightarrow> u64" where
  "seed_state i = ((snd \<circ> rng_splitmix64) ^^ i) 0x726b2b9d438b9d4d"

definition seed_at :: "nat \<Rightarrow> u64" where
  "seed_at i = fst (rng_splitmix64 (seed_state i))"

lemma seed_state_Suc: "rng_splitmix64 (seed_state i) = (s, c) \<Longrightarrow> seed_state (Suc i) = c"
  by (simp add: seed_state_def)

text \<open>The generator's states are evenly spaced and its output loses nothing of them, so the round
  in which a seed is drawn can be read off the seed.\<close>

lemma seed_state_eq: "seed_state i = 0x726b2b9d438b9d4d + of_nat i * 0x9e3779b97f4a7c15"
  by (induction i) (simp_all add: seed_state_def rng_splitmix64_def Let_def algebra_simps)

lemma inj_splitmix64: "inj (fst \<circ> rng_splitmix64)"
proof -
  have i1: "inj (\<lambda>h :: u64. h * 0xBF58476D1CE4E5B9)"
    by (rule inj_mult_unit [where d = "0x96de1b173f119089"]) simp
  have i2: "inj (\<lambda>h :: u64. h * 0x94D049BB133111EB)"
    by (rule inj_mult_unit [where d = "0x319642b2d24d8ec3"]) simp
  have eq: "fst \<circ> rng_splitmix64 = (\<lambda>h. h XOR drop_bit 31 h) \<circ> (\<lambda>h. h * 0x94D049BB133111EB) \<circ>
      (\<lambda>h. h XOR drop_bit 27 h) \<circ> (\<lambda>h. h * 0xBF58476D1CE4E5B9) \<circ> (\<lambda>h. h XOR drop_bit 30 h) \<circ> (\<lambda>h. h + 0x9E3779B97F4A7C15)"
    by (simp add: rng_splitmix64_def fun_eq_iff Let_def)
  have "inj (\<lambda>h :: u64. h + 0x9E3779B97F4A7C15)" by (rule injI) simp
  then show ?thesis unfolding eq by (intro inj_compose i1 i2 inj_xorshift) simp_all
qed

lemma seed_at_index:
  assumes "seed_at i = fst (rng_splitmix64 z)"
  shows "i mod 2 ^ 64 = unat ((z - 0x726b2b9d438b9d4d) * 0xf1de83e19937733d)"
proof -
  have "z = 0x726b2b9d438b9d4d + of_nat i * 0x9e3779b97f4a7c15"
    using injD [OF inj_splitmix64, of "seed_state i" z] assms by (simp add: seed_at_def seed_state_eq)
  then have "(z - 0x726b2b9d438b9d4d) * 0xf1de83e19937733d = of_nat i * (0x9e3779b97f4a7c15 * 0xf1de83e19937733d)"
    by (simp only: add_diff_cancel_left' mult.assoc)
  also have "(0x9e3779b97f4a7c15 * 0xf1de83e19937733d :: u64) = 1" by simp
  finally show ?thesis by (simp add: unsigned_of_nat take_bit_eq_mod)
qed

section \<open>The keys from round to round\<close>

text \<open>Different keys; or a \<open>qsort\<close> that only reorders and no key whose hash is zero, the mark of a
  free slot, in any round.\<close>

definition good_keys :: "(u64 list \<Rightarrow> u64 list) \<Rightarrow> u64 list \<Rightarrow> bool" where
  "good_keys qsort ks \<longleftrightarrow>
     distinct ks \<or> permutes_list qsort \<and> (\<forall>i \<in> {..<XOR_MAX_ITERATIONS}. - seed_at i \<notin> set ks)"

lemma good_keys_hash:
  assumes "good_keys qsort ks" and "\<not> distinct ks" and "i < XOR_MAX_ITERATIONS" and "k \<in> set ks"
  shows "mix_split k (seed_at i) \<noteq> 0"
  using assms by (auto simp: good_keys_def mix_split_zero)

text \<open>The array of keys \<open>kb\<close> and the number \<open>n\<close> still in use.\<close>

definition keys_inv :: "u64 list \<Rightarrow> nat \<Rightarrow> u64 list \<Rightarrow> nat \<Rightarrow> bool" where
  "keys_inv keys m kb n \<longleftrightarrow> n \<le> m \<and> m \<le> length keys \<and> length kb = length keys \<and> drop m kb = drop m keys \<and>
     set (take m kb) = set (take m keys) \<and> set (take n kb) = set (take m keys) \<and>
     (distinct (take m keys) \<longrightarrow> kb = keys \<and> n = m)"

lemma keys_inv_start: "m \<le> length keys \<Longrightarrow> keys_inv keys m keys m"
  by (simp add: keys_inv_def)

lemma keys_inv_dedup:
  assumes inv: "keys_inv keys m kb n" and q: "permutes_list qsort" and dup: "\<not> distinct (take m keys)" and "1 \<le> n"
  shows "\<exists>kb' j. sort_and_remove_dup qsort kb n = Some (kb', j) \<and> 1 \<le> j \<and> j \<le> n \<and> keys_inv keys m kb' j"
proof -
  have kb: "n \<le> m" "m \<le> length keys" "length kb = length keys" "drop m kb = drop m keys"
    "set (take m kb) = set (take m keys)" "set (take n kb) = set (take m keys)" using inv by (simp_all add: keys_inv_def)
  then have "n \<le> length kb" by simp
  from sort_and_remove_dup_ok [OF q assms(4) this] obtain kb' j where
    run: "sort_and_remove_dup qsort kb n = Some (kb', j)" and j: "1 \<le> j" "j \<le> n"
    and kb': "length kb' = length kb" "drop n kb' = drop n kb" "set (take j kb') = set (take n kb)"
      "set (take n kb') = set (take n kb)" by blast
  have "take m xs = take n xs @ take (m - n) (drop n xs)" for xs :: "u64 list"
    using kb(1) take_add [of n "m - n" xs] by simp
  then have "set (take m kb') = set (take m kb)" using kb'(2,4) by simp
  moreover have "drop m xs = drop (m - n) (drop n xs)" for xs :: "u64 list" using kb(1) by simp
  then have "drop m kb' = drop m kb" using kb'(2) by metis
  ultimately show ?thesis using run j kb kb' dup by (simp add: keys_inv_def)
qed

section \<open>One round\<close>

definition build_inv :: "binary_fuse8_t \<Rightarrow> nat \<Rightarrow> u64 list \<Rightarrow> nat \<Rightarrow> nat \<Rightarrow> build \<Rightarrow> bool" where
  "build_inv f bits keys m i st \<longleftrightarrow> keys_inv keys m (key_buf st) (unat (nkeys st)) \<and>
     (\<exists>tail. reverseOrder st = replicate (unat (nkeys st)) 0 @ tail \<and> tail \<noteq> [] \<and> hd tail \<noteq> 0) \<and>
     t2count st = replicate (unat (ArrayLength f)) 0 \<and> t2hash st = replicate (unat (ArrayLength f)) 0 \<and>
     length (alone st) = unat (ArrayLength f) \<and> unat (nkeys st) \<le> length (reverseH st) \<and> length (startPos st) = 2 ^ bits \<and>
     rng_splitmix64 (seed_state i) = (cur_seed st, rng_counter st)"

text \<open>What a successful round leaves: every key's hash on the stack, under the final seed.\<close>

definition hashes_on :: "binary_fuse8_t \<Rightarrow> u64 set \<Rightarrow> build \<Rightarrow> bool" where
  "hashes_on f H st \<longleftrightarrow> (\<exists>M. set_mset M = H \<and>
     stack_inv f (unat (nkeys st)) M {#} (reverseOrder st) (reverseH st) (unat (nkeys st)))"

definition built :: "binary_fuse8_t \<Rightarrow> u64 list \<Rightarrow> nat \<Rightarrow> build \<Rightarrow> bool" where
  "built f keys m st \<longleftrightarrow> (\<exists>n. keys_inv keys m (key_buf st) n) \<and>
     hashes_on f ((\<lambda>k. mix_split k (cur_seed st)) ` set (take m keys)) st"

lemma reseed_inv:
  assumes "keys_inv keys m (key_buf st) (unat (nkeys st))" and "length (alone st) = unat (ArrayLength f)"
    and "unat (nkeys st) \<le> length (reverseH st)" and "length (startPos st) = 2 ^ bits"
    and "unat (nkeys st) < length (reverseOrder st)" and "reverseOrder st ! unat (nkeys st) \<noteq> 0"
    and "rng_counter st = seed_state i"
  shows "build_inv f bits keys m i (reseed (ArrayLength f) st)"
proof -
  have "hd (drop (unat (nkeys st)) (reverseOrder st)) \<noteq> 0" using assms(5,6) by (simp add: hd_drop_conv_nth)
  then show ?thesis using assms by (simp add: reseed_def build_inv_def split_beta)
qed

lemma full_stack:
  assumes "stack_inv f n M0 M ro rh n"
  shows "M = {#}"
proof -
  have eq: "mset (take n ro) + M = M0" "size M0 = n" "n \<le> length ro" using assms by (simp_all add: stack_inv_def)
  from eq(1) have "size (mset (take n ro) + M) = size M0" by simp
  then have "size M = 0" using eq(2,3) by simp
  then show ?thesis by simp
qed

lemma stack_set:
  assumes stack: "stack_inv f (size M) M M' ro' rh s" and rest: "stack_rest ro ro' s"
    and M: "set_mset M = set (take n ro)" and i: "i < n" "n \<le> length ro"
  shows "ro' ! i \<in> set (take n ro)"
proof (cases "i < s")
  case True
  have "mset (take s ro') + M' = M" "s \<le> length ro'" using stack by (auto simp: stack_inv_def)
  then have "set (take s ro') \<subseteq> set_mset M" by auto
  moreover have "ro' ! i \<in> set (take s ro')" using True \<open>s \<le> length ro'\<close> by (auto simp: in_set_conv_nth intro: exI [of _ i])
  ultimately show ?thesis using M by blast
next
  case False
  have "xs ! i = drop s xs ! (i - s)" if "i < length xs" for xs :: "u64 list" using False that by simp
  from this [of ro'] this [of ro] have "ro' ! i = ro ! i" using rest i unfolding stack_rest_def by (metis less_le_trans)
  then show ?thesis using i by (auto simp: in_set_conv_nth intro: exI [of _ i])
qed

lemma of_nat_u32_eq: "a < 2 ^ 32 \<Longrightarrow> (of_nat a = (w :: u32)) = (a = unat w)"
  using unat_of_nat_small [of a, where 'a = 32] by auto

lemma distinct_hashes: "distinct (map (\<lambda>k. mix_split k seed) ks) = distinct ks"
  by (auto simp: distinct_map inj_on_def mix_split_inj)

lemma build_round_ok:
  assumes g: "geometry j f" and bits: "1 \<le> bits" "bits < 32"
    and m: "m < 2 ^ 32 - 1" and good: "good_keys qsort (take m keys)" and i: "i < XOR_MAX_ITERATIONS"
    and inv: "build_inv f bits keys m i st"
  shows "\<exists>ok st'. build_round qsort bits f st = Some (ok, st') \<and>
     (if ok then built f keys m st' else build_inv f bits keys m (Suc i) st')"
proof -
  define n where "n = unat (nkeys st)"
  let ?cap = "unat (ArrayLength f)" and ?hash = "\<lambda>k. mix_split k (cur_seed st)"
  have kinv: "keys_inv keys m (key_buf st) n"
    and st: "t2count st = replicate ?cap 0" "t2hash st = replicate ?cap 0" "length (alone st) = ?cap"
    "n \<le> length (reverseH st)" "length (startPos st) = 2 ^ bits"
    and rng: "rng_splitmix64 (seed_state i) = (cur_seed st, rng_counter st)" using inv by (simp_all add: build_inv_def n_def)
  from inv obtain tail where tail: "reverseOrder st = replicate n 0 @ tail" "tail \<noteq> []" "hd tail \<noteq> 0"
    by (auto simp: build_inv_def n_def)
  have seed: "seed_at i = cur_seed st" "seed_state (Suc i) = rng_counter st"
    using rng seed_state_Suc [OF rng] by (simp_all add: seed_at_def)
  have n: "n \<le> m" "n < 2 ^ 32 - 1" "n \<le> length (key_buf st)" and K: "set (take n (key_buf st)) = set (take m keys)"
    using kinv m by (auto simp: keys_inv_def)
  from place_keys_result [OF _ _ tail(2,3) bits st(5), of "nkeys st" "key_buf st" "cur_seed st", folded n_def, OF n(2,3)]
  obtain sp0 ro sp where
    place: "start_positions bits (nkeys st) (startPos st) = Some sp0"
      "place_keys bits (cur_seed st) (key_buf st) (nkeys st) (replicate n 0 @ tail, sp0) = Some (ro, sp)"
    and sp: "length sp = 2 ^ bits" and ro: "length ro = n + length tail" "drop n ro = tail"
      "mset (take n ro) = mset (map ?hash (take n (key_buf st)))" by blast
  have "set (take n ro) = ?hash ` set (take n (key_buf st))" using ro(3) by (metis set_map set_mset_mset)
  then have H: "set (take n ro) = ?hash ` set (take m keys)" using K by simp
  have "n \<le> length ro" using ro(1) by simp
  have same: "distinct (take n ro) = distinct (take n (key_buf st))"
    using mset_eq_imp_distinct_iff [OF ro(3)] by (simp only: distinct_hashes)
  from count_hashes_result [OF g refl, of "nkeys st" ro, folded n_def, OF \<open>n \<le> length ro\<close>] obtain tb dups err where
    count: "count_hashes f ro (nkeys st) (((replicate ?cap 0, replicate ?cap 0), 0), False) = Some ((tb, dups), err)"
    and tb: "sized ?cap tb" and ok: "\<not> err \<longrightarrow> count_inv f ?cap (take n ro) tb dups" by blast
  define st1 where "st1 = st\<lparr>startPos := sp, reverseOrder := ro, t2count := fst tb, t2hash := snd tb\<rparr>"
  have fields: "key_buf st1 = key_buf st" "nkeys st1 = nkeys st" "alone st1 = alone st" "reverseH st1 = reverseH st"
    "length (startPos st1) = 2 ^ bits" "cur_seed st1 = cur_seed st" "rng_counter st1 = rng_counter st" "reverseOrder st1 = ro"
    using sp by (simp_all add: st1_def)
  have above: "n < length ro'" "ro' ! n \<noteq> 0" if "stack_rest ro ro' s" "s \<le> n" for ro' s
  proof -
    have eq: "drop n ro' = tail" using stack_rest_above [OF that] ro(2) by simp
    then show "n < length ro'" using tail(2) by (metis drop_all not_le)
    then show "ro' ! n \<noteq> 0" using eq tail(3) by (metis hd_drop_conv_nth)
  qed
  show ?thesis
  proof (cases err)
    case True
    then have "build_round qsort bits f st = Some (False, reseed (ArrayLength f) st1)"
      by (simp add: build_round_def st tail(1) place count st1_def Let_def)
    moreover have "build_inv f bits keys m (Suc i) (reseed (ArrayLength f) st1)"
    proof (rule reseed_inv)
      show "unat (nkeys st1) < length (reverseOrder st1)" "reverseOrder st1 ! unat (nkeys st1) \<noteq> 0"
        using above [of ro 0] fields by (simp_all add: stack_rest_def n_def)
    qed (use kinv st fields seed in \<open>simp_all add: n_def\<close>)
    ultimately show ?thesis by (intro exI [of _ False]) simp
  next
    case False
    with ok have "count_inv f ?cap (take n ro) tb dups" by simp
    then obtain M k where M: "set_mset M = set (take n ro)" "size M + k = n" "distinct (take n ro) \<longrightarrow> k = 0" "dups = of_nat k"
      and rep: "rep_all f ?cap M tb" and small: "\<forall>i < ?cap. size (touching f M i) < 64"
      using \<open>n \<le> length ro\<close> by (auto elim!: count_invE)
    have "size M \<le> length (reverseH st)" "size M \<le> length ro" using M(2) st(4) \<open>n \<le> length ro\<close> by simp_all
    from peel_result [OF g refl tb rep small st(3) this] obtain al' q p M' where
      find: "find_alone (fst tb) ?cap (alone st) = Some (al', q)" and
      peel: "peel_loop f \<lparr>p_tables = tb, p_alone = al', Qsize = q, p_order = ro, p_found = reverseH st, stacksize = 0\<rparr> = Some p"
      and p: "length (p_alone p) = ?cap" "length (p_found p) = length (reverseH st)"
      and rest: "stack_rest ro (p_order p) (stacksize p)"
      and stack: "stack_inv f (size M) M M' (p_order p) (p_found p) (stacksize p)" by blast
    define st2 where "st2 = st1\<lparr>t2count := fst (p_tables p), t2hash := snd (p_tables p), alone := p_alone p,
                   reverseOrder := p_order p, reverseH := p_found p\<rparr>"
    have fields2: "key_buf st2 = key_buf st" "nkeys st2 = nkeys st" "alone st2 = p_alone p" "reverseH st2 = p_found p"
      "length (startPos st2) = 2 ^ bits" "cur_seed st2 = cur_seed st" "rng_counter st2 = rng_counter st" "reverseOrder st2 = p_order p"
      using fields by (simp_all add: st2_def)
    have s: "stacksize p \<le> size M" using stack by (simp add: stack_inv_def)
    have un: "unat (of_nat (stacksize p) :: u32) = stacksize p" "unat (of_nat k :: u32) = k"
      using s M(2) n(2) by (intro unat_of_nat_small; simp)+
    have "of_nat (stacksize p) + dups = nkeys st \<longleftrightarrow> stacksize p + k = n"
      using of_nat_u32_eq [of "stacksize p + k" "nkeys st"] s M(2,4) n(2) by (simp add: n_def)
    then have full: "of_nat (stacksize p) + dups = nkeys st \<longleftrightarrow> stacksize p = size M" using M(2) s by auto
    have pos: "0 < dups \<longleftrightarrow> 0 < k" using un(2) M(4) by (simp add: word_less_nat_alt)
    have run: "build_round qsort bits f st =
       (if stacksize p = size M then Some (True, st2\<lparr>nkeys := of_nat (stacksize p)\<rparr>)
        else Option.bind (if 0 < k then do { (keys, j) \<leftarrow> sort_and_remove_dup qsort (key_buf st) n; Some (keys, of_nat j :: u32) }
               else Some (key_buf st, nkeys st))
             (\<lambda>(keys, j). Some (False, reseed (ArrayLength f) (st2\<lparr>key_buf := keys, nkeys := j\<rparr>))))"
      using False full pos
      by (simp add: build_round_def st tail(1) place count find peel Let_def st2_def st1_def flip: n_def)
    show ?thesis
    proof (cases "stacksize p = size M")
      case True
      have "hashes_on f (?hash ` set (take m keys)) (st2\<lparr>nkeys := of_nat (stacksize p)\<rparr>)"
        unfolding hashes_on_def
      proof (intro exI [of _ M] conjI)
        have "stack_inv f (size M) M M' (p_order p) (p_found p) (size M)" using stack True by simp
        with full_stack [OF this] show "stack_inv f (unat (nkeys (st2\<lparr>nkeys := of_nat (stacksize p)\<rparr>))) M {#}
            (reverseOrder (st2\<lparr>nkeys := of_nat (stacksize p)\<rparr>)) (reverseH (st2\<lparr>nkeys := of_nat (stacksize p)\<rparr>))
            (unat (nkeys (st2\<lparr>nkeys := of_nat (stacksize p)\<rparr>)))"
          using un(1) True fields2 by simp
      qed (use M(1) H in simp)
      then have "built f keys m (st2\<lparr>nkeys := of_nat (stacksize p)\<rparr>)"
        using kinv fields2 by (auto simp: built_def)
      with run True show ?thesis by (intro exI [of _ True]) simp
    next
      case nf: False
      have end_inv: "build_inv f bits keys m (Suc i) (reseed (ArrayLength f) (st2\<lparr>key_buf := kb, nkeys := of_nat l\<rparr>))"
        if kb: "keys_inv keys m kb l" and l: "l = n \<or> l < n \<and> \<not> distinct (take m keys)" for kb l
      proof (rule reseed_inv)
        have "unat (of_nat l :: u32) = l" using l n(2) by (intro unat_of_nat_small) auto
        moreover have "l < length (p_order p) \<and> p_order p ! l \<noteq> 0"
        proof (cases "l = n")
          case True
          then show ?thesis using above [OF rest] s M(2) by simp
        next
          case False
          with l have less: "l < n" and dup: "\<not> distinct (take m keys)" by simp_all
          from stack_set [OF stack rest M(1) less \<open>n \<le> length ro\<close>] H obtain key where
            "key \<in> set (take m keys)" "p_order p ! l = mix_split key (seed_at i)" unfolding seed by blast
          moreover have "l < length (p_order p)" using less \<open>n \<le> length ro\<close> rest by (simp add: stack_rest_def)
          ultimately show ?thesis using good_keys_hash [OF good dup i] by simp
        qed
        ultimately show
          "unat (nkeys (st2\<lparr>key_buf := kb, nkeys := of_nat l\<rparr>)) < length (reverseOrder (st2\<lparr>key_buf := kb, nkeys := of_nat l\<rparr>))"
          "reverseOrder (st2\<lparr>key_buf := kb, nkeys := of_nat l\<rparr>) ! unat (nkeys (st2\<lparr>key_buf := kb, nkeys := of_nat l\<rparr>)) \<noteq> 0"
          "keys_inv keys m (key_buf (st2\<lparr>key_buf := kb, nkeys := of_nat l\<rparr>)) (unat (nkeys (st2\<lparr>key_buf := kb, nkeys := of_nat l\<rparr>)))"
          "unat (nkeys (st2\<lparr>key_buf := kb, nkeys := of_nat l\<rparr>)) \<le> length (reverseH (st2\<lparr>key_buf := kb, nkeys := of_nat l\<rparr>))"
          using kb l fields2 st(4) p by auto
      qed (use p fields2 seed in simp_all)
      show ?thesis
      proof (cases "0 < k")
        case False
        have "st2\<lparr>key_buf := key_buf st, nkeys := nkeys st\<rparr> = st2\<lparr>key_buf := key_buf st, nkeys := of_nat n\<rparr>"
          by (simp add: n_def)
        then show ?thesis using run nf False end_inv [OF kinv] by (intro exI [of _ False]) simp
      next
        case True
        then have dup: "\<not> distinct (take m keys)" using M(3) same kinv n(3) by (auto simp: keys_inv_def)
        with good have "permutes_list qsort" by (simp add: good_keys_def)
        from keys_inv_dedup [OF kinv this dup] True M(2) obtain kb' l where
          "sort_and_remove_dup qsort (key_buf st) n = Some (kb', l)" "l \<le> n" "keys_inv keys m kb' l" by auto
        then show ?thesis using run nf True end_inv [of kb' l] dup by (intro exI [of _ False]) (auto simp: le_less)
      qed
    qed
  qed
qed

lemma build_rounds_ok:
  assumes g: "geometry j f" and bits: "1 \<le> bits" "bits < 32"
    and keys: "m < 2 ^ 32 - 1" "good_keys qsort (take m keys)"
  shows "i + r \<le> XOR_MAX_ITERATIONS \<Longrightarrow> build_inv f bits keys m i st \<Longrightarrow>
     \<exists>ok st'. build_rounds r qsort bits f st = Some (ok, st') \<and>
     (if ok then built f keys m st' else build_inv f bits keys m (i + r) st')"
proof (induction r arbitrary: st i)
  case (Suc r)
  then have "i < XOR_MAX_ITERATIONS" by simp
  from build_round_ok [OF g bits keys this Suc.prems(2)] obtain ok st1 where
    run: "build_round qsort bits f st = Some (ok, st1)"
    and res: "if ok then built f keys m st1 else build_inv f bits keys m (Suc i) st1" by blast
  show ?case
  proof (cases ok)
    case True
    with run res show ?thesis by (intro exI [of _ True] exI [of _ st1]) simp
  next
    case False
    with res Suc.IH [of "Suc i" st1] Suc.prems(1) obtain ok2 st2 where
      "build_rounds r qsort bits f st1 = Some (ok2, st2)"
      "if ok2 then built f keys m st2 else build_inv f bits keys m (Suc i + r) st2" by auto
    with False run show ?thesis by (intro exI [of _ ok2] exI [of _ st2]) (auto split: if_splits)
  qed
qed auto

section \<open>The whole function\<close>

lemma seed_geometry [simp]: "geometry j (f\<lparr>Seed := s\<rparr>) = geometry j f"
  by (simp add: geometry_def)

lemma seed_slot [simp]: "slot (f\<lparr>Seed := s\<rparr>) h r = slot f h r" "slot (f\<lparr>Fingerprints := p\<rparr>) h r = slot f h r"
  by (simp_all add: slot_def fuse8_hash_def)

lemma block_bits_from:
  assumes "unat segs \<le> 2 ^ 31"
  shows "b < 32 \<Longrightarrow> \<exists>bits. block_bits b segs = Some bits \<and> b \<le> bits \<and> bits < 32"
proof (induction "32 - b" arbitrary: b rule: less_induct)
  case less
  show ?case
  proof (cases "push_bit b 1 < segs")
    case True
    have "b \<noteq> 31"
    proof
      assume "b = 31"
      with True assms show False by (simp add: word_less_nat_alt)
    qed
    with less have "\<exists>bits. block_bits (b + 1) segs = Some bits \<and> b + 1 \<le> bits \<and> bits < 32" by simp
    with True less.prems show ?thesis by (subst block_bits.simps) auto
  next
    case False
    with less.prems show ?thesis by (subst block_bits.simps) auto
  qed
qed

lemma block_bits_ok:
  assumes "geometry j f"
  shows "\<exists>bits. block_bits 1 (SegmentCount f) = Some bits \<and> 1 \<le> bits \<and> bits < 32"
proof (rule block_bits_from)
  have "2 \<le> j" using assms by (simp add: geometry_def)
  then have "(2 :: nat) ^ 2 \<le> 2 ^ j" by (intro power_increasing) simp_all
  then have "(unat (SegmentCount f) + 2) * 4 \<le> (unat (SegmentCount f) + 2) * 2 ^ j" by (intro mult_le_mono2) simp
  with geometryD(7) [OF assms] show "unat (SegmentCount f) \<le> 2 ^ 31" by simp
qed simp

text \<open>What the C library promises of the scratch blocks: their lengths.\<close>

definition mallocs_ok :: "mallocs \<Rightarrow> u32 \<Rightarrow> binary_fuse8_t \<Rightarrow> bool" where
  "mallocs_ok m sz f \<longleftrightarrow>
     (\<forall>al \<in> set_option (got_alone m). length al = unat (ArrayLength f)) \<and>
     (\<forall>rh \<in> set_option (got_reverseH m). length rh = unat sz) \<and>
     (\<forall>sp \<in> set_option (got_startPos m). \<forall>b \<in> set_option (block_bits 1 (SegmentCount f)). length sp = 2 ^ b)"

definition all_got :: "mallocs \<Rightarrow> bool" where
  "all_got m \<longleftrightarrow> got_reverseOrder m \<and> got_t2count m \<and> got_t2hash m \<and>
     got_alone m \<noteq> None \<and> got_reverseH m \<noteq> None \<and> got_startPos m \<noteq> None"

lemma populate_unready:
  assumes "table_of f fp" and "sz \<noteq> Size f \<or> \<not> all_got m"
  shows "fuse8_populate qsort m keys sz f =
    Some (False, f\<lparr>Seed := if sz = Size f then fst (rng_splitmix64 0x726b2b9d438b9d4d) else Seed f\<rparr>, keys)"
proof (cases "sz = Size f")
  case True
  obtain j where "geometry j f" using assms(1) by (auto simp: table_of_def)
  from block_bits_ok [OF this] obtain bits where "block_bits 1 (SegmentCount f) = Some bits" by blast
  with True assms(2) show ?thesis
    by (auto simp: fuse8_populate_def all_got_def split_beta Let_def split: option.split)
qed (simp add: fuse8_populate_def)

lemma populate_ready:
  assumes t: "table_of f fp" and "sz = Size f" and m: "all_got m" "mallocs_ok m sz f"
    and keys: "unat sz < 2 ^ 32 - 1" "unat sz \<le> length keys" "good_keys qsort (take (unat sz) keys)"
  shows "\<exists>ok s fp' kb n. fuse8_populate qsort m keys sz f = Some (ok, f\<lparr>Seed := s, Fingerprints := Some fp'\<rparr>, kb) \<and>
     keys_inv keys (unat sz) kb n \<and> length fp' = length fp \<and>
     (ok \<longrightarrow> (\<forall>k \<in> set (take (unat sz) keys). tri f fp' (mix_split k s) = fingerprint (mix_split k s)))"
proof -
  obtain j where g: "geometry j f" and fp: "Fingerprints f = Some fp" "length fp = unat (ArrayLength f)"
    using t by (auto simp: table_of_def)
  from block_bits_ok [OF g] obtain bits where bits: "block_bits 1 (SegmentCount f) = Some bits" "1 \<le> bits" "bits < 32" by blast
  from m obtain al rh sp where got: "got_alone m = Some al" "got_reverseH m = Some rh" "got_startPos m = Some sp"
    "got_reverseOrder m" "got_t2count m" "got_t2hash m" by (auto simp: all_got_def)
  with m(2) bits(1) have len: "length al = unat (ArrayLength f)" "length rh = unat sz" "length sp = 2 ^ bits"
    by (simp_all add: mallocs_ok_def)
  obtain s rng where rng: "rng_splitmix64 0x726b2b9d438b9d4d = (s, rng)" by (meson surj_pair)
  let ?f = "f\<lparr>Seed := s\<rparr>" and ?n = "unat sz"
  have g': "geometry j ?f" using g by simp
  have "unat (sz + 1) = unat sz + 1" using keys(1) by (simp add: unat_word_ariths take_bit_nat_eq_self)
  then have ro: "wr_at (replicate (unat (sz + 1)) (0 :: u64)) (unat sz) 1 = Some (replicate (unat sz) 0 @ [1])"
    by (simp add: wr_at_def list_update_append flip: replicate_append_same)
  let ?st = "\<lparr>reverseOrder = replicate (unat sz) 0 @ [1], alone = al, t2count = replicate (unat (ArrayLength f)) 0, reverseH = rh,
                  t2hash = replicate (unat (ArrayLength f)) 0, startPos = sp, key_buf = keys, nkeys = sz,
                  cur_seed = s, rng_counter = rng\<rparr>"
  have "build_inv ?f bits keys ?n 0 ?st" using len rng keys(2) by (simp add: build_inv_def keys_inv_start seed_state_def)
  from build_rounds_ok [OF g' bits(2,3) keys(1,3) _ this, of XOR_MAX_ITERATIONS] obtain ok st where
    rounds: "build_rounds XOR_MAX_ITERATIONS qsort bits ?f ?st = Some (ok, st)"
    and res: "if ok then built ?f keys ?n st else build_inv ?f bits keys ?n (0 + XOR_MAX_ITERATIONS) st" by auto
  let ?f' = "f\<lparr>Seed := cur_seed st\<rparr>"
  have run: "fuse8_populate qsort m keys sz f =
      (if \<not> ok then Some (False, ?f', key_buf st)
       else do { fp \<leftarrow> assign_all ?f' (reverseOrder st) (reverseH st) (unat (nkeys st)) fp;
                 Some (True, ?f'\<lparr>Fingerprints := Some fp\<rparr>, key_buf st) })"
    using assms(2) got bits(1) fp(1) ro rounds
    by (simp add: fuse8_populate_def rng Let_def)
  from res obtain n where kinv: "keys_inv keys ?n (key_buf st) n"
    by (auto simp: built_def build_inv_def split: if_splits)
  show ?thesis
  proof (cases ok)
    case False
    have "?f' = f\<lparr>Seed := cur_seed st, Fingerprints := Some fp\<rparr>" using fp(1) by (cases f) simp
    then show ?thesis using run False kinv
      by (intro exI [of _ False] exI [of _ "cur_seed st"] exI [of _ fp] exI [of _ "key_buf st"] exI [of _ n]) simp
  next
    case True
    let ?l = "unat (nkeys st)" and ?H = "(\<lambda>k. mix_split k (cur_seed st)) ` set (take ?n keys)"
    have "hashes_on ?f' ?H st"
      using res True by (simp add: built_def hashes_on_def stack_inv_def touches_def)
    then obtain M where M: "set_mset M = ?H" and stack: "stack_inv ?f' ?l M {#} (reverseOrder st) (reverseH st) ?l"
      unfolding hashes_on_def by blast
    have g'': "geometry j ?f'" using g by simp
    have "length fp = unat (ArrayLength ?f')" and "\<forall>k. ?l \<le> k \<and> k < ?l \<longrightarrow> tri ?f' fp (reverseOrder st ! k) = fingerprint (reverseOrder st ! k)"
      using fp(2) by auto
    from assign_all_ok [OF g'' stack order_refl this] obtain fp' where
      assign: "assign_all ?f' (reverseOrder st) (reverseH st) ?l fp = Some fp'" and "length fp' = length fp"
      and tri: "\<forall>k < ?l. tri ?f' fp' (reverseOrder st ! k) = fingerprint (reverseOrder st ! k)" by blast
    have "tri f fp' h = fingerprint h" if "h \<in> ?H" for h
    proof -
      have "mset (take ?l (reverseOrder st)) = M" and len: "?l \<le> length (reverseOrder st)"
        using stack by (simp_all add: stack_inv_def)
      with that M have "h \<in> set (take ?l (reverseOrder st))" by (metis set_mset_mset)
      then obtain i where "i < ?l" "reverseOrder st ! i = h" using len by (auto simp: in_set_conv_nth)
      with tri show ?thesis by (auto simp: tri_def)
    qed
    with run True assign \<open>length fp' = length fp\<close> kinv show ?thesis
      by (intro exI [of _ True] exI [of _ "cur_seed st"] exI [of _ fp'] exI [of _ "key_buf st"] exI [of _ n]) simp
  qed
qed

section \<open>Properties\<close>

text \<open>C15: building a fuse filter always ends, and a filter that was built has no false negatives. For
  different keys and any \<open>qsort\<close>, or for keys with repetitions whose hashes are never zero and a
  \<open>qsort\<close> that only reorders, for every outcome of the six allocations and whatever a fresh block
  holds, \<open>binary_fuse8_populate\<close> returns after at most a hundred rounds without an access outside
  its arrays, leaves the same set of keys in the caller's array (untouched when they differ) and
  the shape of the filter as it was, and if it reports success \<open>binary_fuse8_contain\<close> accepts
  every key; with an allocation missing it reports failure.\<close>

theorem populate_no_false_negatives:
  assumes "table_of f fp" and "mallocs_ok m sz f"
    and "unat sz < 2 ^ 32 - 1" and "unat sz \<le> length keys" and "good_keys qsort (take (unat sz) keys)"
  shows "\<exists>ok f' fp' keys'. fuse8_populate qsort m keys sz f = Some (ok, f', keys') \<and>
     length keys' = length keys \<and> drop (unat sz) keys' = drop (unat sz) keys \<and>
     set (take (unat sz) keys') = set (take (unat sz) keys) \<and> (distinct (take (unat sz) keys) \<longrightarrow> keys' = keys) \<and>
     table_of f' fp' \<and> f' = f\<lparr>Seed := Seed f', Fingerprints := Some fp'\<rparr> \<and>
     (ok \<longrightarrow> sz = Size f \<and> all_got m \<and> (\<forall>k \<in> set (take (unat sz) keys). fuse8_contain k f' = Some True))"
proof (cases "sz = Size f \<and> all_got m")
  case True
  then obtain ok s fp' kb n where run: "fuse8_populate qsort m keys sz f = Some (ok, f\<lparr>Seed := s, Fingerprints := Some fp'\<rparr>, kb)"
    and kinv: "keys_inv keys (unat sz) kb n" and len: "length fp' = length fp"
    and tri: "ok \<longrightarrow> (\<forall>k \<in> set (take (unat sz) keys). tri f fp' (mix_split k s) = fingerprint (mix_split k s))"
    using populate_ready [OF assms(1) _ _ assms(2-5)] by blast
  let ?f = "f\<lparr>Seed := s, Fingerprints := Some fp'\<rparr>"
  have t: "table_of ?f fp'" using assms(1) len by (auto simp: table_of_def geometry_def)
  have "fuse8_contain k ?f = Some True" if "tri f fp' (mix_split k s) = fingerprint (mix_split k s)" for k
    using that by (simp add: contain_eq [OF t] tri_def)
  with run t tri True kinv show ?thesis
    by (intro exI [of _ ok] exI [of _ ?f] exI [of _ fp'] exI [of _ kb]) (auto simp: keys_inv_def)
next
  case False
  then obtain s where "fuse8_populate qsort m keys sz f = Some (False, f\<lparr>Seed := s\<rparr>, keys)"
    using populate_unready [OF assms(1), of sz m qsort keys] by blast
  moreover have "table_of (f\<lparr>Seed := s\<rparr>) fp" using assms(1) by (simp add: table_of_def)
  moreover have "f\<lparr>Seed := s\<rparr> = f\<lparr>Seed := s, Fingerprints := Some fp\<rparr>" using assms(1) by (cases f) (simp add: table_of_def)
  ultimately show ?thesis
    by (intro exI [of _ False] exI [of _ "f\<lparr>Seed := s\<rparr>"] exI [of _ fp] exI [of _ keys]) simp
qed

definition demo_fuse :: binary_fuse8_t where
  "demo_fuse = \<lparr>Seed = 0, Size = 3, SegmentLength = 4, SegmentLengthMask = 3, SegmentCount = 1,
     SegmentCountLength = 4, ArrayLength = 12, Fingerprints = Some (replicate 12 0)\<rparr>"

definition demo_mallocs :: mallocs where
  "demo_mallocs = \<lparr>got_reverseOrder = True, got_alone = Some (replicate 12 7), got_t2count = True,
     got_reverseH = Some (replicate 3 9), got_t2hash = True, got_startPos = Some (replicate 2 5)\<rparr>"

lemma demo_succeeds: "map_option fst (fuse8_populate sort demo_mallocs [10, 20, 10] 3 demo_fuse) = Some True"
  by code_simp

lemma demo_seeds: "\<forall>i \<in> {..<XOR_MAX_ITERATIONS}. - seed_at i \<notin> {10, 20}"
proof (intro ballI notI)
  fix i :: nat assume i: "i \<in> {..<XOR_MAX_ITERATIONS}" and bad: "- seed_at i \<in> {10, 20}"
  have "fst (rng_splitmix64 0xd9a2176c219ef1f6) = - 10" and "fst (rng_splitmix64 0x52f3080ecb071789) = - 20" by code_simp+
  moreover have "seed_at i = - 10 \<or> seed_at i = - 20" using bad by (auto simp: minus_equation_iff [of "seed_at i"])
  ultimately have "i mod 2 ^ 64 = 2813981581250795333 \<or> i mod 2 ^ 64 = 9069846381609948236"
    using seed_at_index [of i "0xd9a2176c219ef1f6"] seed_at_index [of i "0x52f3080ecb071789"] by auto
  then show False using i by (simp add: XOR_MAX_ITERATIONS_def)
qed

theorem populate_no_false_negatives_witness:
  "\<exists>f' kb. fuse8_populate sort demo_mallocs [10, 20, 10] 3 demo_fuse = Some (True, f', kb) \<and>
     fuse8_contain 20 f' = Some True \<and> fuse8_contain 10 f' = Some True"
proof -
  have "table_of demo_fuse (replicate 12 0)" by (auto simp: table_of_def demo_fuse_def geometry_def intro!: exI [of _ 2])
  moreover have "block_bits 1 1 = Some 1" by code_simp
  then have "mallocs_ok demo_mallocs 3 demo_fuse" by (simp add: mallocs_ok_def demo_mallocs_def demo_fuse_def)
  moreover have "good_keys sort (take (unat (3 :: u32)) [10, 20, 10])"
    using demo_seeds by (simp add: good_keys_def permutes_list_def)
  ultimately show ?thesis
    using populate_no_false_negatives [of demo_fuse "replicate 12 0" demo_mallocs 3 "[10, 20, 10]" sort] demo_succeeds
    by auto
qed

end
