(* ===== verification/Xorfuse.thy ===== *)
theory Xorfuse
  imports Fuse_Alloc Fuse_Build Fasthash_Copies
begin

text \<open>
  The shim of \<open>comparisons/bloom_xorfuse.c\<close> that gives the static binary fuse filter the interface
  of a Bloom filter: insertions collect hashes in a growing buffer, the first query builds the
  filter from them, and an insertion after that throws the built filter away. The structure behind
  a handle is a record; what the C library answers and leaves in fresh memory is the environment
  of a call, a record too, so that it may differ from call to call. The length and the capacity of
  the buffer count words of a block in memory, and the code doubles the capacity of a block that it
  holds, or the one that it needs for \<open>n\<close> keys that are in memory; they are \<open>nat\<close>, and a sum or a
  doubling that would wrap a \<open>size_t\<close>, past 2 to the 60 words, is outside the model. The shim's
  \<open>fasthash64_var\<close> is in \<open>Fasthash_Copies\<close>.
\<close>

section \<open>Definitions\<close>

definition xf_hash16 :: "u8 list \<Rightarrow> u64 option" where
  "xf_hash16 data = do {
     a \<leftarrow> rd_le 8 data 0;
     b \<leftarrow> rd_le 8 data 8;
     let r = (ucast (a :: u64) * ucast (b :: u64) :: u128);
     Some (ucast r XOR ucast (drop_bit 64 r)) }"

definition xf_bloom_hash :: "u8 list \<Rightarrow> nat \<Rightarrow> u64 option" where
  "xf_bloom_hash data len = (if len = 16 then xf_hash16 data else xf_fasthash64_var data len)"

record xf_t =
  fuse :: binary_fuse8_t
  buf :: "u64 list option"
  buf_len :: nat
  buf_cap :: nat
  built_flag :: bool

text \<open>
  \<open>fresh_words n\<close> is a new block of \<open>n\<close> words with what it happens to hold, or \<open>None\<close>;
  \<open>zeroed\<close> whether the \<open>calloc\<close> of the table succeeds; \<open>scratch\<close> the six allocations of the
  builder.
\<close>

record env =
  fresh_words :: "nat \<Rightarrow> u64 list option"
  zeroed :: bool
  scratch :: "binary_fuse8_t \<Rightarrow> mallocs"
  sorter :: "u64 list \<Rightarrow> u64 list"
  rounding :: "real \<Rightarrow> dbl"
  logarithm :: "dbl \<Rightarrow> dbl"

text \<open>\<open>x->buf = realloc(x->buf, cap * 8); x->buf_cap = cap\<close>, where \<open>cap\<close> is above the old capacity.\<close>

definition grow_buf :: "env \<Rightarrow> nat \<Rightarrow> xf_t \<Rightarrow> xf_t" where
  "grow_buf E cap x =
     x\<lparr>buf := (case fresh_words E cap of None \<Rightarrow> None
                | Some ws \<Rightarrow> Some (case buf x of None \<Rightarrow> ws | Some old \<Rightarrow> old @ drop (length old) ws)),
       buf_cap := cap\<rparr>"

definition buf_push :: "env \<Rightarrow> u64 \<Rightarrow> xf_t \<Rightarrow> xf_t option" where
  "buf_push E h x = do {
     let x = (if buf_len x = buf_cap x then grow_buf E (if buf_cap x \<noteq> 0 then buf_cap x * 2 else 1024) x else x);
     b \<leftarrow> buf x;
     b \<leftarrow> wr_at b (buf_len x) h;
     Some (x\<lparr>buf := Some b, buf_len := buf_len x + 1\<rparr>) }"

text \<open>The two calls of \<open>build\<close>, with the results that it ignores; a null buffer has no keys to read.\<close>

definition xf_populate :: "env \<Rightarrow> xf_t \<Rightarrow> (bool \<times> xf_t) option" where
  "xf_populate E x = do {
     (_, f) \<leftarrow> fuse8_allocate (rounding E) (logarithm E) (zeroed E) (of_nat (buf_len x)) (fuse x);
     b \<leftarrow> buf x;
     (ok, f, b) \<leftarrow> fuse8_populate (sorter E) (scratch E f) b (of_nat (buf_len x)) f;
     Some (ok, x\<lparr>fuse := f, buf := Some b\<rparr>) }"

definition xf_build :: "env \<Rightarrow> xf_t \<Rightarrow> xf_t option" where
  "xf_build E x =
     (if built_flag x then Some x
      else do {
        x \<leftarrow> (if buf_len x = 0 then do { x \<leftarrow> buf_push E 0 x; buf_push E 1 x } else Some x);
        (_, x) \<leftarrow> xf_populate E x;
        Some (x\<lparr>built_flag := True\<rparr>) })"

text \<open>\<open>got\<close> is whether the \<open>calloc\<close> of the structure succeeds; \<open>None\<close> stands for the null pointer.\<close>

definition zero_fuse :: binary_fuse8_t where
  "zero_fuse = \<lparr>Seed = 0, Size = 0, SegmentLength = 0, SegmentLengthMask = 0, SegmentCount = 0,
     SegmentCountLength = 0, ArrayLength = 0, Fingerprints = None\<rparr>"

definition xf_new :: "env \<Rightarrow> bool \<Rightarrow> size_t \<Rightarrow> xf_t option" where
  "xf_new E got nbits =
     (if \<not> got then None
      else
        let reserve = nbits div 21;
            reserve = (if reserve < 1024 then 1024 else reserve);
            b = fresh_words E (unat reserve)
        in Some \<lparr>fuse = zero_fuse, buf = b, buf_len = 0, buf_cap = (if b = None then 0 else unat reserve), built_flag = False\<rparr>)"

text \<open>The structure as it is when its own block is freed: what is still allocated there is lost.\<close>

definition xf_free :: "xf_t \<Rightarrow> xf_t" where
  "xf_free x = (let x = (if built_flag x then x\<lparr>fuse := fuse8_free (fuse x)\<rparr> else x) in x\<lparr>buf := None\<rparr>)"

definition unbuild :: "xf_t \<Rightarrow> xf_t" where
  "unbuild x = (if built_flag x then x\<lparr>fuse := fuse8_free (fuse x), built_flag := False\<rparr> else x)"

definition xf_insert_prehash :: "env \<Rightarrow> u64 \<Rightarrow> xf_t \<Rightarrow> xf_t option" where
  "xf_insert_prehash E h x = buf_push E h (unbuild x)"

definition xf_contains_prehash :: "env \<Rightarrow> u64 \<Rightarrow> xf_t \<Rightarrow> (bool \<times> xf_t) option" where
  "xf_contains_prehash E h x = do {
     x \<leftarrow> (if \<not> built_flag x then xf_build E x else Some x);
     r \<leftarrow> fuse8_contain h (fuse x);
     Some (r, x) }"

definition xf_insert :: "env \<Rightarrow> u8 list \<Rightarrow> nat \<Rightarrow> xf_t \<Rightarrow> xf_t option" where
  "xf_insert E key len x = do { h \<leftarrow> xf_bloom_hash key len; xf_insert_prehash E h x }"

definition xf_contains :: "env \<Rightarrow> u8 list \<Rightarrow> nat \<Rightarrow> xf_t \<Rightarrow> (bool \<times> xf_t) option" where
  "xf_contains E key len x = do { h \<leftarrow> xf_bloom_hash key len; xf_contains_prehash E h x }"

text \<open>\<open>while (new_cap < need) new_cap = new_cap ? new_cap * 2 : 1024\<close>.\<close>

function grown :: "nat \<Rightarrow> nat \<Rightarrow> nat" where
  "grown cap need = (if cap < need then grown (if cap \<noteq> 0 then cap * 2 else 1024) need else cap)"
  by pat_completeness auto
termination
  by (relation "measure (\<lambda>(cap, need). need - cap)") auto

declare grown.simps [simp del]

definition reserve_for :: "env \<Rightarrow> nat \<Rightarrow> xf_t \<Rightarrow> xf_t" where
  "reserve_for E n x =
     (if buf_cap x < buf_len x + n then grow_buf E (grown (buf_cap x) (buf_len x + n)) x else x)"

definition put_hash :: "nat \<Rightarrow> u64 \<Rightarrow> xf_t \<Rightarrow> xf_t option" where
  "put_hash i h x = do { b \<leftarrow> buf x; b \<leftarrow> wr_at b (buf_len x + i) h; Some (x\<lparr>buf := Some b\<rparr>) }"

definition xf_insert_bulk :: "env \<Rightarrow> u8 list \<Rightarrow> nat \<Rightarrow> nat \<Rightarrow> xf_t \<Rightarrow> xf_t option" where
  "xf_insert_bulk E keys klen n x = do {
     let x = reserve_for E n (unbuild x);
     x \<leftarrow> foldM (\<lambda>i x. do { h \<leftarrow> xf_bloom_hash (drop (i * klen) keys) klen; put_hash i h x }) [0..<n] x;
     xf_build E (x\<lparr>buf_len := buf_len x + n\<rparr>) }"

definition xf_insert_prehash_bulk :: "env \<Rightarrow> u64 list \<Rightarrow> nat \<Rightarrow> xf_t \<Rightarrow> xf_t option" where
  "xf_insert_prehash_bulk E hashes n x = do {
     let x = reserve_for E n (unbuild x);
     x \<leftarrow> foldM (\<lambda>i x. do { h \<leftarrow> rd_at hashes i; put_hash i h x }) [0..<n] x;
     xf_build E (x\<lparr>buf_len := buf_len x + n\<rparr>) }"

definition xf_contains_bulk :: "env \<Rightarrow> u8 list \<Rightarrow> nat \<Rightarrow> nat \<Rightarrow> xf_t \<Rightarrow> (nat \<times> xf_t) option" where
  "xf_contains_bulk E keys klen n x = do {
     x \<leftarrow> (if \<not> built_flag x then xf_build E x else Some x);
     hits \<leftarrow> foldM (\<lambda>i hits. do {
       h \<leftarrow> xf_bloom_hash (drop (i * klen) keys) klen;
       r \<leftarrow> fuse8_contain h (fuse x);
       Some (if r then hits + 1 else hits) }) [0..<n] 0;
     Some (hits, x) }"

definition xf_contains_prehash_bulk :: "env \<Rightarrow> u64 list \<Rightarrow> nat \<Rightarrow> xf_t \<Rightarrow> (nat \<times> xf_t) option" where
  "xf_contains_prehash_bulk E hashes n x = do {
     x \<leftarrow> (if \<not> built_flag x then xf_build E x else Some x);
     hits \<leftarrow> foldM (\<lambda>i hits. do {
       h \<leftarrow> rd_at hashes i;
       r \<leftarrow> fuse8_contain h (fuse x);
       Some (if r then hits + 1 else hits) }) [0..<n] 0;
     Some (hits, x) }"

section \<open>The buffer\<close>

text \<open>The hashes \<open>hs\<close> collected so far lie at the front of the buffer.\<close>

definition collected :: "u64 list \<Rightarrow> xf_t \<Rightarrow> bool" where
  "collected hs x \<longleftrightarrow> (\<exists>b. (buf x = Some b \<or> buf x = None \<and> b = []) \<and> length b = buf_cap x \<and>
     buf_len x = length hs \<and> length hs \<le> length b \<and> take (length hs) b = hs)"

definition words_ok :: "env \<Rightarrow> bool" where
  "words_ok E \<longleftrightarrow> (\<forall>n. \<exists>ws. fresh_words E n = Some ws \<and> length ws = n)"

text \<open>What the C library promises in a call, memory not running out.\<close>

definition env_ok :: "env \<Rightarrow> bool" where
  "env_ok E \<longleftrightarrow> words_ok E \<and> zeroed E \<and> (\<exists>r. rounds_with (rounding E) r) \<and> log_accurate (logarithm E) \<and>
     (\<forall>f. mallocs_ok (scratch E f) (Size f) f)"

lemma grow_collected:
  assumes E: "words_ok E" and x: "collected hs x" and cap: "buf_cap x \<le> cap"
  shows "collected hs (grow_buf E cap x)" and "buf_cap (grow_buf E cap x) = cap" and "buf_len (grow_buf E cap x) = buf_len x"
    and "built_flag (grow_buf E cap x) = built_flag x" and "fuse (grow_buf E cap x) = fuse x"
proof -
  obtain ws where ws: "fresh_words E cap = Some ws" "length ws = cap" using E by (auto simp: words_ok_def)
  obtain b where b: "buf x = Some b \<or> buf x = None \<and> b = []" "length b = buf_cap x" "buf_len x = length hs"
    "length hs \<le> length b" "take (length hs) b = hs" using x by (auto simp: collected_def)
  have "buf (grow_buf E cap x) = Some (b @ drop (length b) ws)" using b(1) ws by (auto simp: grow_buf_def)
  then show "collected hs (grow_buf E cap x)"
    using b ws cap by (auto simp: collected_def grow_buf_def)
qed (simp_all add: grow_buf_def)

lemma collected_update:
  assumes "collected hs x" and "length hs < buf_cap x"
  shows "\<exists>b. buf x = Some b \<and> wr_at b (length hs) h = Some (b[length hs := h]) \<and> take (length hs + 1) (b[length hs := h]) = hs @ [h] \<and>
     length b = buf_cap x"
proof -
  obtain b where b: "buf x = Some b \<or> buf x = None \<and> b = []" "length b = buf_cap x" "take (length hs) b = hs"
    using assms(1) by (auto simp: collected_def)
  with assms(2) have "buf x = Some b" by auto
  moreover have "take (length hs + 1) (b[length hs := h]) = hs @ [h]"
    using b(2,3) assms(2) by (simp add: take_Suc_conv_app_nth)
  ultimately show ?thesis using b(2) assms(2) by (simp add: wr_at_def)
qed

lemma push_collected:
  assumes E: "words_ok E" and x: "collected hs x"
  shows "\<exists>x'. buf_push E h x = Some x' \<and> collected (hs @ [h]) x' \<and> built_flag x' = built_flag x \<and> fuse x' = fuse x"
proof -
  let ?y = "if buf_len x = buf_cap x then grow_buf E (if buf_cap x \<noteq> 0 then buf_cap x * 2 else 1024) x else x"
  have len: "buf_len x = length hs" "length hs \<le> buf_cap x" using x by (auto simp: collected_def)
  have y: "collected hs ?y" "buf_len ?y = length hs" "built_flag ?y = built_flag x" "fuse ?y = fuse x" "length hs < buf_cap ?y"
    using x len grow_collected [OF E x, of "if buf_cap x \<noteq> 0 then buf_cap x * 2 else 1024"] by auto
  from collected_update [OF y(1,5), of h] obtain b where
    b: "buf ?y = Some b" "wr_at b (length hs) h = Some (b[length hs := h])" "take (length hs + 1) (b[length hs := h]) = hs @ [h]"
    "length b = buf_cap ?y" by blast
  have "buf_push E h x = Some (?y\<lparr>buf := Some (b[length hs := h]), buf_len := buf_len ?y + 1\<rparr>)"
    unfolding buf_push_def Let_def b(1) Option.bind.simps y(2) b(2) by (rule refl)
  moreover have "collected (hs @ [h]) (?y\<lparr>buf := Some (b[length hs := h]), buf_len := buf_len ?y + 1\<rparr>)"
    using b y(2,5) by (auto simp: collected_def)
  ultimately show ?thesis using y(3,4) by auto
qed

lemma unbuild_collected: "collected hs x \<Longrightarrow> collected hs (unbuild x) \<and> \<not> built_flag (unbuild x)"
  by (simp add: unbuild_def collected_def)

lemma inserts_collect:
  assumes "words_ok E"
  shows "collected gs x \<Longrightarrow> \<exists>x'. foldM (xf_insert_prehash E) hs x = Some x' \<and> collected (gs @ hs) x' \<and> (hs \<noteq> [] \<longrightarrow> \<not> built_flag x')"
proof (induction hs arbitrary: gs x)
  case (Cons h hs)
  from unbuild_collected [OF Cons.prems] push_collected [OF assms, of gs "unbuild x" h] obtain x1 where
    x1: "xf_insert_prehash E h x = Some x1" "collected (gs @ [h]) x1" "\<not> built_flag x1"
    by (auto simp: xf_insert_prehash_def)
  from Cons.IH [OF x1(2)] obtain x' where
    "foldM (xf_insert_prehash E) hs x1 = Some x'" "collected ((gs @ [h]) @ hs) x'" "hs \<noteq> [] \<longrightarrow> \<not> built_flag x'" by blast
  with x1(1,3) show ?case by (cases "hs = []") auto
qed auto

lemma grown_ge: "need \<le> grown cap need \<and> cap \<le> grown cap need"
proof (induction cap need rule: grown.induct)
  case (1 cap need)
  then show ?case by (subst (1 2) grown.simps) fastforce
qed

text \<open>A whole batch lands behind what is there already.\<close>

lemma puts_collect:
  "collected gs x \<Longrightarrow> length gs + k + length hs \<le> buf_cap x \<Longrightarrow>
     (\<exists>b. buf x = Some b \<and> take (length gs + k) b = gs @ ks) \<Longrightarrow> length ks = k \<Longrightarrow>
     \<exists>x'. foldM (\<lambda>(i, h). put_hash i h) (enumerate k hs) x = Some x' \<and> buf_len x' = length gs \<and> buf_cap x' = buf_cap x \<and>
       built_flag x' = built_flag x \<and> (\<exists>b. buf x' = Some b \<and> length b = buf_cap x \<and> take (length gs + k + length hs) b = gs @ ks @ hs)"
proof (induction hs arbitrary: x k ks)
  case Nil
  then show ?case by (auto simp: collected_def)
next
  case (Cons h hs)
  then obtain b where b: "buf x = Some b" "take (length gs + k) b = gs @ ks" "length b = buf_cap x" "buf_len x = length gs"
    by (auto simp: collected_def)
  let ?b = "b[length gs + k := h]"
  have put: "put_hash k h x = Some (x\<lparr>buf := Some ?b\<rparr>)" using b Cons.prems(2) by (simp add: put_hash_def wr_at_def)
  have snoc: "take (length gs + (k + 1)) ?b = gs @ (ks @ [h])"
    using b(2,3) Cons.prems(2) by (simp add: take_Suc_conv_app_nth)
  have "take (length gs) ?b = take (length gs) (take (length gs + (k + 1)) ?b)" by (simp add: min_def)
  then have "collected gs (x\<lparr>buf := Some ?b\<rparr>)"
    using b Cons.prems(1,2) unfolding snoc by (simp add: collected_def)
  from Cons.IH [OF this, of "k + 1" "ks @ [h]"] snoc Cons.prems(2,4) put show ?case by simp
qed

text \<open>A loop by index over a sequence of hashes puts them one behind the other.\<close>

lemma foldM_enumerate:
  "(\<And>i. i < length hs \<Longrightarrow> g (k + i) = put_hash (k + i) (hs ! i)) \<Longrightarrow>
     foldM g [k..<k + length hs] x = foldM (\<lambda>(i, h). put_hash i h) (enumerate k hs) x"
proof (induction hs arbitrary: k x)
  case (Cons h hs)
  have "g k = put_hash k h" using Cons.prems [of 0] by simp
  moreover have "g (Suc k + i) = put_hash (Suc k + i) (hs ! i)" if "i < length hs" for i
    using Cons.prems [of "Suc i"] that by simp
  from Cons.IH [of "Suc k", OF this]
  have "foldM g [Suc k..<Suc k + length hs] y = foldM (\<lambda>(i, h). put_hash i h) (enumerate (Suc k) hs) y" for y .
  moreover have "[k..<k + length (h # hs)] = k # [Suc k..<Suc k + length hs]" by (simp add: upt_rec del: upt_Suc)
  ultimately show ?case by (cases "put_hash k h x") (simp_all del: upt_Suc)
qed simp

lemma reserve_collected:
  assumes "words_ok E" and "collected gs x"
  shows "collected gs (reserve_for E n x)" and "length gs + n \<le> buf_cap (reserve_for E n x)"
    and "built_flag (reserve_for E n x) = built_flag x"
proof -
  have len: "buf_len x = length gs" using assms(2) by (auto simp: collected_def)
  note g = grown_ge [of "buf_len x + n" "buf_cap x"]
  show "collected gs (reserve_for E n x)" and "length gs + n \<le> buf_cap (reserve_for E n x)"
    and "built_flag (reserve_for E n x) = built_flag x"
    using assms len g grow_collected [OF assms, of "grown (buf_cap x) (buf_len x + n)"] by (auto simp: reserve_for_def)
qed

lemma batch_collects:
  assumes E: "words_ok E" and x: "collected gs x" and n: "length hs = n"
    and g: "\<And>i. i < n \<Longrightarrow> g i = put_hash i (hs ! i)"
  shows "\<exists>y. foldM g [0..<n] (reserve_for E n (unbuild x)) = Some y \<and>
     collected (gs @ hs) (y\<lparr>buf_len := buf_len y + n\<rparr>) \<and> \<not> built_flag y"
proof -
  let ?x = "reserve_for E n (unbuild x)"
  from unbuild_collected [OF x] have u: "collected gs (unbuild x)" "\<not> built_flag (unbuild x)" by simp_all
  note r = reserve_collected [OF E u(1), of n]
  have run: "foldM g [0..<n] ?x = foldM (\<lambda>(i, h). put_hash i h) (enumerate 0 hs) ?x"
    using foldM_enumerate [of hs g 0 ?x] g n by simp
  show ?thesis
  proof (cases "n = 0")
    case True
    with r(1,3) u(2) n show ?thesis by simp
  next
    case False
    with r obtain b where b: "buf ?x = Some b" "take (length gs) b = gs" by (auto simp: collected_def)
    with puts_collect [OF r(1), of 0 hs "[]"] r(2) n obtain y c where
      "foldM (\<lambda>(i, h). put_hash i h) (enumerate 0 hs) ?x = Some y" "buf_len y = length gs" "buf_cap y = buf_cap ?x"
      "built_flag y = built_flag ?x" "buf y = Some c" "length c = buf_cap ?x" "take (length gs + n) c = gs @ hs" by auto
    with run n r u(2) show ?thesis by (simp add: collected_def)
  qed
qed

section \<open>Building\<close>

text \<open>The builder may reorder the buffer when it finds duplicates; what is collected stays the same.\<close>

definition same_hashes :: "u64 list \<Rightarrow> u64 list \<Rightarrow> bool" where
  "same_hashes hs ks \<longleftrightarrow> length ks = length hs \<and> set ks = set hs \<and> (distinct hs \<longrightarrow> ks = hs)"

lemma same_hashes_refl [simp]: "same_hashes hs hs"
  by (simp add: same_hashes_def)

lemma populate_collected:
  assumes E: "env_ok E" and x: "collected hs x"
    and hs: "good_keys (sorter E) hs" "length hs \<le> 2 ^ 28" "buf x \<noteq> None"
  shows "\<exists>ok x' fp ks. xf_populate E x = Some (ok, x') \<and> collected ks x' \<and> same_hashes hs ks \<and> built_flag x' = built_flag x \<and>
     table_of (fuse x') fp \<and> Size (fuse x') = of_nat (length hs) \<and>
     (ok \<longrightarrow> (\<forall>h \<in> set hs. fuse8_contain h (fuse x') = Some True)) \<and>
     ((\<forall>f. \<not> all_got (scratch E f)) \<longrightarrow> \<not> ok \<and> Seed (fuse x') = fst (rng_splitmix64 0x726b2b9d438b9d4d) \<and> set fp \<subseteq> {0})"
proof -
  obtain b where b: "buf x = Some b" "length b = buf_cap x" "buf_len x = length hs" "length hs \<le> length b"
    "take (length hs) b = hs" using x hs(3) by (auto simp: collected_def)
  let ?sz = "of_nat (length hs) :: u32"
  have sz: "unat ?sz = length hs" using hs(2) by (intro unat_of_nat_small) simp
  obtain r where env: "rounds_with (rounding E) r" "log_accurate (logarithm E)" "zeroed E"
    and m: "\<And>f. mallocs_ok (scratch E f) (Size f) f" using E by (auto simp: env_ok_def)
  have "unat ?sz \<le> 2 ^ 28" using sz hs(2) by simp
  from allocate_eq [OF env(1,2) this, of True "fuse x"] obtain j f where
    alloc: "fuse8_allocate (rounding E) (logarithm E) (zeroed E) ?sz (fuse x) = Some (True, f)"
    and g: "geometry j f" "Size f = ?sz" "Fingerprints f = Some (replicate (unat (ArrayLength f)) 0)"
    using env(3) by auto
  let ?fp = "replicate (unat (ArrayLength f)) (0 :: u8)"
  have t: "table_of f ?fp" using g by (auto simp: table_of_def)
  have seeded: "table_of (f\<lparr>Seed := s\<rparr>) ?fp" for s using t by (simp add: table_of_def)
  have runs: "xf_populate E x = Some (ok, x\<lparr>fuse := f', buf := Some kb\<rparr>)"
    if "fuse8_populate (sorter E) (scratch E f) b ?sz f = Some (ok, f', kb)" for ok f' kb
    using that alloc b(1,3) by (simp add: xf_populate_def)
  show ?thesis
  proof (cases "all_got (scratch E f)")
    case False
    then have "fuse8_populate (sorter E) (scratch E f) b ?sz f = Some (False, f\<lparr>Seed := fst (rng_splitmix64 0x726b2b9d438b9d4d)\<rparr>, b)"
      using populate_unready [OF t, of ?sz] g(2) by simp
    from runs [OF this] seeded x b(1) g(2) show ?thesis
      by (intro exI [of _ False] exI [of _ "x\<lparr>fuse := _, buf := Some b\<rparr>"] exI [of _ ?fp] exI [of _ hs]) (auto simp: collected_def)
  next
    case True
    have "unat ?sz < 2 ^ 32 - 1" and "unat ?sz \<le> length b" and "good_keys (sorter E) (take (unat ?sz) b)"
      using sz hs(1,2) b(4,5) by simp_all
    from populate_ready [OF t g(2) [symmetric] True m [of f, unfolded g(2)] this] obtain ok s fp' kb n where
      run: "fuse8_populate (sorter E) (scratch E f) b ?sz f = Some (ok, f\<lparr>Seed := s, Fingerprints := Some fp'\<rparr>, kb)"
      and kb: "keys_inv b (length hs) kb n" and len: "length fp' = unat (ArrayLength f)"
      and tri: "ok \<longrightarrow> (\<forall>k \<in> set hs. tri f fp' (mix_split k s) = fingerprint (mix_split k s))"
      unfolding sz b(5) by auto
    let ?f = "f\<lparr>Seed := s, Fingerprints := Some fp'\<rparr>"
    have t': "table_of ?f fp'" using g(1) len by (auto simp: table_of_def geometry_def)
    have "ok \<longrightarrow> (\<forall>h \<in> set hs. fuse8_contain h ?f = Some True)" using tri by (simp add: contain_eq [OF t'] tri_def)
    moreover have "same_hashes hs (take (length hs) kb)" "length kb = length b"
      using kb b(5) by (auto simp: same_hashes_def keys_inv_def)
    then have "collected (take (length hs) kb) (x\<lparr>fuse := ?f, buf := Some kb\<rparr>)"
      using b(2-4) by (simp add: collected_def)
    ultimately show ?thesis
      using runs [OF run] t' True b(1) g(2) \<open>same_hashes hs (take (length hs) kb)\<close>
      by (intro exI [of _ ok] exI [of _ "x\<lparr>fuse := ?f, buf := Some kb\<rparr>"] exI [of _ fp'] exI [of _ "take (length hs) kb"]) auto
  qed
qed

text \<open>The state that the first query builds, and what it and later queries answer.\<close>

lemma query_builds:
  assumes "\<not> built_flag x" and "buf_len x \<noteq> 0" and "xf_populate E x = Some (ok, y)"
  shows "xf_contains_prehash E h x = map_option (\<lambda>r. (r, y\<lparr>built_flag := True\<rparr>)) (fuse8_contain h (fuse y))"
  using assms by (cases "fuse8_contain h (fuse y)") (simp_all add: xf_contains_prehash_def xf_build_def)

lemma query_built:
  "built_flag x \<Longrightarrow> xf_contains_prehash E h x = map_option (\<lambda>r. (r, x)) (fuse8_contain h (fuse x))"
  by (cases "fuse8_contain h (fuse x)") (simp_all add: xf_contains_prehash_def)

lemma new_collected:
  assumes "words_ok E" and "xf_new E True nbits = Some x"
  shows "collected [] x \<and> \<not> built_flag x \<and> fuse x = zero_fuse"
proof -
  obtain ws where "fresh_words E (unat (if nbits div 21 < 1024 then 1024 else nbits div 21)) = Some ws"
    "length ws = unat (if nbits div 21 < 1024 then 1024 else nbits div 21)" using assms(1) unfolding words_ok_def by blast
  with assms(2) show ?thesis by (auto simp: xf_new_def collected_def Let_def)
qed


lemma collected_buf: "collected hs x \<Longrightarrow> hs \<noteq> [] \<Longrightarrow> buf x \<noteq> None \<and> buf_len x \<noteq> 0"
  by (auto simp: collected_def)

text \<open>What a new handle is after a sequence of insertions, and what its first query builds.\<close>

lemma inserts_then_build:
  assumes E: "env_ok E" and new: "xf_new E True nbits = Some x0"
    and hs: "hs \<noteq> []" "good_keys (sorter E) hs" "length hs \<le> 2 ^ 28"
  obtains x ok y fp where "foldM (xf_insert_prehash E) hs x0 = Some x" and "\<not> built_flag x" and "buf_len x \<noteq> 0"
    and "xf_populate E x = Some (ok, y)" and "table_of (fuse y) fp"
    and "ok \<longrightarrow> (\<forall>h \<in> set hs. fuse8_contain h (fuse y) = Some True)"
    and "(\<forall>f. \<not> all_got (scratch E f)) \<longrightarrow> \<not> ok \<and> Seed (fuse y) = fst (rng_splitmix64 0x726b2b9d438b9d4d) \<and> set fp \<subseteq> {0}"
proof -
  have w: "words_ok E" using E by (simp add: env_ok_def)
  from inserts_collect [OF w, of "[]" x0 hs] new_collected [OF w new] hs(1) obtain x where
    x: "foldM (xf_insert_prehash E) hs x0 = Some x" "collected hs x" "\<not> built_flag x" by auto
  from collected_buf [OF x(2) hs(1)] populate_collected [OF E x(2) hs(2,3)] x that show thesis by blast
qed

section \<open>Properties\<close>

text \<open>A filter whose build succeeded has no false negatives. After inserting hashes
  into a new handle, different ones or ones the builder can sort and never maps to zero, none of
  which faults, the first query allocates and populates the filter
  without a fault; if the populate call reports success, this query and every later one answers
  true for every inserted hash, and later queries leave the handle as it is.\<close>

theorem xorfuse_no_false_negatives:
  assumes "env_ok E" and "xf_new E True nbits = Some x0"
    and "hs \<noteq> []" and "good_keys (sorter E) hs" and "length hs \<le> 2 ^ 28"
  shows "\<exists>x ok y. foldM (xf_insert_prehash E) hs x0 = Some x \<and> xf_populate E x = Some (ok, y) \<and>
     (ok \<longrightarrow> (\<forall>h \<in> set hs. xf_contains_prehash E h x = Some (True, y\<lparr>built_flag := True\<rparr>) \<and>
        xf_contains_prehash E h (y\<lparr>built_flag := True\<rparr>) = Some (True, y\<lparr>built_flag := True\<rparr>)))"
proof (rule inserts_then_build [OF assms])
  fix x ok y fp
  assume "foldM (xf_insert_prehash E) hs x0 = Some x" and "\<not> built_flag x" and "buf_len x \<noteq> 0"
    and "xf_populate E x = Some (ok, y)" and "ok \<longrightarrow> (\<forall>h \<in> set hs. fuse8_contain h (fuse y) = Some True)"
  then show ?thesis
    by (intro exI [of _ x] exI [of _ ok] exI [of _ y]) (simp add: query_builds query_built)
qed

text \<open>An environment in which the C library keeps its promises, every block coming zeroed.\<close>

definition calm_scratch :: "bool \<Rightarrow> binary_fuse8_t \<Rightarrow> mallocs" where
  "calm_scratch ok f =
     \<lparr>got_reverseOrder = ok, got_alone = Some (replicate (unat (ArrayLength f)) 0), got_t2count = True,
      got_reverseH = Some (replicate (unat (Size f)) 0), got_t2hash = True,
      got_startPos = map_option (\<lambda>b. replicate (2 ^ b) 0) (block_bits 1 (SegmentCount f))\<rparr>"

definition calm :: "bool \<Rightarrow> env" where
  "calm ok = \<lparr>fresh_words = (\<lambda>n. Some (replicate n 0)), zeroed = True, scratch = calm_scratch ok,
     sorter = sort, rounding = Fin, logarithm = (\<lambda>d. case d of Fin x \<Rightarrow> Fin (ln x) | _ \<Rightarrow> NaN)\<rparr>"

lemma calm_ok: "env_ok (calm ok)"
proof -
  have "\<exists>r. rounds_with Fin r" using rounds_with_exact by blast
  then show ?thesis
    by (auto simp: env_ok_def words_ok_def calm_def calm_scratch_def mallocs_ok_def intro: log_accurate_ln)
qed

lemma calm_new: "\<exists>x. xf_new (calm ok) True 0 = Some x"
  by (simp add: xf_new_def Let_def)

theorem xorfuse_no_false_negatives_witness:
  "\<exists>x0 x ok y. xf_new (calm True) True 0 = Some x0 \<and> foldM (xf_insert_prehash (calm True)) [10, 20] x0 = Some x \<and>
     xf_populate (calm True) x = Some (ok, y) \<and> (ok \<longrightarrow> xf_contains_prehash (calm True) 20 x = Some (True, y\<lparr>built_flag := True\<rparr>))"
proof -
  from calm_new obtain x0 where "xf_new (calm True) True 0 = Some x0" by blast
  then show ?thesis
    using xorfuse_no_false_negatives [OF calm_ok, of True 0 x0 "[10, 20]"] by (auto simp: good_keys_def)
qed

text \<open>C25: a failed build counts as a build. When the scratch memory of the populate call cannot be
  allocated, the first query marks the handle as built all the same, although the field is
  documented as set once the populate call has succeeded: the table stays zero, so this query and
  all later ones answer by whether the fingerprint of the hash happens to be zero, denying the
  inserted hashes that have another.\<close>

theorem xorfuse_failed_build_denies:
  assumes "env_ok E" and "\<forall>f. \<not> all_got (scratch E f)" and "xf_new E True nbits = Some x0"
    and "hs \<noteq> []" and "good_keys (sorter E) hs" and "length hs \<le> 2 ^ 28"
  shows "\<exists>x z. foldM (xf_insert_prehash E) hs x0 = Some x \<and> built_flag z \<and>
     (\<forall>h. let r = fingerprint (mix_split h (fst (rng_splitmix64 0x726b2b9d438b9d4d))) = 0 in
        xf_contains_prehash E h x = Some (r, z) \<and> (\<forall>E'. xf_contains_prehash E' h z = Some (r, z)))"
proof (rule inserts_then_build [OF assms(1,3-6)])
  fix x ok y fp
  assume x: "foldM (xf_insert_prehash E) hs x0 = Some x" "\<not> built_flag x" "buf_len x \<noteq> 0"
    "xf_populate E x = Some (ok, y)" and t: "table_of (fuse y) fp"
    and fail: "(\<forall>f. \<not> all_got (scratch E f)) \<longrightarrow>
      \<not> ok \<and> Seed (fuse y) = fst (rng_splitmix64 0x726b2b9d438b9d4d) \<and> set fp \<subseteq> {0}"
  obtain j where "geometry j (fuse y)" "length fp = unat (ArrayLength (fuse y))" using t by (auto simp: table_of_def)
  then have zero: "fp ! slot (fuse y) h r = 0" if "r \<le> 2" for h r
    using slot_less [of j "fuse y" r h] that fail assms(2) nth_mem [of "slot (fuse y) h r" fp] by fastforce
  have "fuse8_contain h (fuse y) = Some (fingerprint (mix_split h (fst (rng_splitmix64 0x726b2b9d438b9d4d))) = 0)" for h
    using zero fail assms(2) by (auto simp: contain_eq [OF t])
  with x show ?thesis
    by (intro exI [of _ x] exI [of _ "y\<lparr>built_flag := True\<rparr>"]) (simp add: query_builds query_built Let_def)
qed

lemma denied: "fingerprint (mix_split 10 (fst (rng_splitmix64 0x726b2b9d438b9d4d))) \<noteq> 0"
  by code_simp

theorem xorfuse_failed_build_denies_witness:
  "\<exists>x0 x z. xf_new (calm False) True 0 = Some x0 \<and> foldM (xf_insert_prehash (calm False)) [10, 20] x0 = Some x \<and>
     xf_contains_prehash (calm False) 10 x = Some (False, z) \<and> built_flag z"
proof -
  from calm_new obtain x0 where "xf_new (calm False) True 0 = Some x0" by blast
  moreover have "\<forall>f. \<not> all_got (scratch (calm False) f)" by (simp add: calm_def calm_scratch_def all_got_def)
  ultimately show ?thesis
    using xorfuse_failed_build_denies [OF calm_ok, of False 0 x0 "[10, 20]"] denied unfolding Let_def by (auto simp: good_keys_def)
qed

text \<open>A bulk insertion leaves exactly what the loop of single insertions leaves. Where the memory
  does not run out, both bulk insertions throw a built filter away, put the batch behind the hashes
  collected so far, in order, and go on to build the filter from all of them; the loop of single
  insertions collects the same hashes without building.\<close>

theorem xorfuse_bulk_collects:
  assumes "words_ok E" and "collected gs x" and "\<forall>i < n. xf_bloom_hash (drop (i * klen) keys) klen = Some (hs ! i)" and "length hs = n"
  shows "\<exists>y z. xf_insert_bulk E keys klen n x = xf_build E y \<and> xf_insert_prehash_bulk E hs n x = xf_build E y \<and>
     foldM (xf_insert_prehash E) hs x = Some z \<and> collected (gs @ hs) y \<and> collected (gs @ hs) z \<and> \<not> built_flag y"
proof -
  let ?g = "\<lambda>i x. do { h \<leftarrow> rd_at hs i; put_hash i h x }"
  let ?k = "\<lambda>i x. do { h \<leftarrow> xf_bloom_hash (drop (i * klen) keys) klen; put_hash i h x }"
  have g: "?g i = put_hash i (hs ! i)" if "i < n" for i using that assms(4) by (auto simp: rd_at_def)
  from batch_collects [OF assms(1,2,4) g] obtain y where
    y: "foldM ?g [0..<n] (reserve_for E n (unbuild x)) = Some y"
    "collected (gs @ hs) (y\<lparr>buf_len := buf_len y + n\<rparr>)" "\<not> built_flag y" by blast
  have "foldM ?k [0..<n] s = foldM ?g [0..<n] s" for s
    using assms(3,4) by (intro foldM_cong) (auto simp: rd_at_def)
  moreover from inserts_collect [OF assms(1,2), of hs] obtain z where
    "foldM (xf_insert_prehash E) hs x = Some z" "collected (gs @ hs) z" by blast
  ultimately show ?thesis using y
    by (intro exI [of _ "y\<lparr>buf_len := buf_len y + n\<rparr>"] exI [of _ z])
      (simp add: xf_insert_bulk_def xf_insert_prehash_bulk_def Let_def)
qed

theorem xorfuse_bulk_collects_witness:
  "\<exists>x y z. xf_new (calm True) True 0 = Some x \<and> xf_insert_bulk (calm True) [1, 2] 1 2 x = xf_build (calm True) y \<and>
     foldM (xf_insert_prehash (calm True)) [1070646937102484366, 407867109885196136] x = Some z \<and>
     collected [1070646937102484366, 407867109885196136] y"
proof -
  have E: "words_ok (calm True)" using calm_ok by (simp add: env_ok_def)
  from calm_new obtain x where x: "xf_new (calm True) True 0 = Some x" by blast
  then have "collected [] x" using new_collected [OF E] by blast
  moreover have "xf_bloom_hash [1, 2] 1 = Some 1070646937102484366" and "xf_bloom_hash [2] 1 = Some 407867109885196136"
    by code_simp+
  then have "\<forall>i < 2. xf_bloom_hash (drop (i * 1) [1, 2]) 1 = Some ([1070646937102484366, 407867109885196136] ! i)"
    by (auto simp: less_2_cases_iff)
  ultimately show ?thesis
    using xorfuse_bulk_collects [OF E, of "[]" x 2 1 "[1, 2]" "[1070646937102484366, 407867109885196136]"] x by auto
qed

section \<open>Who owns the table\<close>

text \<open>The states of a handle between two calls, each call in an environment of its own.\<close>

inductive xf_reach :: "xf_t \<Rightarrow> bool" where
  new: "xf_new E got nbits = Some x \<Longrightarrow> xf_reach x"
| insert_one: "xf_reach x \<Longrightarrow> xf_insert E key len x = Some y \<Longrightarrow> xf_reach y"
| insert_hash: "xf_reach x \<Longrightarrow> xf_insert_prehash E h x = Some y \<Longrightarrow> xf_reach y"
| insert_many: "xf_reach x \<Longrightarrow> xf_insert_bulk E keys klen n x = Some y \<Longrightarrow> xf_reach y"
| insert_hashes: "xf_reach x \<Longrightarrow> xf_insert_prehash_bulk E hashes n x = Some y \<Longrightarrow> xf_reach y"
| query_one: "xf_reach x \<Longrightarrow> xf_contains E key len x = Some (r, y) \<Longrightarrow> xf_reach y"
| query_hash: "xf_reach x \<Longrightarrow> xf_contains_prehash E h x = Some (r, y) \<Longrightarrow> xf_reach y"
| query_many: "xf_reach x \<Longrightarrow> xf_contains_bulk E keys klen n x = Some (c, y) \<Longrightarrow> xf_reach y"
| query_hashes: "xf_reach x \<Longrightarrow> xf_contains_prehash_bulk E hashes n x = Some (c, y) \<Longrightarrow> xf_reach y"

definition owned :: "xf_t \<Rightarrow> bool" where
  "owned x \<longleftrightarrow> built_flag x \<or> Fingerprints (fuse x) = None"

lemma owned_push: "owned x \<Longrightarrow> buf_push E h x = Some y \<Longrightarrow> owned y"
  by (auto simp: buf_push_def grow_buf_def owned_def Let_def split: bind_splits if_splits)

lemma owned_unbuild: "owned x \<Longrightarrow> owned (unbuild x)"
  by (auto simp: owned_def unbuild_def fuse8_free_def)

lemma build_built: "xf_build E x = Some y \<Longrightarrow> built_flag y"
  by (auto simp: xf_build_def split: bind_splits if_splits)

lemma owned_bulk: "owned x \<Longrightarrow> xf_insert_bulk E keys klen n x = Some y \<Longrightarrow> owned y"
  by (auto simp: xf_insert_bulk_def owned_def Let_def dest: build_built split: bind_splits)

lemma owned_prehash_bulk: "owned x \<Longrightarrow> xf_insert_prehash_bulk E hs n x = Some y \<Longrightarrow> owned y"
  by (auto simp: xf_insert_prehash_bulk_def owned_def Let_def dest: build_built split: bind_splits)

lemma owned_query: "xf_contains_prehash E h x = Some (r, y) \<Longrightarrow> owned y"
  by (auto simp: xf_contains_prehash_def owned_def dest: build_built split: bind_splits if_splits)

lemma owned_query_bulk:
  "xf_contains_prehash_bulk E hs n x = Some (r, y) \<Longrightarrow> owned y" "xf_contains_bulk E keys klen n x = Some (r, y) \<Longrightarrow> owned y"
  by (auto simp: xf_contains_prehash_bulk_def xf_contains_bulk_def owned_def dest: build_built split: bind_splits if_splits)

lemma reach_owned: "xf_reach x \<Longrightarrow> owned x"
proof (induction rule: xf_reach.induct)
  case (new E got nbits x)
  then show ?case by (auto simp: xf_new_def owned_def zero_fuse_def Let_def split: if_splits)
next
  case (insert_one x E key len y)
  then show ?case by (auto simp: xf_insert_def xf_insert_prehash_def split: bind_splits dest: owned_push [OF owned_unbuild])
next
  case (query_one x E key len r y)
  then show ?case by (auto simp: xf_contains_def split: bind_splits dest: owned_query)
qed (auto simp: xf_insert_prehash_def dest: owned_push [OF owned_unbuild] owned_bulk owned_prehash_bulk owned_query owned_query_bulk)

text \<open>C24: no table is lost. However a handle is used and whatever the C library answers in each call,
  a handle that is not marked as built holds no table, so the allocation of the next build never
  overwrites a pointer to a live one, and \<open>bloom_free\<close> leaves neither the table nor the buffer
  allocated.\<close>

theorem xorfuse_table_owned:
  assumes "xf_reach x"
  shows "(\<not> built_flag x \<longrightarrow> Fingerprints (fuse x) = None) \<and> Fingerprints (fuse (unbuild x)) = None \<and>
     Fingerprints (fuse (xf_free x)) = None \<and> buf (xf_free x) = None"
  using reach_owned [OF assms] by (auto simp: owned_def unbuild_def xf_free_def fuse8_free_def Let_def)

theorem xorfuse_table_owned_witness:
  "\<exists>x y. xf_new (calm True) True 0 = Some x \<and> xf_insert_prehash (calm True) 7 x = Some y \<and>
     buf y \<noteq> None \<and> buf (xf_free y) = None \<and> Fingerprints (fuse (xf_free y)) = None"
proof -
  have E: "words_ok (calm True)" using calm_ok by (simp add: env_ok_def)
  from calm_new obtain x where x: "xf_new (calm True) True 0 = Some x" by blast
  with inserts_collect [OF E, of "[]" x "[7]"] new_collected [OF E x] obtain y where
    y: "xf_insert_prehash (calm True) 7 x = Some y" "collected [7] y" by (auto split: bind_splits)
  from x y(1) have "xf_reach y" by (blast intro: xf_reach.intros)
  from xorfuse_table_owned [OF this] x y collected_buf [OF y(2)] show ?thesis by blast
qed

end
