(* ===== verification/Xorfuse_History.thy ===== *)
theory Xorfuse_History
  imports Xorfuse
begin

text \<open>
  A fuse filter handle over its whole life: insertions, one by one or in bulk, and queries in any
  order, each call in an environment of its own. The builder may reorder the buffer when keys are
  repeated, and a query of an empty handle puts two keys of its own there; the invariant says that
  the buffer holds exactly the hashes collected all the same, and that no call faults. This is under
  the promises of \<open>fair_env\<close>: the allocations of the buffer and of the table succeed, since the code
  checks neither (a failed \<open>realloc\<close> is a fault).
\<close>

section \<open>Histories\<close>

definition fair_env :: "env \<Rightarrow> bool" where
  "fair_env E \<longleftrightarrow> env_ok E \<and> permutes_list (sorter E)"

text \<open>Different hashes, or none that the builder's seeds map to zero.\<close>

definition good_hashes :: "u64 list \<Rightarrow> bool" where
  "good_hashes hs \<longleftrightarrow> distinct hs \<or> (\<forall>i \<in> {..<XOR_MAX_ITERATIONS}. - seed_at i \<notin> set hs)"

text \<open>What a build finds in the buffer: an empty one gets the keys 0 and 1.\<close>

definition built_from :: "u64 list \<Rightarrow> u64 list" where
  "built_from hs = (if hs = [] then [0, 1] else hs)"

inductive xf_hist :: "u64 list \<Rightarrow> xf_t \<Rightarrow> bool" where
  new: "fair_env E \<Longrightarrow> xf_new E True nbits = Some x \<Longrightarrow> xf_hist [] x"
| insert_one: "xf_hist hs x \<Longrightarrow> fair_env E \<Longrightarrow> xf_bloom_hash key len = Some h \<Longrightarrow> xf_insert E key len x = Some y \<Longrightarrow>
    xf_hist (hs @ [h]) y"
| insert_hash: "xf_hist hs x \<Longrightarrow> fair_env E \<Longrightarrow> xf_insert_prehash E h x = Some y \<Longrightarrow> xf_hist (hs @ [h]) y"
| insert_many: "xf_hist hs x \<Longrightarrow> fair_env E \<Longrightarrow> (\<forall>i < length gs. xf_bloom_hash (drop (i * klen) keys) klen = Some (gs ! i)) \<Longrightarrow>
    xf_insert_bulk E keys klen (length gs) x = Some y \<Longrightarrow> xf_hist (built_from (hs @ gs)) y"
| insert_hashes: "xf_hist hs x \<Longrightarrow> fair_env E \<Longrightarrow> xf_insert_prehash_bulk E gs (length gs) x = Some y \<Longrightarrow>
    xf_hist (built_from (hs @ gs)) y"
| query_one: "xf_hist hs x \<Longrightarrow> fair_env E \<Longrightarrow> xf_contains E key len x = Some (r, y) \<Longrightarrow> xf_hist (built_from hs) y"
| query_hash: "xf_hist hs x \<Longrightarrow> fair_env E \<Longrightarrow> xf_contains_prehash E h x = Some (r, y) \<Longrightarrow> xf_hist (built_from hs) y"
| query_many: "xf_hist hs x \<Longrightarrow> fair_env E \<Longrightarrow> xf_contains_bulk E keys klen n x = Some (c, y) \<Longrightarrow> xf_hist (built_from hs) y"
| query_hashes: "xf_hist hs x \<Longrightarrow> fair_env E \<Longrightarrow> xf_contains_prehash_bulk E gs n x = Some (c, y) \<Longrightarrow> xf_hist (built_from hs) y"

section \<open>The invariant\<close>

definition hist_inv :: "u64 list \<Rightarrow> xf_t \<Rightarrow> bool" where
  "hist_inv hs x \<longleftrightarrow> (\<exists>ks. collected ks x \<and> same_hashes hs ks) \<and>
     (built_flag x \<longrightarrow> hs \<noteq> [] \<and> (\<exists>fp. table_of (fuse x) fp))"

lemma good_prefix: "good_hashes (hs @ gs) \<Longrightarrow> good_hashes hs"
  by (auto simp: good_hashes_def)

lemma good_same: "good_hashes hs \<Longrightarrow> same_hashes hs ks \<Longrightarrow> good_hashes ks"
  by (auto simp: good_hashes_def same_hashes_def)

lemma good_sorted: "good_hashes hs \<Longrightarrow> fair_env E \<Longrightarrow> good_keys (sorter E) hs"
  by (auto simp: good_hashes_def good_keys_def fair_env_def)

lemma same_hashes_append: "same_hashes hs ks \<Longrightarrow> same_hashes (hs @ gs) (ks @ gs)"
  by (auto simp: same_hashes_def)

lemma same_hashes_trans: "same_hashes hs ks \<Longrightarrow> same_hashes ks ls \<Longrightarrow> same_hashes hs ls"
  by (auto simp: same_hashes_def)

lemma fair_words: "fair_env E \<Longrightarrow> words_ok E"
  by (simp add: fair_env_def env_ok_def)

text \<open>A build with something in the buffer.\<close>

lemma populate_inv:
  assumes E: "fair_env E" and x: "hist_inv hs x" "hs \<noteq> []" and hs: "good_hashes hs" "length hs \<le> 2 ^ 28"
  shows "\<exists>ok y. xf_populate E x = Some (ok, y) \<and> hist_inv hs (y\<lparr>built_flag := True\<rparr>) \<and> buf_len x \<noteq> 0 \<and>
     (\<exists>fp. table_of (fuse y) fp) \<and> (ok \<longrightarrow> (\<forall>h \<in> set hs. fuse8_contain h (fuse y) = Some True))"
proof -
  obtain ks where ks: "collected ks x" "same_hashes hs ks" using x(1) by (auto simp: hist_inv_def)
  then have len: "ks \<noteq> []" "length ks \<le> 2 ^ 28" using x(2) hs(2) by (auto simp: same_hashes_def)
  have "env_ok E" using E by (simp add: fair_env_def)
  from populate_collected [OF this ks(1) good_sorted [OF good_same [OF hs(1) ks(2)] E] len(2)] collected_buf [OF ks(1) len(1)]
  obtain ok y fp ls where y: "xf_populate E x = Some (ok, y)" "collected ls y" "same_hashes ks ls" "table_of (fuse y) fp"
    "ok \<longrightarrow> (\<forall>h \<in> set ks. fuse8_contain h (fuse y) = Some True)" and nz: "buf_len x \<noteq> 0" by auto
  have "collected ls (y\<lparr>built_flag := True\<rparr>)" using y(2) by (simp add: collected_def)
  then have "hist_inv hs (y\<lparr>built_flag := True\<rparr>)"
    using y(4) same_hashes_trans [OF ks(2) y(3)] x(2) by (auto simp: hist_inv_def)
  moreover have "set ks = set hs" using ks(2) by (simp add: same_hashes_def)
  ultimately show ?thesis using y nz by auto
qed

lemma build_keeps:
  assumes E: "fair_env E" and x: "hist_inv hs x" "\<not> built_flag x"
    and hs: "good_hashes (built_from hs)" "length hs \<le> 2 ^ 28"
  shows "\<exists>y. xf_build E x = Some y \<and> hist_inv (built_from hs) y \<and> built_flag y"
proof -
  let ?fill = "if buf_len x = 0 then do { x \<leftarrow> buf_push E 0 x; buf_push E 1 x } else Some x"
  have "\<exists>x1. ?fill = Some x1 \<and> hist_inv (built_from hs) x1"
  proof (cases "hs = []")
    case True
    then have c: "collected [] x" using x(1) by (auto simp: hist_inv_def same_hashes_def)
    from push_collected [OF fair_words [OF E] this] x(2) obtain x1 where
      x1: "buf_push E 0 x = Some x1" "collected ([] @ [0]) x1" "\<not> built_flag x1" by blast
    from push_collected [OF fair_words [OF E] x1(2)] x1(3) obtain x2 where
      x2: "buf_push E 1 x1 = Some x2" "collected (([] @ [0]) @ [1]) x2" "\<not> built_flag x2" by blast
    then have "collected [0, 1] x2" by simp
    moreover have "buf_len x = 0" using c by (auto simp: collected_def)
    ultimately show ?thesis using x1 x2 True same_hashes_refl [of "[0, 1]"]
      by (auto simp: hist_inv_def built_from_def intro!: exI [of _ x2])
  next
    case False
    then have "buf_len x \<noteq> 0" using x(1) by (auto simp: hist_inv_def collected_def same_hashes_def)
    with x(1) False show ?thesis by (simp add: built_from_def)
  qed
  then obtain x1 where x1: "?fill = Some x1" "hist_inv (built_from hs) x1" by blast
  have "built_from hs \<noteq> []" "length (built_from hs) \<le> 2 ^ 28" using hs(2) by (simp_all add: built_from_def)
  from populate_inv [OF E x1(2) this(1) hs(1) this(2)] obtain ok y where
    "xf_populate E x1 = Some (ok, y)" "hist_inv (built_from hs) (y\<lparr>built_flag := True\<rparr>)" by blast
  then show ?thesis
    unfolding xf_build_def using x(2) x1(1) by (intro exI [of _ "y\<lparr>built_flag := True\<rparr>"]) simp
qed

text \<open>Every query starts with a build where one is missing.\<close>

lemma query_opens:
  assumes E: "fair_env E" and x: "hist_inv hs x" and hs: "good_hashes (built_from hs)" "length hs \<le> 2 ^ 28"
  shows "\<exists>y. (if \<not> built_flag x then xf_build E x else Some x) = Some y \<and> hist_inv (built_from hs) y \<and> built_flag y"
proof (cases "built_flag x")
  case True
  then have "built_from hs = hs" using x by (simp add: hist_inv_def built_from_def)
  with True x show ?thesis by simp
next
  case False
  from build_keeps [OF E x False hs] False show ?thesis by simp
qed

lemma insert_keeps:
  assumes E: "fair_env E" and x: "hist_inv hs x"
  shows "\<exists>y. xf_insert_prehash E h x = Some y \<and> hist_inv (hs @ [h]) y"
proof -
  obtain ks where ks: "collected ks x" "same_hashes hs ks" using x by (auto simp: hist_inv_def)
  from unbuild_collected [OF ks(1)] push_collected [OF fair_words [OF E], of ks "unbuild x" h] obtain y where
    "xf_insert_prehash E h x = Some y" "collected (ks @ [h]) y" "\<not> built_flag y"
    by (auto simp: xf_insert_prehash_def)
  with same_hashes_append [OF ks(2)] show ?thesis by (auto simp: hist_inv_def)
qed

lemma batch_keeps:
  assumes E: "fair_env E" and x: "hist_inv hs x" and gs: "good_hashes (built_from (hs @ gs))" "length (hs @ gs) \<le> 2 ^ 28"
  shows "\<exists>y. xf_insert_prehash_bulk E gs (length gs) x = Some y \<and> hist_inv (built_from (hs @ gs)) y \<and>
     (\<forall>keys klen. (\<forall>i < length gs. xf_bloom_hash (drop (i * klen) keys) klen = Some (gs ! i)) \<longrightarrow>
        xf_insert_bulk E keys klen (length gs) x = Some y)"
proof -
  obtain ks where ks: "collected ks x" "same_hashes hs ks" using x by (auto simp: hist_inv_def)
  let ?x = "reserve_for E (length gs) (unbuild x)" and ?g = "\<lambda>i x. do { h \<leftarrow> rd_at gs i; put_hash i h x }"
  have g: "?g i = put_hash i (gs ! i)" if "i < length gs" for i using that by (auto simp: rd_at_def)
  from batch_collects [OF fair_words [OF E] ks(1) refl g] obtain z where
    z: "foldM ?g [0..<length gs] ?x = Some z" "collected (ks @ gs) (z\<lparr>buf_len := buf_len z + length gs\<rparr>)" "\<not> built_flag z"
    by blast
  have "hist_inv (hs @ gs) (z\<lparr>buf_len := buf_len z + length gs\<rparr>)" "\<not> built_flag (z\<lparr>buf_len := buf_len z + length gs\<rparr>)"
    using z(2,3) same_hashes_append [OF ks(2)] by (auto simp: hist_inv_def)
  from build_keeps [OF E this gs] obtain y where
    y: "xf_build E (z\<lparr>buf_len := buf_len z + length gs\<rparr>) = Some y" "hist_inv (built_from (hs @ gs)) y" by blast
  have "foldM (\<lambda>i x. do { h \<leftarrow> xf_bloom_hash (drop (i * klen) keys) klen; put_hash i h x }) [0..<length gs] s
      = foldM ?g [0..<length gs] s"
    if "\<forall>i < length gs. xf_bloom_hash (drop (i * klen) keys) klen = Some (gs ! i)" for keys klen s
    using that by (intro foldM_cong) (auto simp: rd_at_def)
  with y z(1) show ?thesis by (simp add: xf_insert_prehash_bulk_def xf_insert_bulk_def Let_def)
qed

section \<open>Every history keeps it\<close>

lemma hist_keeps: "xf_hist hs x \<Longrightarrow> good_hashes hs \<Longrightarrow> length hs \<le> 2 ^ 28 \<Longrightarrow> hist_inv hs x"
proof (induction rule: xf_hist.induct)
  case (new E nbits x)
  from new_collected [OF fair_words [OF new.hyps(1)] new.hyps(2)] same_hashes_refl [of "[]"]
  show ?case unfolding hist_inv_def by blast
next
  case (insert_one hs x E key len h y)
  with good_prefix have "hist_inv hs x" by simp
  from insert_keeps [OF insert_one.hyps(2) this, of h] insert_one.hyps(3,4) show ?case by (simp add: xf_insert_def)
next
  case (insert_hash hs x E h y)
  with good_prefix have "hist_inv hs x" by simp
  from insert_keeps [OF insert_hash.hyps(2) this, of h] insert_hash.hyps(3) show ?case by simp
next
  case (insert_many hs x E gs klen keys y)
  then have len: "length (hs @ gs) \<le> 2 ^ 28" by (auto simp: built_from_def split: if_splits)
  have "good_hashes hs" using insert_many.prems(1) by (cases "hs @ gs = []") (auto simp: built_from_def good_hashes_def)
  with insert_many.IH len have "hist_inv hs x" by simp
  from batch_keeps [OF insert_many.hyps(2) this insert_many.prems(1) len] insert_many.hyps(3,4) show ?case by auto
next
  case (insert_hashes hs x E gs y)
  then have len: "length (hs @ gs) \<le> 2 ^ 28" by (auto simp: built_from_def split: if_splits)
  have "good_hashes hs" using insert_hashes.prems(1) by (cases "hs @ gs = []") (auto simp: built_from_def good_hashes_def)
  with insert_hashes.IH len have "hist_inv hs x" by simp
  from batch_keeps [OF insert_hashes.hyps(2) this insert_hashes.prems(1) len] insert_hashes.hyps(3) show ?case by auto
next
  case (query_one hs x E key len r y)
  then have "length hs \<le> 2 ^ 28" "good_hashes hs" by (auto simp: built_from_def good_hashes_def split: if_splits)
  with query_one query_opens [of E hs x] show ?case
    by (auto simp: xf_contains_def xf_contains_prehash_def split: bind_splits)
next
  case (query_hash hs x E h r y)
  then have "length hs \<le> 2 ^ 28" "good_hashes hs" by (auto simp: built_from_def good_hashes_def split: if_splits)
  with query_hash query_opens [of E hs x] show ?case by (auto simp: xf_contains_prehash_def split: bind_splits)
next
  case (query_many hs x E keys klen n c y)
  then have "length hs \<le> 2 ^ 28" "good_hashes hs" by (auto simp: built_from_def good_hashes_def split: if_splits)
  with query_many query_opens [of E hs x] show ?case by (auto simp: xf_contains_bulk_def split: bind_splits)
next
  case (query_hashes hs x E gs n c y)
  then have "length hs \<le> 2 ^ 28" "good_hashes hs" by (auto simp: built_from_def good_hashes_def split: if_splits)
  with query_hashes query_opens [of E hs x] show ?case by (auto simp: xf_contains_prehash_bulk_def split: bind_splits)
qed

lemma good_start: "good_hashes (built_from (hs @ gs)) \<Longrightarrow> good_hashes (built_from hs) \<and> good_hashes hs"
  by (cases "hs = []") (auto simp: built_from_def good_hashes_def)

lemma inserts_keep:
  "xf_hist hs x \<Longrightarrow> fair_env E \<Longrightarrow> hist_inv hs x \<Longrightarrow>
     \<exists>y. foldM (xf_insert_prehash E) gs x = Some y \<and> xf_hist (hs @ gs) y"
proof (induction gs arbitrary: hs x)
  case (Cons g gs)
  from insert_keeps [OF Cons.prems(2,3), of g] obtain y where
    y: "xf_insert_prehash E g x = Some y" "hist_inv (hs @ [g]) y" by blast
  from Cons.IH [OF insert_hash [OF Cons.prems(1,2) y(1)] Cons.prems(2) y(2)] y(1) show ?case by simp
qed auto

section \<open>Properties\<close>

text \<open>C16: a build that succeeds denies no hash of the handle's history. Let a handle of \<open>bloom_new\<close> have
  gone through a sequence of insertions and queries, single and in bulk, that left it unbuilt with
  at least one and at most 2 to the 28 hashes; let memory not have run out for its buffer and its
  table in any of these calls, while the builder's scratch allocations may fail, let \<open>qsort\<close> permute
  and the logarithm be accurate (\<open>fair_env\<close>); and let the hashes be all different, or none of them be
  mapped to zero by one of the builder's hundred seeds (\<open>good_hashes\<close>; without it a successful build
  can lose a hash). Then the first query in a further such environment populates the filter from
  all hashes inserted since the handle was made, and if that reports success, this query and every
  later one answers true for each of them.\<close>

theorem xorfuse_any_history:
  assumes "xf_hist hs x" and "hs \<noteq> []" and "good_hashes hs" and "length hs \<le> 2 ^ 28" and "fair_env E" and "\<not> built_flag x"
  shows "\<exists>ok y. xf_populate E x = Some (ok, y) \<and>
     (ok \<longrightarrow> (\<forall>h \<in> set hs. xf_contains_prehash E h x = Some (True, y\<lparr>built_flag := True\<rparr>) \<and>
        (\<forall>E'. xf_contains_prehash E' h (y\<lparr>built_flag := True\<rparr>) = Some (True, y\<lparr>built_flag := True\<rparr>))))"
proof -
  from populate_inv [OF assms(5) hist_keeps [OF assms(1,3,4)] assms(2-4)] obtain ok y where
    "xf_populate E x = Some (ok, y)" "buf_len x \<noteq> 0" "ok \<longrightarrow> (\<forall>h \<in> set hs. fuse8_contain h (fuse y) = Some True)" by blast
  then show ?thesis
    using assms(6) by (intro exI [of _ ok] exI [of _ y]) (simp add: query_builds query_built)
qed

lemma calm_fair: "fair_env (calm ok)"
  using calm_ok by (simp add: fair_env_def permutes_list_def calm_def)

text \<open>An insertion, a query of it, and another insertion.\<close>

theorem xorfuse_any_history_witness:
  "\<exists>x0 x1 r x2 x3 ok y. xf_new (calm True) True 0 = Some x0 \<and> xf_insert_prehash (calm True) 10 x0 = Some x1 \<and>
     xf_contains_prehash (calm True) 10 x1 = Some (r, x2) \<and> xf_insert_prehash (calm True) 20 x2 = Some x3 \<and>
     xf_populate (calm True) x3 = Some (ok, y) \<and>
     (ok \<longrightarrow> xf_contains_prehash (calm True) 10 x3 = Some (True, y\<lparr>built_flag := True\<rparr>))"
proof -
  let ?E = "calm True"
  from calm_new obtain x0 where x0: "xf_new ?E True 0 = Some x0" by blast
  have h0: "xf_hist [] x0" by (rule xf_hist.new [OF calm_fair x0])
  have good: "good_hashes []" "good_hashes [10]" "good_hashes [10, 20]" by (simp_all add: good_hashes_def)
  from insert_keeps [OF calm_fair [of True] hist_keeps [OF h0 good(1)], of 10] obtain x1 where
    x1: "xf_insert_prehash ?E 10 x0 = Some x1" by auto
  then have h1: "xf_hist [10] x1" using xf_hist.insert_hash [OF h0 calm_fair x1] by simp
  from query_opens [OF calm_fair [of True] hist_keeps [OF h1 good(2)]] good(2) obtain x2 where
    x2: "(if \<not> built_flag x1 then xf_build ?E x1 else Some x1) = Some x2" "hist_inv [10] x2" "built_flag x2"
    by (auto simp: built_from_def)
  then obtain fp where "table_of (fuse x2) fp" by (auto simp: hist_inv_def)
  then obtain r where r: "xf_contains_prehash ?E 10 x1 = Some (r, x2)"
    using x2(1) by (auto simp: xf_contains_prehash_def contain_eq)
  have h2: "xf_hist [10] x2" using xf_hist.query_hash [OF h1 calm_fair r] by (simp add: built_from_def)
  from insert_keeps [OF calm_fair [of True] x2(2), of 20] obtain x3 where x3: "xf_insert_prehash ?E 20 x2 = Some x3" by blast
  have h3: "xf_hist [10, 20] x3" using xf_hist.insert_hash [OF h2 calm_fair x3] by simp
  have "\<not> built_flag x3"
    using x3 by (auto simp: xf_insert_prehash_def buf_push_def unbuild_def grow_buf_def Let_def split: bind_splits if_splits)
  from xorfuse_any_history [OF h3 _ good(3) _ calm_fair this] x0 x1 r x3 show ?thesis by fastforce
qed

text \<open>C18: calls on a fuse filter handle do not fault while memory lasts. Take a handle with such a history
  as above: its hashes and the next ones together number at most 2 to the 28 and are all different,
  or none is mapped to zero by a seed of the builder, and in every call the buffer and the table
  can be allocated, \<open>qsort\<close> permutes and the logarithm is accurate. Then a bulk insertion of the
  next hashes, inserting them one by one, and a query of any hash all return, without an access
  outside the buffer or the table and without reading an unallocated one, and each leads to a
  handle with such a history.\<close>

theorem xorfuse_never_faults:
  assumes "xf_hist hs x" and "fair_env E" and "good_hashes (built_from (hs @ gs))" and "length (hs @ gs) \<le> 2 ^ 28"
  shows "(\<exists>y. xf_insert_prehash_bulk E gs (length gs) x = Some y \<and> xf_hist (built_from (hs @ gs)) y) \<and>
     (\<exists>y. foldM (xf_insert_prehash E) gs x = Some y \<and> xf_hist (hs @ gs) y) \<and>
     (\<exists>y. xf_hist (built_from hs) y \<and> (\<forall>h. \<exists>r. xf_contains_prehash E h x = Some (r, y)))"
proof (intro conjI)
  have good: "good_hashes (built_from hs)" "good_hashes hs" using good_start [OF assms(3)] by simp_all
  have inv: "hist_inv hs x" using hist_keeps [OF assms(1) good(2)] assms(4) by simp
  from batch_keeps [OF assms(2) inv assms(3,4)] xf_hist.insert_hashes [OF assms(1,2)]
  show "\<exists>y. xf_insert_prehash_bulk E gs (length gs) x = Some y \<and> xf_hist (built_from (hs @ gs)) y" by blast
  show "\<exists>y. foldM (xf_insert_prehash E) gs x = Some y \<and> xf_hist (hs @ gs) y"
    by (rule inserts_keep [OF assms(1,2) inv])
  from query_opens [OF assms(2) inv good(1)] assms(4) obtain y where
    y: "(if \<not> built_flag x then xf_build E x else Some x) = Some y" "hist_inv (built_from hs) y" "built_flag y" by auto
  then obtain fp where "table_of (fuse y) fp" by (auto simp: hist_inv_def)
  then have asks: "\<exists>r. xf_contains_prehash E h x = Some (r, y)" for h
    using y(1) by (auto simp: xf_contains_prehash_def contain_eq)
  then show "\<exists>y. xf_hist (built_from hs) y \<and> (\<forall>h. \<exists>r. xf_contains_prehash E h x = Some (r, y))"
    using xf_hist.query_hash [OF assms(1,2)] by blast
qed

theorem xorfuse_never_faults_witness:
  "\<exists>x y r z. xf_new (calm True) True 0 = Some x \<and> xf_insert_prehash_bulk (calm True) [10, 20] 2 x = Some y \<and>
     xf_contains_prehash (calm True) 7 x = Some (r, z)"
proof -
  from calm_new obtain x where x: "xf_new (calm True) True 0 = Some x" by blast
  have "xf_hist [] x" by (rule xf_hist.new [OF calm_fair x])
  moreover have "good_hashes (built_from ([] @ [10, 20]))" by (simp add: good_hashes_def built_from_def)
  moreover have "length ([] @ [10, 20 :: u64]) \<le> 2 ^ 28" and two: "length [10, 20 :: u64] = 2" by simp_all
  ultimately show ?thesis
    using xorfuse_never_faults [OF _ calm_fair [of True], of "[]" x "[10, 20]"] x unfolding two by blast
qed

end
