(* ===== verification/Fuse_Sentinel.thy ===== *)
theory Fuse_Sentinel
  imports Fuse_Build
begin

text \<open>
  Why repeated keys need the condition that no hash is zero. The search for a free place stops at a
  guard, \<open>reverseOrder[size] = 1\<close>, written once before the first round. A round that finds
  duplicates lowers \<open>size\<close> and clears only the new \<open>size\<close> entries, so the guard of the next round
  is whatever hash the last one left at the new end; a hash of zero there looks free. A key's hash
  is then written behind the end, is never counted or peeled, and the build succeeds without it.
  The keys below do this, in the table that \<open>binary_fuse8_allocate\<close> makes for five keys, on the
  order that the comparator asks for.
\<close>

definition sent_keys :: "u64 list" where
  "sent_keys = [5544807089872641323, 5544807089872641323, 2371064701118293394, 17370485385385723319, 10523027606384528281]"

definition sent_fuse :: binary_fuse8_t where
  "sent_fuse = \<lparr>Seed = 0, Size = 5, SegmentLength = 8, SegmentLengthMask = 7, SegmentCount = 1,
     SegmentCountLength = 8, ArrayLength = 24, Fingerprints = Some (replicate 24 0)\<rparr>"

definition sent_mallocs :: mallocs where
  "sent_mallocs = \<lparr>got_reverseOrder = True, got_alone = Some (replicate 24 0), got_t2count = True,
     got_reverseH = Some (replicate 5 0), got_t2hash = True, got_startPos = Some (replicate 2 0)\<rparr>"

text \<open>The scratch arrays before the first round, after it and after the second.\<close>

definition sent_0 :: build where
  "sent_0 = \<lparr>reverseOrder = replicate 5 0 @ [1],
     alone = replicate 24 0,
     t2count = replicate 24 0,
     reverseH = replicate 5 0,
     t2hash = replicate 24 0,
     startPos = [0, 0], key_buf = sent_keys, nkeys = 5,
     cur_seed = 7923716467325023335, rng_counter = 1198702242888554850\<rparr>"

definition sent_1 :: build where
  "sent_1 = \<lparr>reverseOrder = replicate 5 0 @ [1],
     alone = [0, 1, 8, 11, 8, 11, 23] @ replicate 17 0,
     t2count = replicate 24 0,
     reverseH = [2, 2, 0, 0, 0],
     t2hash = replicate 24 0,
     startPos = [5, 2], key_buf = [2371064701118293394, 5544807089872641323, 10523027606384528281, 17370485385385723319, 17370485385385723319], nkeys = 4,
     cur_seed = 10568878530790299679, rng_counter = 12599417062211753335\<rparr>"

definition sent_2 :: build where
  "sent_2 = \<lparr>reverseOrder = [309496195900135028, 0, 17651459252194115750, 15112606070890212815, 10528713984813299629, 1],
     alone = [6, 7, 8, 10, 10, 7, 16, 16, 13] @ replicate 15 0,
     t2count = [4] @ replicate 10 0 @ [5] @ replicate 5 0 @ [6, 0, 0, 6, 0, 0, 0],
     reverseH = [2, 0, 1, 2, 0],
     t2hash = replicate 11 0 @ [17651459252194115750] @ replicate 5 0 @ [15112606070890212815, 0, 0, 309496195900135028, 0, 0, 0],
     startPos = [1, 5], key_buf = [2371064701118293394, 5544807089872641323, 10523027606384528281, 17370485385385723319, 17370485385385723319], nkeys = 4,
     cur_seed = 10568878530790299679, rng_counter = 12599417062211753335\<rparr>"

lemma sent_place_1:
  "start_positions 1 5 (startPos sent_0) = Some [0, 2]"
  "place_keys 1 (cur_seed sent_0) (key_buf sent_0) 5 (reverseOrder sent_0, [0, 2]) =
     Some ([5202341383345578305, 5202341383345578305, 6679666695946150209, 3737209391687474051, 0, 1], [5, 2])"
  by code_simp+

lemma sent_count_1:
  "count_hashes (sent_fuse\<lparr>Seed := cur_seed sent_0\<rparr>)
     ([5202341383345578305, 5202341383345578305, 6679666695946150209, 3737209391687474051, 0, 1]) 5 (((t2count sent_0, t2hash sent_0), 0), False) =
   Some ((([4, 4, 8] @ replicate 5 0 @ [5, 0, 8, 5] @ replicate 4 0 @ [6, 0, 6, 8] @ replicate 4 0,
     [0, 3737209391687474051, 1477352841528999936] @ replicate 7 0 @ [1477352841528999936, 3737209391687474051] @ replicate 6 0 @ [3737209391687474051, 1477352841528999936] @ replicate 4 0), 1), False)"
  by code_simp

lemma sent_round_1: "build_round sort 1 (sent_fuse\<lparr>Seed := cur_seed sent_0\<rparr>) sent_0 = Some (False, sent_1)"
proof -
  have n: "nkeys sent_0 = 5" by code_simp
  show ?thesis
    unfolding build_round_def Let_def n sent_place_1 sent_count_1 Option.bind.simps prod.case by code_simp
qed

lemma sent_place_2:
  "start_positions 1 4 (startPos sent_1) = Some [0, 2]"
  "place_keys 1 (cur_seed sent_1) (key_buf sent_1) 4 (reverseOrder sent_1, [0, 2]) =
     Some ([309496195900135028, 0, 15112606070890212815, 17651459252194115750, 10528713984813299629, 1], [1, 5])"
  by code_simp+

lemma sent_count_2:
  "count_hashes (sent_fuse\<lparr>Seed := cur_seed sent_0\<rparr>)
     ([309496195900135028, 0, 15112606070890212815, 17651459252194115750, 10528713984813299629, 1]) 4 (((t2count sent_1, t2hash sent_1), 0), False) =
   Some ((([8] @ replicate 5 0 @ [4, 4, 5, 0, 5, 5, 0, 5, 0, 0, 6, 8, 0, 0, 6, 0, 0, 0],
     [309496195900135028] @ replicate 5 0 @ [15112606070890212815, 17651459252194115750, 0, 0, 15112606070890212815, 17651459252194115750, 0, 309496195900135028, 0, 0, 0, 2687619344418123113, 0, 0, 309496195900135028, 0, 0, 0]), 0), False)"
  by code_simp

lemma sent_round_2: "build_round sort 1 (sent_fuse\<lparr>Seed := cur_seed sent_0\<rparr>) sent_1 = Some (True, sent_2)"
proof -
  have n: "nkeys sent_1 = 4" by code_simp
  show ?thesis
    unfolding build_round_def Let_def n sent_place_2 sent_count_2 Option.bind.simps prod.case by code_simp
qed

definition sent_fp :: "u8 list" where
  "sent_fp = replicate 11 0 @ [228] @ replicate 5 0 @ [233, 0, 0, 82, 0, 0, 0]"

lemma sent_assign:
  "assign_all (sent_fuse\<lparr>Seed := cur_seed sent_2\<rparr>) (reverseOrder sent_2) (reverseH sent_2) 4 (replicate 24 0) = Some sent_fp"
  by code_simp

lemma sent_contain:
  "fuse8_contain 17370485385385723319 (sent_fuse\<lparr>Seed := cur_seed sent_2, Fingerprints := Some sent_fp\<rparr>) = Some False"
  by code_simp

lemma sent_start: "rng_splitmix64 0x726b2b9d438b9d4d = (cur_seed sent_0, rng_counter sent_0)"
  by code_simp

lemma sent_bits: "block_bits 1 1 = Some 1"
  by code_simp

lemma sent_rounds: "build_rounds XOR_MAX_ITERATIONS sort 1 (sent_fuse\<lparr>Seed := cur_seed sent_0\<rparr>) sent_0 = Some (True, sent_2)"
proof -
  have "build_rounds (Suc (Suc r)) sort 1 (sent_fuse\<lparr>Seed := cur_seed sent_0\<rparr>) sent_0 = Some (True, sent_2)" for r
    by (simp add: sent_round_1 sent_round_2 del: One_nat_def)
  from this [of 98] show ?thesis by (simp add: XOR_MAX_ITERATIONS_def del: One_nat_def)
qed

lemma sent_run:
  "fuse8_populate sort sent_mallocs sent_keys 5 sent_fuse =
     Some (True, sent_fuse\<lparr>Seed := cur_seed sent_2, Fingerprints := Some sent_fp\<rparr>, key_buf sent_2)"
proof -
  have init: "\<lparr>reverseOrder = [0, 0, 0, 0, 0, 1], alone = replicate 24 0, t2count = replicate 24 0, reverseH = replicate 5 0,
      t2hash = replicate 24 0, startPos = replicate 2 0, key_buf = sent_keys, nkeys = 5,
      cur_seed = cur_seed sent_0, rng_counter = rng_counter sent_0\<rparr> = sent_0"
    by (simp add: sent_0_def sent_keys_def numeral_eq_Suc)
  have ro: "wr_at (replicate 6 (0 :: u64)) 5 1 = Some [0, 0, 0, 0, 0, 1]"
    by (simp add: wr_at_def numeral_eq_Suc)
  have f: "Size sent_fuse = 5" "SegmentCount sent_fuse = 1" "ArrayLength sent_fuse = 24" "Fingerprints sent_fuse = Some (replicate 24 0)"
    by (simp_all add: sent_fuse_def)
  have "nkeys sent_2 = 4" by (simp add: sent_2_def)
  then show ?thesis
    unfolding fuse8_populate_def f sent_start
    by (simp add: sent_mallocs_def f sent_bits ro init sent_rounds sent_assign Let_def del: One_nat_def)
qed

text \<open>C17: a fuse filter can lose a key. For five keys, one of them twice, \<open>binary_fuse8_populate\<close> reports
  success and \<open>binary_fuse8_contain\<close> then denies a key that was in the array: one key is the
  negation of the first seed, so its hash is zero, and takes the place of the guard after the
  duplicate is removed.\<close>

theorem populate_loses_key:
  "(\<forall>xs. mset (sort xs) = mset (xs :: u64 list)) \<and> sorted_wrt (\<lambda>a b. fuse_cmpfunc a b \<le> 0) (sort sent_keys) \<and>
   - seed_at 0 \<in> set sent_keys \<and> 17370485385385723319 \<in> set sent_keys \<and>
   (\<exists>f' keys'. fuse8_populate sort sent_mallocs sent_keys 5 sent_fuse = Some (True, f', keys') \<and>
      17370485385385723319 \<in> set keys' \<and> fuse8_contain 17370485385385723319 f' = Some False)"
proof (intro conjI exI)
  show "\<forall>xs. mset (sort xs) = mset (xs :: u64 list)" by simp
  show "sorted_wrt (\<lambda>a b. fuse_cmpfunc a b \<le> 0) (sort sent_keys)" by code_simp
  show "- seed_at 0 \<in> set sent_keys" by (simp add: seed_at_def seed_state_def sent_start) (simp add: sent_0_def sent_keys_def)
  show "17370485385385723319 \<in> set sent_keys" by (simp add: sent_keys_def)
  show "fuse8_populate sort sent_mallocs sent_keys 5 sent_fuse =
    Some (True, sent_fuse\<lparr>Seed := cur_seed sent_2, Fingerprints := Some sent_fp\<rparr>, key_buf sent_2)"
    by (rule sent_run)
  show "17370485385385723319 \<in> set (key_buf sent_2)" by (simp add: sent_2_def)
qed (rule sent_contain)

end
