(* ===== verification/Siphash_Spec.thy ===== *)
theory Siphash_Spec
  imports Qb_Hash
begin

text \<open>
  SipHash-c-d as its authors describe it (Aumasson and Bernstein, 2012), independently of the code
  under \<open>tools/\<close>: the four constants are the bytes of a sentence, a round is two half rounds on both
  pairs of words in parallel, and the numbers of compression and finalization rounds are arguments.
  The test vector of the paper's appendix, and the published value of SipHash-1-3 for the empty
  message, are lemmas.
\<close>

type_synonym sip_state = "u64 \<times> u64 \<times> u64 \<times> u64"

text \<open>Eight letters as one word, the first of them the most significant.\<close>

definition letters :: "string \<Rightarrow> u64" where
  "letters s = foldl (\<lambda>w c. w * 256 + of_char c) 0 s"

definition sip_start :: "u64 \<Rightarrow> u64 \<Rightarrow> sip_state" where
  "sip_start k0 k1 = (k0 XOR letters ''somepseu'', k1 XOR letters ''dorandom'',
     k0 XOR letters ''lygenera'', k1 XOR letters ''tedbytes'')"

text \<open>Rotation to the left, by fewer than 64 places.\<close>

definition rotl :: "nat \<Rightarrow> u64 \<Rightarrow> u64" where
  "rotl b x = push_bit b x OR drop_bit (64 - b) x"

lemma rotl_is_rotation:
  assumes "0 < b" and "b < 64" shows "rotl b x = word_rotl b x"
proof (rule bit_word_eqI)
  fix n assume n: "n < LENGTH(64)"
  show "bit (rotl b x) n \<longleftrightarrow> bit (word_rotl b x) n"
  proof (cases "n < b")
    case True
    then have "(n + (64 - b)) mod 64 = 64 - b + n" using assms by simp
    with True n assms show ?thesis by (simp add: rotl_def bit_simps bit_word_rotl_iff)
  next
    case False
    then have "n + (64 - b) = (n - b) + 64" using assms by linarith
    then have "(n + (64 - b)) mod 64 = n - b" using n by (simp only: mod_add_self2) simp
    with False n assms show ?thesis
      by (auto simp: rotl_def bit_simps bit_word_rotl_iff dest: bit_imp_le_length)
  qed
qed

fun half_round :: "nat \<Rightarrow> nat \<Rightarrow> sip_state \<Rightarrow> sip_state" where
  "half_round s t (a, b, c, d) = (rotl 32 (a + b), rotl s b XOR (a + b), c + d, rotl t d XOR (c + d))"

text \<open>Between the two half rounds the pairs change their partners.\<close>

fun cross :: "sip_state \<Rightarrow> sip_state" where
  "cross (v0, v1, v2, v3) = (v2, v1, v0, v3)"

fun sip_rounds :: "nat \<Rightarrow> sip_state \<Rightarrow> sip_state" where
  "sip_rounds 0 v = v"
| "sip_rounds (Suc n) v = sip_rounds n (cross (half_round 17 21 (cross (half_round 13 16 v))))"

fun enter :: "u64 \<Rightarrow> sip_state \<Rightarrow> sip_state" where
  "enter m (v0, v1, v2, v3) = (v0, v1, v2, v3 XOR m)"

fun leave :: "u64 \<Rightarrow> sip_state \<Rightarrow> sip_state" where
  "leave m (v0, v1, v2, v3) = (v0 XOR m, v1, v2, v3)"

fun mark_end :: "sip_state \<Rightarrow> sip_state" where
  "mark_end (v0, v1, v2, v3) = (v0, v1, v2 XOR 0xff, v3)"

fun fold_up :: "sip_state \<Rightarrow> u64" where
  "fold_up (v0, v1, v2, v3) = v0 XOR v1 XOR v2 XOR v3"

definition sip_compress :: "nat \<Rightarrow> sip_state \<Rightarrow> u64 \<Rightarrow> sip_state" where
  "sip_compress c v m = leave m (sip_rounds c (enter m v))"

definition sip_finish :: "nat \<Rightarrow> sip_state \<Rightarrow> u64" where
  "sip_finish d v = fold_up (sip_rounds d (mark_end v))"

text \<open>The message is padded with zeros up to the last byte of a word, which is its length modulo 256,
  and read as little-endian words.\<close>

definition sip_message :: "u8 list \<Rightarrow> u64 list" where
  "sip_message msg = words_of (msg @ replicate (7 - length msg mod 8) 0 @ [of_nat (length msg)])"

definition siphash :: "nat \<Rightarrow> nat \<Rightarrow> u8 list \<Rightarrow> u8 list \<Rightarrow> u64" where
  "siphash c d k msg =
     sip_finish d (foldl (sip_compress c) (sip_start (le_word (take 8 k)) (le_word (take 8 (drop 8 k)))) (sip_message msg))"

text \<open>The key of the published test vectors.\<close>

definition vector_key :: "u8 list" where
  "vector_key = map of_nat [0..<16]"

lemma siphash_2_4_vector: "siphash 2 4 vector_key (map of_nat [0..<15]) = 0xa129ca6149be45e5"
  by code_simp

lemma siphash_1_3_vector: "siphash 1 3 vector_key [] = 0xabac0158050fc4dc"
  by code_simp

end
