(* ===== verification/Bench_Hash.thy ===== *)
theory Bench_Hash
  imports Qb_Hash Xxh64 Siphash_Spec
begin

text \<open>
  What the two benchmarks of \<open>tools/\<close> compute, timing and printing aside: the hash functions that
  \<open>bench_hash.c\<close> measures, with SipHash-1-3 against its specification, the comparator of its
  samples, and the generators that fill the key and hash pools of \<open>bench_hash.c\<close> and
  \<open>bench_qb.c\<close>. The theorems on the generators are what makes the pools fit for their purpose:
  the hashes of a pool are all different and the two pools have none in common.
\<close>

section \<open>Hash functions\<close>

definition wymum16 :: "u8 list \<Rightarrow> u64 option" where
  "wymum16 data = do {
     a \<leftarrow> rd_le 8 data 0;
     b \<leftarrow> rd_le 8 data 8;
     let a = a XOR 0x736f6d6570736575;
     let b = b XOR 0x646f72616e646f6d;
     let r = (ucast (a :: u64) * ucast (b :: u64) :: u128);
     Some (ucast r XOR ucast (drop_bit 64 r)) }"

definition SIP_ROTL :: "u64 \<Rightarrow> nat \<Rightarrow> u64" where
  "SIP_ROTL x b = push_bit b x OR drop_bit (64 - b) x"

type_synonym sip = "u64 \<times> u64 \<times> u64 \<times> u64"

definition SIPROUND :: "sip \<Rightarrow> sip" where
  "SIPROUND = (\<lambda>(v0, v1, v2, v3).
     let v0 = v0 + v1; v1 = SIP_ROTL v1 13; v1 = v1 XOR v0; v0 = SIP_ROTL v0 32;
         v2 = v2 + v3; v3 = SIP_ROTL v3 16; v3 = v3 XOR v2;
         v0 = v0 + v3; v3 = SIP_ROTL v3 21; v3 = v3 XOR v0;
         v2 = v2 + v1; v1 = SIP_ROTL v1 17; v1 = v1 XOR v2; v2 = SIP_ROTL v2 32
     in (v0, v1, v2, v3))"

text \<open>\<open>v3 ^= m; SIPROUND; v0 ^= m\<close>.\<close>

definition sip_absorb :: "sip \<Rightarrow> u64 \<Rightarrow> sip" where
  "sip_absorb = (\<lambda>(v0, v1, v2, v3) m.
     let (v0, v1, v2, v3) = SIPROUND (v0, v1, v2, v3 XOR m) in (v0 XOR m, v1, v2, v3))"

text \<open>The loop over the full blocks: \<open>r\<close> of them are left, the next one is number \<open>i\<close>.\<close>

fun sip_blocks :: "u8 list \<Rightarrow> nat \<Rightarrow> nat \<Rightarrow> sip \<Rightarrow> sip option" where
  "sip_blocks msg 0 i v = Some v"
| "sip_blocks msg (Suc r) i v = do {
     m \<leftarrow> rd_le 8 msg (8 * i);
     sip_blocks msg r (i + 1) (sip_absorb v m) }"

text \<open>The switch over the last \<open>left\<close> bytes, falling through from the highest.\<close>

fun sip_tail :: "u8 list \<Rightarrow> nat \<Rightarrow> nat \<Rightarrow> u64 \<Rightarrow> u64 option" where
  "sip_tail msg pos 0 b = Some b"
| "sip_tail msg pos (Suc k) b = do {
     x \<leftarrow> rd_at msg (pos + k);
     sip_tail msg pos k (b OR push_bit (8 * k) (ucast x)) }"

definition sip_init :: "u64 \<Rightarrow> u64 \<Rightarrow> sip" where
  "sip_init k0 k1 = (0x736f6d6570736575 XOR k0, 0x646f72616e646f6d XOR k1,
     0x6c7967656e657261 XOR k0, 0x7465646279746573 XOR k1)"

definition sip_final :: "sip \<Rightarrow> u64" where
  "sip_final = (\<lambda>(v0, v1, v2, v3).
     let (v0, v1, v2, v3) = SIPROUND (SIPROUND (SIPROUND (v0, v1, v2 XOR 0xff, v3)))
     in v0 XOR v1 XOR v2 XOR v3)"

definition siphash13 :: "u8 list \<Rightarrow> nat \<Rightarrow> u8 list \<Rightarrow> u64 option" where
  "siphash13 msg inlen k = do {
     k0 \<leftarrow> rd_le 8 k 0;
     k1 \<leftarrow> rd_le 8 k 8;
     let nblocks = inlen div 8;
     v \<leftarrow> sip_blocks msg nblocks 0 (sip_init k0 k1);
     b \<leftarrow> sip_tail msg (8 * nblocks) (inlen mod 8) (push_bit 56 (of_nat inlen));
     Some (sip_final (sip_absorb v b)) }"

definition KLEN :: nat where
  "KLEN = 16"

definition SIP_KEY :: "u8 list" where
  "SIP_KEY = [0x00, 0x01, 0x02, 0x03, 0x04, 0x05, 0x06, 0x07,
              0x08, 0x09, 0x0a, 0x0b, 0x0c, 0x0d, 0x0e, 0x0f]"

definition bench_wymum :: "u8 list \<Rightarrow> u64 option" where
  "bench_wymum k = wymum16 k"

definition bench_xxh64 :: "u8 list \<Rightarrow> u64 option" where
  "bench_xxh64 k = qb_xxh64 k KLEN 0"

text \<open>The symbol that \<open>xxh64_helper.c\<close> exports.\<close>

definition xxh64_export :: "u8 list \<Rightarrow> nat \<Rightarrow> u64 \<Rightarrow> u64 option" where
  "xxh64_export input len seed = qb_xxh64 input len seed"

definition bench_siphash13 :: "u8 list \<Rightarrow> u64 option" where
  "bench_siphash13 k = siphash13 k KLEN SIP_KEY"

text \<open>\<open>(x > y) - (x < y)\<close>.\<close>

definition cmp_u64 :: "u64 \<Rightarrow> u64 \<Rightarrow> int" where
  "cmp_u64 x y = (if y < x then 1 else 0) - (if x < y then 1 else 0)"

section \<open>Filling the pools\<close>

text \<open>\<open>memcpy(dst + i, bytes, n)\<close>.\<close>

definition put_bytes :: "'a list \<Rightarrow> nat \<Rightarrow> 'a list \<Rightarrow> 'a list option" where
  "put_bytes dst i bs =
     (if i + length bs \<le> length dst then Some (take i dst @ bs @ drop (i + length bs) dst) else None)"

text \<open>The splitmix64 step, written out in \<open>fill_keys\<close> and a function in \<open>bench_qb.c\<close>.\<close>

definition sm_next :: "u64 \<Rightarrow> u64 \<times> u64" where
  "sm_next s =
     (let s = s + 0x9E3779B97F4A7C15;
          z = (s XOR drop_bit 30 s) * 0xBF58476D1CE4E5B9;
          z = (z XOR drop_bit 27 z) * 0x94D049BB133111EB
      in (z XOR drop_bit 31 z, s))"

text \<open>The keys of \<open>bench_hash.c\<close> lie in a block fresh from \<open>aligned_alloc\<close>, whose bytes are
  indeterminate, \<open>None\<close>, until they are written.\<close>

function fill_keys_loop :: "nat \<Rightarrow> nat \<Rightarrow> u64 \<Rightarrow> u8 option list \<Rightarrow> u8 option list option" where
  "fill_keys_loop nbytes i s dst =
     (if i < nbytes
      then let s = s + 0x9E3779B97F4A7C15;
               z = (s XOR drop_bit 30 s) * 0xBF58476D1CE4E5B9;
               z = (z XOR drop_bit 27 z) * 0x94D049BB133111EB;
               z = z XOR drop_bit 31 z
           in Option.bind (put_bytes dst i (map Some (le_bytes 8 z))) (fill_keys_loop nbytes (i + 8) s)
      else Some dst)"
  by pat_completeness auto
termination
  by (relation "measure (\<lambda>(nbytes, i, s, dst). nbytes - i)") auto

definition fill_keys :: "u8 option list \<Rightarrow> nat \<Rightarrow> u8 option list option" where
  "fill_keys dst n_keys = fill_keys_loop (n_keys * KLEN) 0 0xC0FFEE dst"

function fill_bytes_loop :: "nat \<Rightarrow> nat \<Rightarrow> u64 \<Rightarrow> u8 list \<Rightarrow> u8 list option" where
  "fill_bytes_loop nbytes i s dst =
     (if i < nbytes
      then let (v, s) = sm_next s;
               k = (if nbytes - i < 8 then nbytes - i else 8)
           in Option.bind (put_bytes dst i (take k (le_bytes 8 v))) (fill_bytes_loop nbytes (i + 8) s)
      else Some dst)"
  by pat_completeness auto
termination
  by (relation "measure (\<lambda>(nbytes, i, s, dst). nbytes - i)") auto

declare fill_keys_loop.simps [simp del] fill_bytes_loop.simps [simp del]

definition fill_bytes :: "u8 list \<Rightarrow> nat \<Rightarrow> u64 \<Rightarrow> u8 list option" where
  "fill_bytes dst n_bytes seed = fill_bytes_loop n_bytes 0 seed dst"

definition fill_hashes :: "u64 list \<Rightarrow> nat \<Rightarrow> u64 \<Rightarrow> u64 list option" where
  "fill_hashes dst n seed =
     map_option fst (foldM (\<lambda>i (dst, s). let (v, s) = sm_next s in do { dst \<leftarrow> wr_at dst i v; Some (dst, s) })
       [0..<n] (dst, seed))"

section \<open>The rounds are those of SipHash-1-3\<close>

text \<open>The code runs the two pairs of words one after the other, the specification side by side.\<close>

lemma SIPROUND_eq: "SIPROUND v = sip_rounds 1 v"
proof -
  have "SIP_ROTL x b = rotl b x" for x b by (simp only: SIP_ROTL_def rotl_def)
  then show ?thesis
    by (cases v) (simp only: SIPROUND_def One_nat_def sip_rounds.simps half_round.simps cross.simps prod.case Let_def)
qed

lemma sip_absorb_eq: "sip_absorb v m = sip_compress 1 v m"
proof -
  obtain v0 v1 v2 v3 where v: "v = (v0, v1, v2, v3)" by (cases v)
  obtain w0 w1 w2 w3 where "sip_rounds 1 (v0, v1, v2, v3 XOR m) = (w0, w1, w2, w3)" by (cases "sip_rounds 1 (v0, v1, v2, v3 XOR m)")
  with v show ?thesis by (simp only: sip_absorb_def sip_compress_def SIPROUND_eq enter.simps leave.simps prod.case Let_def)
qed

lemma sip_final_eq: "sip_final v = sip_finish 3 v"
proof -
  have three: "sip_rounds 3 u = sip_rounds 1 (sip_rounds 1 (sip_rounds 1 u))" for u by (simp add: numeral_3_eq_3)
  obtain v0 v1 v2 v3 where v: "v = (v0, v1, v2, v3)" by (cases v)
  obtain w0 w1 w2 w3 where "sip_rounds 3 (v0, v1, v2 XOR 0xff, v3) = (w0, w1, w2, w3)" by (cases "sip_rounds 3 (v0, v1, v2 XOR 0xff, v3)")
  with v show ?thesis
    by (simp only: sip_final_def sip_finish_def SIPROUND_eq mark_end.simps fold_up.simps prod.case Let_def flip: three)
qed

lemma sip_constants: "letters ''somepseu'' = 0x736f6d6570736575" "letters ''dorandom'' = 0x646f72616e646f6d"
  "letters ''lygenera'' = 0x6c7967656e657261" "letters ''tedbytes'' = 0x7465646279746573"
  by code_simp+

lemma sip_init_eq: "sip_init k0 k1 = sip_start k0 k1"
  by (simp add: sip_init_def sip_start_def sip_constants xor.commute)

lemma sip_blocks_eq:
  "8 * (i + r) \<le> length p \<Longrightarrow>
     sip_blocks p r i v = Some (foldl sip_absorb v (words_of (take (8 * r) (drop (8 * i) p))))"
proof (induction r arbitrary: i v)
  case (Suc r)
  let ?q = "drop (8 * i) p"
  have split: "take (8 * Suc r) ?q = take 8 ?q @ take (8 * r) (drop (8 * Suc i) p)"
    using Suc.prems by (simp add: take_add add.commute)
  have "words_of (take 8 ?q) = [le_word (take 8 ?q)]"
    using Suc.prems by (intro words_of_short) auto
  moreover have "length (take 8 ?q) = 8 * 1" using Suc.prems by simp
  ultimately have "words_of (take (8 * Suc r) ?q)
      = le_word (take 8 ?q) # words_of (take (8 * r) (drop (8 * Suc i) p))"
    unfolding split by (subst words_of_append [where n = 1]) simp_all
  then show ?case
    using Suc by (simp add: rd_le_Some)
qed simp

lemma sip_tail_eq:
  "pos + n \<le> length p \<Longrightarrow> sip_tail p pos n b = Some (b OR le_word (take n (drop pos p)))"
proof (induction n arbitrary: b)
  case (Suc n)
  then have snoc: "take (Suc n) (drop pos p) = take n (drop pos p) @ [p ! (pos + n)]"
    by (simp add: take_Suc_conv_app_nth)
  have "push_bit (8 * n) (ucast x) XOR le_word xs = push_bit (8 * n) (ucast x) OR (le_word xs :: u64)"
    if "length xs = n" for x :: u8 and xs
  proof (rule bit_word_eqI)
    fix j assume "j < LENGTH(64)"
    have "j div 8 < n \<Longrightarrow> \<not> 8 * n \<le> j" by (simp add: div_less_iff_less_mult mult.commute)
    with that show "bit (push_bit (8 * n) (ucast x) XOR le_word xs :: u64) j \<longleftrightarrow>
        bit (push_bit (8 * n) (ucast x) OR le_word xs :: u64) j"
      by (auto simp: bit_simps bit_le_word)
  qed
  with Suc snoc show ?case
    by (simp add: rd_at_Some le_word_snoc ac_simps)
qed simp

lemma le_word_zeros: "(le_word (xs @ replicate n 0 @ ys) :: u64) = le_word xs OR push_bit (8 * (length xs + n)) (le_word ys)"
proof (rule bit_word_eqI)
  fix j assume "j < LENGTH(64)"
  define k where "k = length xs + n"
  have k: "8 * k \<le> j \<longleftrightarrow> k \<le> j div 8" by (simp add: less_eq_div_iff_mult_less_eq mult.commute)
  have sub: "(j - 8 * k) div 8 = j div 8 - k \<and> (j - 8 * k) mod 8 = j mod 8" if "8 * k \<le> j"
    using that by (metis add.commute div_mult_self4 le_add_diff_inverse2 diff_add_inverse2 mod_mult_self2 zero_neq_numeral)
  have "bit (le_word (xs @ replicate n 0 @ ys) :: u64) j \<longleftrightarrow> j div 8 < length xs \<and> bit (xs ! (j div 8)) (j mod 8) \<or>
      k \<le> j div 8 \<and> j div 8 - k < length ys \<and> bit (ys ! (j div 8 - k)) (j mod 8)"
    using \<open>j < LENGTH(64)\<close> by (auto simp: bit_le_word nth_append k_def)
  also have "\<dots> \<longleftrightarrow> bit (le_word xs OR push_bit (8 * k) (le_word ys) :: u64) j"
    using \<open>j < LENGTH(64)\<close> k sub by (auto simp: bit_simps bit_le_word)
  finally show "bit (le_word (xs @ replicate n 0 @ ys) :: u64) j \<longleftrightarrow>
      bit (le_word xs OR push_bit (8 * (length xs + n)) (le_word ys) :: u64) j" unfolding k_def .
qed

lemma siphash_eq:
  assumes "inlen \<le> length msg" and "16 \<le> length k"
  shows "siphash13 msg inlen k = Some (siphash 1 3 k (take inlen msg))"
proof -
  let ?nb = "inlen div 8" and ?r = "inlen mod 8"
  let ?blocks = "take (8 * ?nb) msg" and ?tail = "take ?r (drop (8 * ?nb) msg)"
  let ?pad = "replicate (7 - ?r) 0 @ [of_nat inlen :: u8]"
  have len: "8 * ?nb + ?r = inlen" by simp
  with assms(1) have le: "8 * ?nb \<le> length msg" "8 * ?nb + ?r \<le> length msg" by linarith+
  have "take inlen msg = ?blocks @ ?tail" by (subst len [symmetric], simp only: take_add)
  moreover have "length ?blocks = 8 * ?nb" using le by simp
  ultimately have words: "words_of (take inlen msg @ ?pad) = words_of ?blocks @ words_of (?tail @ ?pad)"
    by (simp only: words_of_append append_assoc)
  have tl: "length ?tail = ?r" using le(2) by (simp only: length_take length_drop)
  have "?r < 8" by simp
  then have r: "?r \<le> 7" by linarith
  then have "length (?tail @ ?pad) = 8" using tl by simp
  then have "words_of (?tail @ ?pad) = [le_word (?tail @ ?pad)]" by (intro words_of_short) auto
  moreover have "(le_word (?tail @ ?pad) :: u64) = le_word ?tail OR push_bit 56 (of_nat inlen)"
  proof -
    have "push_bit 56 (ucast (of_nat inlen :: u8)) = (push_bit 56 (of_nat inlen) :: u64)"
      by (rule bit_word_eqI) (auto simp: bit_simps)
    then show ?thesis using r unfolding le_word_zeros tl by simp
  qed
  ultimately have "words_of (take inlen msg @ ?pad) = words_of ?blocks @ [push_bit 56 (of_nat inlen) OR le_word ?tail]"
    using words by (simp add: or.commute)
  moreover have "length (take inlen msg) = inlen" using assms(1) by simp
  ultimately show ?thesis
    using assms(2) le by (simp add: siphash13_def siphash_def sip_message_def rd_le_Some sip_blocks_eq sip_tail_eq sip_init_eq
        sip_absorb_eq [abs_def] sip_final_eq Let_def del: One_nat_def)
qed

lemma sip_blocks_None: "length p < 8 * (i + r) \<Longrightarrow> 0 < r \<Longrightarrow> sip_blocks p r i v = None"
proof (induction r arbitrary: i v)
  case (Suc r)
  show ?case
  proof (cases "r = 0")
    case True
    with Suc.prems show ?thesis by (simp add: rd_le_def)
  next
    case False
    with Suc show ?thesis by (cases "rd_le 8 p (8 * i) :: u64 option") auto
  qed
qed simp

lemma sip_tail_None: "length p < pos + n \<Longrightarrow> 0 < n \<Longrightarrow> sip_tail p pos n b = None"
  by (cases n) (auto simp: rd_at_def)

lemma siphash_None:
  assumes "length msg < inlen \<or> length k < 16"
  shows "siphash13 msg inlen k = None"
proof (cases "length k < 16")
  case True
  then show ?thesis by (auto simp: siphash13_def rd_le_def)
next
  case False
  with assms have short: "length msg < inlen" by simp
  have len: "8 * (inlen div 8) + inlen mod 8 = inlen" by simp
  show ?thesis
  proof (cases "length msg < 8 * (inlen div 8)")
    case True
    then have "0 < inlen div 8" by (cases "inlen div 8") auto
    with True False show ?thesis by (simp add: siphash13_def rd_le_Some sip_blocks_None)
  next
    case False
    with short len have "length msg < 8 * (inlen div 8) + inlen mod 8" and "0 < inlen mod 8" by linarith+
    with False show ?thesis by (cases "length k < 16") (auto simp: siphash13_def rd_le_def sip_blocks_eq sip_tail_None)
  qed
qed

section \<open>The generators\<close>

text \<open>The value that the generator gives for a state: it is \<open>sm_next\<close> without the step.\<close>

definition sm_mix :: "u64 \<Rightarrow> u64" where
  "sm_mix s = fst (sm_next (s - 0x9E3779B97F4A7C15))"

definition sm_at :: "u64 \<Rightarrow> nat \<Rightarrow> u64" where
  "sm_at seed i = sm_mix (seed + of_nat (i + 1) * 0x9E3779B97F4A7C15)"

lemma sm_next_eq: "sm_next s = (sm_mix (s + 0x9E3779B97F4A7C15), s + 0x9E3779B97F4A7C15)"
  by (simp add: sm_mix_def sm_next_def Let_def)

lemma inj_sm_mix: "inj sm_mix"
proof -
  have 1: "inj (\<lambda>z :: u64. z * 0xBF58476D1CE4E5B9)" by (rule inj_mult_unit [where d = "0x96de1b173f119089"]) simp
  have 2: "inj (\<lambda>z :: u64. z * 0x94D049BB133111EB)" by (rule inj_mult_unit [where d = "0x319642b2d24d8ec3"]) simp
  have eq: "sm_mix = (\<lambda>z. z XOR drop_bit 31 z) \<circ> (\<lambda>z. z * 0x94D049BB133111EB) \<circ> (\<lambda>z. z XOR drop_bit 27 z) \<circ>
      (\<lambda>z. z * 0xBF58476D1CE4E5B9) \<circ> (\<lambda>z. z XOR drop_bit 30 z)"
    by (simp add: sm_mix_def sm_next_def fun_eq_iff Let_def)
  show ?thesis unfolding eq by (intro inj_compose 1 2 inj_xorshift) simp_all
qed

lemma gamma_cancel: "a * 0x9E3779B97F4A7C15 = b * 0x9E3779B97F4A7C15 \<longleftrightarrow> a = (b :: u64)"
  using inj_mult_unit [of "0xf1de83e19937733d" "0x9E3779B97F4A7C15 :: u64"] by (auto dest: injD)

lemma sm_at_eq_iff:
  "sm_at s i = sm_at t j \<longleftrightarrow> s + of_nat (i + 1) * 0x9E3779B97F4A7C15 = t + of_nat (j + 1) * 0x9E3779B97F4A7C15"
  unfolding sm_at_def by (rule inj_eq [OF inj_sm_mix])

lemma sm_at_distinct: "i < 2 ^ 64 \<Longrightarrow> j < 2 ^ 64 \<Longrightarrow> sm_at s i = sm_at s j \<longleftrightarrow> i = j"
proof -
  assume ij: "i < 2 ^ 64" "j < 2 ^ 64"
  have "sm_at s i = sm_at s j \<longleftrightarrow> (of_nat (i + 1) :: u64) = of_nat (j + 1)"
    unfolding sm_at_eq_iff by (simp only: add_left_cancel gamma_cancel)
  also have "\<dots> \<longleftrightarrow> (of_nat i :: u64) = of_nat j" by (simp only: of_nat_add add_right_cancel)
  also have "\<dots> \<longleftrightarrow> i = j"
  proof
    assume "(of_nat i :: u64) = of_nat j"
    then have "unat (of_nat i :: u64) = unat (of_nat j :: u64)" by (rule arg_cong)
    moreover have "unat (of_nat i :: u64) = i" and "unat (of_nat j :: u64) = j"
      using ij by (intro unat_of_nat_small; simp)+
    ultimately show "i = j" by (simp only:)
  qed (simp only:)
  finally show ?thesis .
qed

lemma sm_step: "sm_next (seed + of_nat n * 0x9E3779B97F4A7C15) = (sm_at seed n, seed + of_nat (n + 1) * 0x9E3779B97F4A7C15)"
  by (simp add: sm_next_eq sm_at_def algebra_simps)

lemma fill_hashes_loop:
  "n \<le> length dst \<Longrightarrow>
     foldM (\<lambda>i (dst, s). let (v, s) = sm_next s in do { dst \<leftarrow> wr_at dst i v; Some (dst, s) }) [0..<n] (dst, seed)
       = Some (map (sm_at seed) [0..<n] @ drop n dst, seed + of_nat n * 0x9E3779B97F4A7C15)"
proof (induction n)
  case (Suc n)
  let ?xs = "map (sm_at seed) [0..<n] @ drop n dst"
  have "wr_at ?xs n (sm_at seed n) = Some (map (sm_at seed) [0..<Suc n] @ drop (Suc n) dst)"
    using Suc.prems by (simp add: wr_at_def list_update_append Cons_nth_drop_Suc [symmetric])
  with Suc show ?case by (simp add: foldM_append sm_step)
qed simp

lemma fill_hashes_eq: "n \<le> length dst \<Longrightarrow> fill_hashes dst n seed = Some (map (sm_at seed) [0..<n] @ drop n dst)"
  unfolding fill_hashes_def by (subst fill_hashes_loop) simp_all

lemma sm_at_other_seed:
  assumes "i \<le> 2 ^ 62" and "j \<le> 2 ^ 62"
  shows "sm_at 0xC3C3C3C3 i \<noteq> sm_at 0xD4D4D4D4 j"
proof
  let ?K = "10642173584520426509 :: u64"
  assume "sm_at 0xC3C3C3C3 i = sm_at 0xD4D4D4D4 j"
  then have "0xC3C3C3C3 + of_nat (i + 1) * 0x9E3779B97F4A7C15 = 0xD4D4D4D4 + of_nat (j + 1) * (0x9E3779B97F4A7C15 :: u64)"
    by (simp only: sm_at_eq_iff)
  also have "\<dots> = 0xC3C3C3C3 + (of_nat (j + 1) + ?K) * 0x9E3779B97F4A7C15" by (simp add: distrib_right)
  finally have "of_nat (i + 1) = of_nat (j + 1) + ?K" by (simp only: add_left_cancel gamma_cancel)
  then have "unat (of_nat (i + 1) :: u64) = unat (of_nat (j + 1) + ?K)" by (rule arg_cong)
  moreover have "unat (of_nat (i + 1) :: u64) = i + 1" and j: "unat (of_nat (j + 1) :: u64) = j + 1"
    using assms by (intro unat_of_nat_small; simp)+
  moreover have "unat (of_nat (j + 1) + ?K) = (j + 1 + 10642173584520426509) mod 2 ^ 64"
    unfolding unat_word_ariths(1) j by (simp add: take_bit_eq_mod)
  ultimately have "i + 1 = (j + 1 + 10642173584520426509) mod 2 ^ 64" by (simp only:)
  moreover have "j + 1 + 10642173584520426509 < 2 ^ 64" using assms(2) by simp
  ultimately show False using assms(1) by simp
qed

text \<open>Both byte generators write one word after the other, each in its encoding.\<close>

fun put_words :: "(u64 \<Rightarrow> 'a list) \<Rightarrow> nat \<Rightarrow> nat \<Rightarrow> u64 \<Rightarrow> 'a list \<Rightarrow> 'a list option" where
  "put_words enc 0 i s dst = Some dst"
| "put_words enc (Suc r) i s dst =
     (let (v, s) = sm_next s in Option.bind (put_bytes dst (8 * i) (enc v)) (put_words enc r (i + 1) s))"

lemma fill_keys_words: "fill_keys_loop (8 * (i + r)) (8 * i) s dst = put_words (\<lambda>v. map Some (le_bytes 8 v)) r i s dst"
proof (induction r arbitrary: i s dst)
  case (Suc r)
  let ?enc = "\<lambda>v. map Some (le_bytes 8 v)"
  have eq: "8 * i + 8 = 8 * (i + 1)" "i + Suc r = i + 1 + r" and lt: "8 * i < 8 * (i + 1 + r)" by simp_all
  have IH: "fill_keys_loop (8 * (i + 1 + r)) (8 * (i + 1)) t = put_words ?enc r (i + 1) t" for t
    by (rule ext) (rule Suc.IH)
  show ?case
    unfolding eq(2) by (simp only: fill_keys_loop.simps [of "8 * (i + 1 + r)" "8 * i"] put_words.simps sm_next_def Let_def
        prod.case lt if_True eq(1) IH)
qed (simp add: fill_keys_loop.simps)

lemma fill_bytes_words: "fill_bytes_loop (8 * (i + r)) (8 * i) s dst = put_words (le_bytes 8) r i s dst"
proof (induction r arbitrary: i s dst)
  case (Suc r)
  obtain v t where v: "sm_next s = (v, t)" by (cases "sm_next s")
  have eq: "8 * i + 8 = 8 * (i + 1)" "i + Suc r = i + 1 + r" by simp_all
  have full: "take 8 (le_bytes 8 v) = le_bytes 8 v" by simp
  have lt: "\<not> 8 * (i + 1 + r) - 8 * i < 8" "8 * i < 8 * (i + 1 + r)" by simp_all
  have IH: "fill_bytes_loop (8 * (i + 1 + r)) (8 * (i + 1)) t = put_words (le_bytes 8) r (i + 1) t"
    by (rule ext) (rule Suc.IH)
  show ?case
    unfolding eq(2) by (simp only: fill_bytes_loop.simps [of "8 * (i + 1 + r)" "8 * i"] put_words.simps v Let_def prod.case
        lt if_True if_False full eq(1) IH)
qed (simp add: fill_bytes_loop.simps)

lemma put_words_eq:
  assumes "\<And>v. length (enc v) = 8"
  shows "8 * (i + r) \<le> length dst \<Longrightarrow> put_words enc r i (seed + of_nat i * 0x9E3779B97F4A7C15) dst =
     Some (take (8 * i) dst @ concat (map (\<lambda>j. enc (sm_at seed j)) [i..<i + r]) @ drop (8 * (i + r)) dst)"
proof (induction r arbitrary: i dst)
  case (Suc r)
  let ?e = "enc (sm_at seed i)"
  let ?d = "take (8 * i) dst @ ?e @ drop (8 * i + 8) dst"
  have put: "put_bytes dst (8 * i) ?e = Some ?d" using Suc.prems by (simp add: put_bytes_def assms)
  have len: "length (take (8 * i) dst) = 8 * i" "length ?d = length dst" using Suc.prems by (simp_all add: assms)
  have "put_words enc (Suc r) i (seed + of_nat i * 0x9E3779B97F4A7C15) dst =
      put_words enc r (i + 1) (seed + of_nat (i + 1) * 0x9E3779B97F4A7C15) ?d"
    by (simp only: put_words.simps sm_step Let_def prod.case put Option.bind.simps)
  also have "\<dots> = Some (take (8 * (i + 1)) ?d @ concat (map (\<lambda>j. enc (sm_at seed j)) [i + 1..<i + 1 + r]) @ drop (8 * (i + 1 + r)) ?d)"
    using Suc.prems len(2) by (intro Suc.IH) simp
  also have "take (8 * (i + 1)) ?d = take (8 * i) dst @ ?e" using len(1) by (simp add: assms)
  also have "drop (8 * (i + 1 + r)) ?d = drop (8 * (i + Suc r)) dst" using len(1) by (simp add: assms algebra_simps)
  finally have "put_words enc (Suc r) i (seed + of_nat i * 0x9E3779B97F4A7C15) dst =
      Some ((take (8 * i) dst @ ?e) @ concat (map (\<lambda>j. enc (sm_at seed j)) [i + 1..<i + 1 + r]) @ drop (8 * (i + Suc r)) dst)" .
  moreover have "[i..<i + Suc r] = i # [i + 1..<i + 1 + r]" by (simp add: upt_conv_Cons del: upt_Suc)
  ultimately show ?case by (simp only: list.map concat.simps append_assoc)
qed simp

text \<open>The words that a pool of \<open>n\<close> of them holds, and their bytes.\<close>

definition word_pool :: "u64 \<Rightarrow> nat \<Rightarrow> u64 list" where
  "word_pool seed n = map (sm_at seed) [0..<n]"

definition byte_pool :: "u64 \<Rightarrow> nat \<Rightarrow> u8 list" where
  "byte_pool seed n = concat (map (le_bytes 8) (word_pool seed n))"

lemma length_byte_pool [simp]: "length (byte_pool seed n) = 8 * n"
  by (simp add: byte_pool_def word_pool_def length_concat comp_def sum_list_triv)

lemma fill_bytes_eq: "8 * n \<le> length dst \<Longrightarrow> fill_bytes dst (8 * n) seed = Some (byte_pool seed n @ drop (8 * n) dst)"
  using fill_bytes_words [of 0 n seed dst] put_words_eq [of "le_bytes 8" 0 n dst seed]
  by (simp add: fill_bytes_def byte_pool_def word_pool_def comp_def)

lemma fill_keys_eq:
  "2 * n * 8 \<le> length dst \<Longrightarrow> fill_keys dst n = Some (map Some (byte_pool 0xC0FFEE (2 * n)) @ drop (16 * n) dst)"
  using fill_keys_words [of 0 "2 * n" "0xC0FFEE" dst] put_words_eq [of "\<lambda>v. map Some (le_bytes 8 v)" 0 "2 * n" dst "0xC0FFEE"]
  by (simp add: fill_keys_def KLEN_def byte_pool_def word_pool_def comp_def map_concat mult.commute)

section \<open>Properties\<close>

text \<open>C34: \<open>siphash13\<close> is SipHash-1-3 as its authors specify it, for every message length. It faults
  when the message or the key is too short and otherwise gives the value of the specification,
  reading exactly \<open>inlen\<close> bytes of the message and 16 of the key; the specification, instantiated
  with 2 and 4 rounds, gives the test vector of its paper, and with 1 and 3 the published value for
  the empty message.\<close>

theorem siphash13_correct:
  "siphash13 msg inlen k =
     (if inlen \<le> length msg \<and> 16 \<le> length k then Some (siphash 1 3 k (take inlen msg)) else None) \<and>
   siphash 2 4 vector_key (map of_nat [0..<15]) = 0xa129ca6149be45e5 \<and>
   siphash 1 3 vector_key [] = 0xabac0158050fc4dc"
  using siphash_eq [of inlen msg k] siphash_None [of msg inlen k] siphash_2_4_vector siphash_1_3_vector by auto

text \<open>The two benchmarks draw the same keys: into a block that has room for them, \<open>fill_keys\<close> of
  \<open>bench_hash.c\<close> writes what \<open>fill_bytes\<close> of \<open>bench_qb.c\<close> writes for the same seed and size.\<close>

theorem fill_keys_is_fill_bytes:
  "n * 16 \<le> length dst \<Longrightarrow> fill_keys (map Some dst) n = map_option (map Some) (fill_bytes dst (n * 16) 0xC0FFEE)"
  using fill_bytes_eq [of "2 * n" dst "0xC0FFEE"] by (simp add: fill_keys_eq drop_map mult.commute)

theorem fill_keys_is_fill_bytes_witness:
  "fill_keys (map Some (replicate 16 7)) 1 = map_option (map Some) (fill_bytes (replicate 16 7) 16 0xC0FFEE)"
  using fill_keys_is_fill_bytes [of 1 "replicate 16 7"] by simp

text \<open>The hash pools of \<open>bench_qb.c\<close> measure what they are meant to: up to \<open>2 ^ 62\<close> hashes each,
  the inserted and the queried hashes are all different, within each pool and between the two, so
  that every hit of a miss query is a false positive.\<close>

theorem pools_distinct:
  assumes "n \<le> length a" and "m \<le> length b" and "n \<le> 2 ^ 62" and "m \<le> 2 ^ 62"
  shows "\<exists>ins missing. fill_hashes a n 0xC3C3C3C3 = Some (ins @ drop n a) \<and> length ins = n \<and>
     fill_hashes b m 0xD4D4D4D4 = Some (missing @ drop m b) \<and> length missing = m \<and> distinct (ins @ missing)"
proof -
  have "inj_on (sm_at seed) {0..<k}" if "k \<le> 2 ^ 62" for seed k
    using that by (auto simp: inj_on_def sm_at_distinct)
  moreover have "sm_at 0xC3C3C3C3 i \<noteq> sm_at 0xD4D4D4D4 j" if "i < n" "j < m" for i j
    using that assms(3,4) by (intro sm_at_other_seed) simp_all
  ultimately have "distinct (map (sm_at 0xC3C3C3C3) [0..<n] @ map (sm_at 0xD4D4D4D4) [0..<m])"
    using assms(3,4) by (auto simp: distinct_map)
  then show ?thesis using assms(1,2)
    by (intro exI [of _ "map (sm_at 0xC3C3C3C3) [0..<n]"] exI [of _ "map (sm_at 0xD4D4D4D4) [0..<m]"]) (simp add: fill_hashes_eq)
qed

theorem pools_distinct_witness:
  "\<exists>ins missing. fill_hashes [1, 2, 3] 2 0xC3C3C3C3 = Some (ins @ [3]) \<and> fill_hashes [4] 1 0xD4D4D4D4 = Some missing \<and>
     distinct (ins @ missing)"
  using pools_distinct [of 2 "[1, 2, 3]" 1 "[4]"] by auto

text \<open>The comparator of the benchmark's samples is the order of the numbers, with no
  truncation of a difference.\<close>

theorem cmp_u64_is_order: "(cmp_u64 x y < 0) = (x < y) \<and> (cmp_u64 x y = 0) = (x = y) \<and> (0 < cmp_u64 x y) = (y < x)"
  by (auto simp: cmp_u64_def)

end
