(* ===== verification/Bench_Qb.thy ===== *)
theory Bench_Qb
  imports Bench_Hash Fuzz_Harness Fuse_Alloc "HOL-Library.Multiset"
begin

text \<open>
  The benchmarks: the four timed loops of \<open>tools/bench_qb.c\<close> and its \<open>run_size\<close>, and the loop
  \<open>measure\<close> of \<open>tools/bench_hash.c\<close>, whose keys lie in memory that is indeterminate until it is
  written. The readings of the clock, the C library's \<open>qsort\<close> and allocators and the rounding of doubles are
  arguments; the printing is left out, what is printed is a result. The scratch buffers of the
  programs are values, as in \<open>Fuzz_Harness\<close>.
\<close>

section \<open>Definitions\<close>

text \<open>\<open>exit(1)\<close> ends the program.\<close>

datatype 'a run = Exited | Ran 'a

definition WARMUP :: nat where "WARMUP = 2"

definition REPEATS :: nat where "REPEATS = 11"

definition ROUND64 :: "size_t \<Rightarrow> size_t" where
  "ROUND64 n = (n + 63) AND NOT 63"

record stats_t =
  st_min :: dbl
  st_med :: dbl
  st_p90 :: dbl

text \<open>\<open>answers r\<close> is the allocator in the repetition \<open>r\<close> and \<open>now r j\<close> the reading number \<open>j\<close> of the
  clock in it; \<open>stack\<close> what the three arrays of samples hold at first.\<close>

record bench_env =
  answers :: "nat \<Rightarrow> allocator"
  now :: "nat \<Rightarrow> nat \<Rightarrow> u64"
  sort_samples :: "u64 list \<Rightarrow> u64 list"
  rounded :: "real \<Rightarrow> dbl"
  stack :: "u64 list \<times> u64 list \<times> u64 list"

definition summarize :: "bench_env \<Rightarrow> u64 list \<Rightarrow> nat \<Rightarrow> nat \<Rightarrow> stats_t option" where
  "summarize E samples reps n_ops = do {
     let samples = sort_samples E samples;
     let per_op = (\<lambda>t. ddiv (rounded E) (rounded E (real (unat t))) (rounded E (real n_ops)));
     a \<leftarrow> rd_at samples 0;
     b \<leftarrow> rd_at samples (reps div 2);
     c \<leftarrow> rd_at samples (reps * 9 div 10);
     Some \<lparr>st_min = per_op a, st_med = per_op b, st_p90 = per_op c\<rparr> }"

type_synonym bench_state = "qb_heap \<times> size_t \<times> u64 list \<times> u64 list \<times> u64 list"

text \<open>One repetition, the three timed phases being arguments.\<close>

definition bench_rep ::
  "bench_env \<Rightarrow> size_t \<Rightarrow> (addr \<Rightarrow> qb_heap \<Rightarrow> qb_heap option) \<Rightarrow>
     (addr \<Rightarrow> qb_heap \<Rightarrow> size_t \<Rightarrow> size_t option) \<Rightarrow> (addr \<Rightarrow> qb_heap \<Rightarrow> size_t \<Rightarrow> size_t option) \<Rightarrow>
     nat \<Rightarrow> bench_state \<Rightarrow> bench_state run option" where
  "bench_rep E nbits fill probe_un probe_in r = (\<lambda>(hp, sink, ins, miss, hit). do {
     (f, hp) \<leftarrow> qb_new (fst (answers E r hp)) (snd (answers E r hp)) nbits hp;
     if f = NULL then Some Exited
     else do {
       let t0 = now E r 0;
       hp \<leftarrow> fill f hp;
       let t1 = now E r 1;
       sink \<leftarrow> probe_un f hp sink;
       let t2 = now E r 2;
       sink \<leftarrow> probe_in f hp sink;
       let t3 = now E r 3;
       hp \<leftarrow> qb_free f hp;
       if WARMUP \<le> r then do {
         let i = r - WARMUP;
         ins \<leftarrow> wr_at ins i (t1 - t0);
         miss \<leftarrow> wr_at miss i (t2 - t1);
         hit \<leftarrow> wr_at hit i (t3 - t2);
         Some (Ran (hp, sink, ins, miss, hit)) }
       else Some (Ran (hp, sink, ins, miss, hit)) } })"

fun go_on :: "(nat \<Rightarrow> 's \<Rightarrow> 's run option) \<Rightarrow> nat \<Rightarrow> 's run \<Rightarrow> 's run option" where
  "go_on rep r Exited = Some Exited"
| "go_on rep r (Ran s) = rep r s"

type_synonym bench_result = "size_t \<times> stats_t \<times> stats_t \<times> stats_t"

text \<open>The repetitions and the three summaries; the result has the heap and the sink too.\<close>

definition bench_run ::
  "bench_env \<Rightarrow> (nat \<Rightarrow> bench_state \<Rightarrow> bench_state run option) \<Rightarrow> nat \<Rightarrow> nat \<Rightarrow> qb_heap \<Rightarrow>
     (qb_heap \<times> bench_result) run option" where
  "bench_run E rep n_insert n_query hp = do {
     res \<leftarrow> foldM (go_on rep) [0..<WARMUP + REPEATS] (Ran (hp, 0, stack E));
     (case res of
        Exited \<Rightarrow> Some Exited
      | Ran (hp, sink, ins, miss, hit) \<Rightarrow> do {
          a \<leftarrow> summarize E ins REPEATS n_insert;
          b \<leftarrow> summarize E miss REPEATS n_query;
          c \<leftarrow> summarize E hit REPEATS n_insert;
          Some (Ran (hp, sink, a, b, c)) }) }"

definition insert_each :: "u8 list \<Rightarrow> nat \<Rightarrow> addr \<Rightarrow> qb_heap \<Rightarrow> qb_heap option" where
  "insert_each keys n f hp = foldM (\<lambda>i. qb_insert f (drop (i * KLEN) keys) KLEN) [0..<n] hp"

definition probe_each :: "u8 list \<Rightarrow> nat \<Rightarrow> addr \<Rightarrow> qb_heap \<Rightarrow> size_t \<Rightarrow> size_t option" where
  "probe_each keys n f hp sink =
     foldM (\<lambda>i sink. do { c \<leftarrow> qb_contains f (drop (i * KLEN) keys) KLEN hp; Some (sink + of_nat c) }) [0..<n] sink"

definition insert_each_hash :: "u64 list \<Rightarrow> nat \<Rightarrow> addr \<Rightarrow> qb_heap \<Rightarrow> qb_heap option" where
  "insert_each_hash hashes n f hp =
     foldM (\<lambda>i hp. do { h \<leftarrow> rd_at hashes i; qb_insert_prehash f h hp }) [0..<n] hp"

definition probe_each_hash :: "u64 list \<Rightarrow> nat \<Rightarrow> addr \<Rightarrow> qb_heap \<Rightarrow> size_t \<Rightarrow> size_t option" where
  "probe_each_hash hashes n f hp sink =
     foldM (\<lambda>i sink. do { h \<leftarrow> rd_at hashes i; c \<leftarrow> qb_contains_prehash f h hp; Some (sink + of_nat c) }) [0..<n] sink"

definition bench_hash_bloom_single ::
  "bench_env \<Rightarrow> size_t \<Rightarrow> nat \<Rightarrow> nat \<Rightarrow> u8 list \<Rightarrow> u8 list \<Rightarrow> qb_heap \<Rightarrow> (qb_heap \<times> bench_result) run option" where
  "bench_hash_bloom_single E nbits n_insert n_query keys_in keys_un =
     bench_run E (bench_rep E nbits (insert_each keys_in n_insert)
       (probe_each keys_un n_query) (probe_each keys_in n_insert)) n_insert n_query"

definition bench_prehash_single ::
  "bench_env \<Rightarrow> size_t \<Rightarrow> nat \<Rightarrow> nat \<Rightarrow> u64 list \<Rightarrow> u64 list \<Rightarrow> qb_heap \<Rightarrow> (qb_heap \<times> bench_result) run option" where
  "bench_prehash_single E nbits n_insert n_query hash_in hash_un =
     bench_run E (bench_rep E nbits (insert_each_hash hash_in n_insert)
       (probe_each_hash hash_un n_query) (probe_each_hash hash_in n_insert)) n_insert n_query"

definition bench_hash_bloom ::
  "bench_env \<Rightarrow> size_t \<Rightarrow> nat \<Rightarrow> nat \<Rightarrow> u8 list \<Rightarrow> u8 list \<Rightarrow> qb_heap \<Rightarrow> (qb_heap \<times> bench_result) run option" where
  "bench_hash_bloom E nbits n_insert n_query keys_in keys_un =
     bench_run E (bench_rep E nbits (\<lambda>f. qb_insert_bulk f keys_in KLEN n_insert)
       (\<lambda>f hp sink. do { c \<leftarrow> qb_contains_bulk f keys_un KLEN n_query hp; Some (sink + of_nat c) })
       (\<lambda>f hp sink. do { c \<leftarrow> qb_contains_bulk f keys_in KLEN n_insert hp; Some (sink + of_nat c) })) n_insert n_query"

definition bench_prehash ::
  "bench_env \<Rightarrow> size_t \<Rightarrow> nat \<Rightarrow> nat \<Rightarrow> u64 list \<Rightarrow> u64 list \<Rightarrow> qb_heap \<Rightarrow> (qb_heap \<times> bench_result) run option" where
  "bench_prehash E nbits n_insert n_query hash_in hash_un =
     bench_run E (bench_rep E nbits (\<lambda>f. qb_insert_prehash_bulk f hash_in n_insert)
       (\<lambda>f hp sink. do { c \<leftarrow> qb_contains_prehash_bulk f hash_un n_query hp; Some (sink + of_nat c) })
       (\<lambda>f hp sink. do { c \<leftarrow> qb_contains_prehash_bulk f hash_in n_insert hp; Some (sink + of_nat c) })) n_insert n_query"

text \<open>\<open>run_size\<close> up to the printing: the results of the four benchmarks in the order in which they
  run, each with the environment \<open>E k\<close> of its own. Every \<open>aligned_alloc\<close> answers a block of bytes or
  of words, or nothing.\<close>

definition run_size ::
  "(nat \<Rightarrow> bench_env) \<Rightarrow> (nat \<Rightarrow> size_t \<Rightarrow> u8 list option) \<Rightarrow> (nat \<Rightarrow> size_t \<Rightarrow> u64 list option) \<Rightarrow>
     size_t \<Rightarrow> nat \<Rightarrow> nat \<Rightarrow> qb_heap \<Rightarrow>
     (qb_heap \<times> bench_result \<times> bench_result \<times> bench_result \<times> bench_result) run option" where
  "run_size E bytes_for words_for nbits n_insert n_query hp = do {
     let keys_in = bytes_for 0 (ROUND64 (of_nat n_insert * 16));
     let keys_un = bytes_for 1 (ROUND64 (of_nat n_query * 16));
     let hash_in = words_for 0 (ROUND64 (of_nat n_insert * 8));
     let hash_un = words_for 1 (ROUND64 (of_nat n_query * 8));
     (case (keys_in, keys_un, hash_in, hash_un) of
        (Some keys_in, Some keys_un, Some hash_in, Some hash_un) \<Rightarrow> do {
          keys_in \<leftarrow> fill_bytes keys_in (unat (of_nat n_insert * 16 :: size_t)) 0xA1A1A1A1;
          keys_un \<leftarrow> fill_bytes keys_un (unat (of_nat n_query * 16 :: size_t)) 0xB2B2B2B2;
          hash_in \<leftarrow> fill_hashes hash_in n_insert 0xC3C3C3C3;
          hash_un \<leftarrow> fill_hashes hash_un n_query 0xD4D4D4D4;
          s \<leftarrow> bench_hash_bloom_single (E 0) nbits n_insert n_query keys_in keys_un hp;
          (case s of Exited \<Rightarrow> Some Exited
           | Ran (hp, s) \<Rightarrow> do {
               sp \<leftarrow> bench_prehash_single (E 1) nbits n_insert n_query hash_in hash_un hp;
               (case sp of Exited \<Rightarrow> Some Exited
                | Ran (hp, sp) \<Rightarrow> do {
                    b \<leftarrow> bench_hash_bloom (E 2) nbits n_insert n_query keys_in keys_un hp;
                    (case b of Exited \<Rightarrow> Some Exited
                     | Ran (hp, b) \<Rightarrow> do {
                         bp \<leftarrow> bench_prehash (E 3) nbits n_insert n_query hash_in hash_un hp;
                         (case bp of Exited \<Rightarrow> Some Exited
                          | Ran (hp, bp) \<Rightarrow> Some (Ran (hp, s, sp, b, bp))) }) }) }) }
      | _ \<Rightarrow> Some Exited) }"

section \<open>The hash benchmark\<close>

definition N_KEYS :: nat where "N_KEYS = 200000"

text \<open>The bytes from a pointer on that a function may read: those before the first indeterminate one.\<close>

fun init_bytes :: "u8 option list \<Rightarrow> u8 list" where
  "init_bytes (Some b # bs) = b # init_bytes bs"
| "init_bytes bs = []"

text \<open>\<open>measure\<close> of \<open>bench_hash.c\<close>: three sweeps to warm up, 31 timed ones.\<close>

definition sweep :: "(u8 list \<Rightarrow> u64 option) \<Rightarrow> u8 option list \<Rightarrow> u64 \<Rightarrow> u64 option" where
  "sweep fn keys sink =
     foldM (\<lambda>i sink. do { h \<leftarrow> fn (init_bytes (drop (i * KLEN) keys)); Some (sink XOR h) }) [0..<N_KEYS] sink"

definition timed_sweep ::
  "bench_env \<Rightarrow> (u8 list \<Rightarrow> u64 option) \<Rightarrow> u8 option list \<Rightarrow> nat \<Rightarrow> u64 \<times> u64 list \<Rightarrow> (u64 \<times> u64 list) option" where
  "timed_sweep E fn keys r = (\<lambda>(sink, samples). do {
     let t0 = now E r 0;
     sink \<leftarrow> sweep fn keys sink;
     let t1 = now E r 1;
     samples \<leftarrow> wr_at samples r (t1 - t0);
     Some (sink, samples) })"

definition measure :: "bench_env \<Rightarrow> (u8 list \<Rightarrow> u64 option) \<Rightarrow> u8 option list \<Rightarrow> (u64 \<times> stats_t) option" where
  "measure E fn keys = do {
     sink \<leftarrow> foldM (\<lambda>_. sweep fn keys) [0..<3] 0;
     (sink, samples) \<leftarrow> foldM (timed_sweep E fn keys) [0..<31] (sink, fst (stack E));
     stats \<leftarrow> summarize E samples 31 N_KEYS;
     Some (sink, stats) }"

section \<open>The timed phases\<close>

text \<open>The query's answer is 0 or 1 wherever there is one, so adding answers is counting hits.\<close>

lemma testc_le_1: "mm256_testc_si256 a b \<le> 1"
  by (simp add: mm256_testc_si256_def)

lemma prehash_answer: "qb_contains_prehash p h hp = Some c \<Longrightarrow> c = 0 \<or> c = 1"
  using testc_le_1 by (fastforce simp: qb_contains_prehash_def Let_def le_Suc_eq split: bind_splits)

lemma answer: "qb_contains p key len hp = Some c \<Longrightarrow> c = 0 \<or> c = 1"
  by (auto simp: contains_via_prehash dest: prehash_answer split: bind_splits)

lemma add_answers:
  assumes "\<And>i c. q i = Some c \<Longrightarrow> c = (0 :: nat) \<or> c = 1"
  shows "foldM (\<lambda>i sink. do { c \<leftarrow> q i; Some (sink + of_nat c) }) is (s + of_nat k) =
     map_option (\<lambda>c. s + of_nat c) (foldM (\<lambda>i hits. do { c \<leftarrow> q i; Some (if c \<noteq> 0 then hits + 1 else hits) }) is k)"
proof (induction "is" arbitrary: k)
  case (Cons i "is")
  show ?case
  proof (cases "q i")
    case (Some c)
    with assms consider "c = 0" | "c = 1" by blast
    then show ?thesis
    proof cases
      case 2
      with Some Cons.IH [of "k + 1"] show ?thesis by (simp add: algebra_simps)
    qed (use Some Cons.IH in simp)
  qed simp
qed simp

lemma probe_each_eq:
  "probe_each keys n f hp sink = do { c \<leftarrow> qb_contains_bulk f keys KLEN n hp; Some (sink + of_nat c) }"
  using add_answers [of "\<lambda>i. qb_contains f (drop (i * KLEN) keys) KLEN hp" "[0..<n]" sink 0] answer
  by (simp add: probe_each_def contains_bulk_eq count_at_def [abs_def] map_conv_bind_option comp_def)

lemma probe_each_hash_eq:
  "probe_each_hash hashes n f hp sink = do { c \<leftarrow> qb_contains_prehash_bulk f hashes n hp; Some (sink + of_nat c) }"
proof -
  let ?q = "\<lambda>i. do { h \<leftarrow> rd_at hashes i; qb_contains_prehash f h hp }"
  have "?q i = Some c \<Longrightarrow> c = 0 \<or> c = 1" for i c by (auto split: bind_splits dest: prehash_answer)
  from add_answers [of ?q "[0..<n]" sink 0, OF this] show ?thesis
    by (simp add: probe_each_hash_def contains_prehash_bulk_eq count_prehash_at_def [abs_def] count_prehash_def
        map_conv_bind_option comp_def)
qed

lemma insert_each_eq: "insert_each keys n f hp = qb_insert_bulk f keys KLEN n hp"
  by (simp add: insert_each_def insert_bulk_eq insert_at_def [abs_def])

lemma insert_each_hash_eq: "insert_each_hash hashes n f hp = qb_insert_prehash_bulk f hashes n hp"
  by (simp add: insert_each_hash_def insert_prehash_bulk_eq insert_prehash_at_def [abs_def])

section \<open>The repetitions\<close>

definition sort_ok :: "bench_env \<Rightarrow> bool" where
  "sort_ok E \<longleftrightarrow> (\<forall>xs. mset (sort_samples E xs) = mset xs \<and> sorted_wrt (\<lambda>a b. cmp_u64 a b \<le> 0) (sort_samples E xs))"

type_synonym stamps = "u64 list \<times> u64 list \<times> u64 list"

definition samples_ok :: "stamps \<Rightarrow> bool" where
  "samples_ok = (\<lambda>(ins, miss, hit). length ins = REPEATS \<and> length miss = REPEATS \<and> length hit = REPEATS)"

definition bench_ok :: "bench_env \<Rightarrow> bool" where
  "bench_ok E \<longleftrightarrow> (\<forall>r. allocator_ok (answers E r)) \<and> sort_ok E \<and> samples_ok (stack E)"

text \<open>The samples that a repetition leaves behind, and those of all eleven that are timed.\<close>

definition stamped :: "bench_env \<Rightarrow> nat \<Rightarrow> stamps \<Rightarrow> stamps" where
  "stamped E r = (\<lambda>(ins, miss, hit).
     if WARMUP \<le> r
     then (ins[r - WARMUP := now E r 1 - now E r 0], miss[r - WARMUP := now E r 2 - now E r 1],
       hit[r - WARMUP := now E r 3 - now E r 2])
     else (ins, miss, hit))"

definition elapsed :: "bench_env \<Rightarrow> nat \<Rightarrow> u64 list" where
  "elapsed E j = map (\<lambda>r. now E r (j + 1) - now E r j) [WARMUP..<WARMUP + REPEATS]"

lemma set_next: "m < length xs \<Longrightarrow> length ys = m \<Longrightarrow> (ys @ drop m xs)[m := x] = (ys @ [x]) @ drop (Suc m) xs"
  by (simp add: list_update_append Cons_nth_drop_Suc [symmetric])

lemma stamped_all: "samples_ok ts \<Longrightarrow> fold (stamped E) [0..<WARMUP + REPEATS] ts = (elapsed E 0, elapsed E 1, elapsed E 2)"
proof -
  assume ok: "samples_ok ts"
  let ?t = "\<lambda>j m xs. map (\<lambda>r. now E r (j + 1) - now E r j) [WARMUP..<WARMUP + m] @ drop m xs"
  obtain ins miss hit where ts: "ts = (ins, miss, hit)" by (cases ts)
  with ok have len: "length ins = REPEATS" "length miss = REPEATS" "length hit = REPEATS" by (simp_all add: samples_ok_def)
  have "m \<le> REPEATS \<Longrightarrow> fold (stamped E) [0..<WARMUP + m] ts = (?t 0 m ins, ?t 1 m miss, ?t 2 m hit)" for m
  proof (induction m)
    case 0
    then show ?case by (simp add: stamped_def WARMUP_def ts upt_rec)
  next
    case (Suc m)
    have cat: "[0..<WARMUP + Suc m] = [0..<WARMUP + m] @ [WARMUP + m]" "[WARMUP..<WARMUP + Suc m] = [WARMUP..<WARMUP + m] @ [WARMUP + m]"
      by simp_all
    have next_one: "(?t j m xs)[m := now E (WARMUP + m) (j + 1) - now E (WARMUP + m) j] = ?t j (Suc m) xs" if "length xs = REPEATS" for j xs
      using Suc.prems that unfolding cat by (subst set_next) simp_all
    have "fold (stamped E) [0..<WARMUP + Suc m] ts = stamped E (WARMUP + m) (?t 0 m ins, ?t 1 m miss, ?t 2 m hit)"
      using Suc by (simp only: cat fold_append comp_def) simp
    also have "\<dots> = (?t 0 (Suc m) ins, ?t 1 (Suc m) miss, ?t 2 (Suc m) hit)"
      using next_one [OF len(1), of 0] next_one [OF len(2), of 1] next_one [OF len(3), of 2]
      by (simp add: stamped_def numeral_eq_Suc del: upt_Suc)
    finally show ?case .
  qed
  from this [of REPEATS] len show ?thesis by (simp add: elapsed_def)
qed

lemma samples_ok_stamped: "samples_ok ts \<Longrightarrow> samples_ok (stamped E r ts)"
  by (auto simp: samples_ok_def stamped_def split: prod.splits)

text \<open>A repetition that works where its filter can be made: it puts the heap back and adds \<open>c\<close> to the
  sink.\<close>

definition works :: "(nat \<Rightarrow> bool) \<Rightarrow> nat \<Rightarrow> bench_env \<Rightarrow> qb_heap \<Rightarrow> (nat \<Rightarrow> bench_state \<Rightarrow> bench_state run option) \<Rightarrow> bool" where
  "works made c E hp rep \<longleftrightarrow> (\<forall>r sink ts. r < WARMUP + REPEATS \<longrightarrow> samples_ok ts \<longrightarrow>
     rep r (hp, sink, ts) = Some (if made r then Ran (hp, sink + of_nat c, stamped E r ts) else Exited))"

lemma loop_works:
  assumes "works made c E hp rep" and "samples_ok ts"
  shows "n \<le> WARMUP + REPEATS \<Longrightarrow> samples_ok (fold (stamped E) [0..<n] ts) \<and>
     foldM (go_on rep) [0..<n] (Ran (hp, sink, ts)) =
       Some (if \<forall>r < n. made r then Ran (hp, sink + of_nat (n * c), fold (stamped E) [0..<n] ts) else Exited)"
proof (induction n)
  case 0
  from assms(2) show ?case by simp
next
  case (Suc n)
  let ?ts = "fold (stamped E) [0..<n] ts"
  from Suc have IH: "samples_ok ?ts" "foldM (go_on rep) [0..<n] (Ran (hp, sink, ts)) =
      Some (if \<forall>r < n. made r then Ran (hp, sink + of_nat (n * c), ?ts) else Exited)" by simp_all
  have "n < WARMUP + REPEATS" using Suc.prems by simp
  with assms(1) IH(1)
  have "rep n (hp, s, ?ts) = Some (if made n then Ran (hp, s + of_nat c, stamped E n ?ts) else Exited)" for s
    unfolding works_def by blast
  moreover have "sink + of_nat (n * c) + of_nat c = sink + of_nat (Suc n * c)" by (simp add: algebra_simps)
  ultimately show ?case
    using IH samples_ok_stamped [OF IH(1)] by (auto simp: foldM_append less_Suc_eq)
qed

text \<open>A benchmark reports: the sink is what thirteen repetitions add, and the three rows are the summaries
  of the times between the readings of the clock.\<close>

definition tallied :: "bench_env \<Rightarrow> nat \<Rightarrow> nat \<Rightarrow> nat \<Rightarrow> bench_result \<Rightarrow> bool" where
  "tallied E c n m = (\<lambda>(sink, ins, miss, hit). sink = of_nat (13 * c) \<and>
     summarize E (elapsed E 0) 11 n = Some ins \<and> summarize E (elapsed E 1) 11 m = Some miss \<and>
     summarize E (elapsed E 2) 11 n = Some hit)"

lemma summarize_Some: "bench_ok E \<Longrightarrow> length xs = 11 \<Longrightarrow> \<exists>st. summarize E xs 11 n = Some st"
proof -
  assume E: "bench_ok E" and "length xs = 11"
  then have "length (sort_samples E xs) = 11"
    using mset_eq_length [of "sort_samples E xs" xs] by (auto simp: bench_ok_def sort_ok_def)
  then show ?thesis by (cases "sort_samples E xs") (simp_all add: summarize_def rd_at_def Let_def)
qed

lemma run_works:
  assumes E: "bench_ok E" and rep: "works made c E hp rep"
  shows "\<exists>res. tallied E c n m res \<and> bench_run E rep n m hp = Some (if \<forall>r < 13. made r then Ran (hp, res) else Exited)"
proof -
  have E': "samples_ok (stack E)" using E by (simp add: bench_ok_def)
  have "WARMUP + REPEATS = 13" by (simp add: WARMUP_def REPEATS_def)
  with loop_works [OF rep E', of "WARMUP + REPEATS" 0] stamped_all [OF E', of E]
  have run: "foldM (go_on rep) [0..<WARMUP + REPEATS] (Ran (hp, 0, stack E)) =
      Some (if \<forall>r < 13. made r then Ran (hp, of_nat (13 * c), elapsed E 0, elapsed E 1, elapsed E 2) else Exited)"
    by simp
  have len: "length (elapsed E j) = 11" for j by (simp add: elapsed_def REPEATS_def)
  from summarize_Some [OF E len, of 0 n] summarize_Some [OF E len, of 1 m] summarize_Some [OF E len, of 2 n]
  obtain a b d where s: "summarize E (elapsed E 0) 11 n = Some a" "summarize E (elapsed E 1) 11 m = Some b"
    "summarize E (elapsed E 2) 11 n = Some d" by blast
  then have "bench_run E rep n m hp = Some (if \<forall>r < 13. made r then Ran (hp, of_nat (13 * c), a, b, d) else Exited)"
    unfolding bench_run_def run by (simp add: REPEATS_def)
  moreover from s have "tallied E c n m (of_nat (13 * c), a, b, d)" by (simp add: tallied_def)
  ultimately show ?thesis by blast
qed

text \<open>When the filter of a repetition can be made, and the size that it gets: the least power of two of
  blocks that holds the request.\<close>

definition can_make :: "bench_env \<Rightarrow> size_t \<Rightarrow> qb_heap \<Rightarrow> nat \<Rightarrow> bool" where
  "can_make E nbits hp r \<longleftrightarrow> request nbits \<le> QB_MAX_NBLOCKS \<and> fst (answers E r hp) \<noteq> NULL \<and> snd (answers E r hp) \<noteq> NULL"

definition least_exp :: "size_t \<Rightarrow> nat \<Rightarrow> bool" where
  "least_exp n k \<longleftrightarrow> unat n \<le> 2 ^ k \<and> (\<forall>i < k. 2 ^ i < unat n)"

lemma least_exp_exists: "\<exists>k. least_exp n k"
proof -
  have "unat n \<le> 2 ^ 64" using unsigned_less [of n, where 'a = nat] by simp
  then obtain k where "unat n \<le> 2 ^ k" "\<And>i. i < k \<Longrightarrow> 2 ^ i < unat n" by (rule ceil_log2) blast
  then show ?thesis by (auto simp: least_exp_def)
qed

lemma least_exp_unique: "least_exp n k \<Longrightarrow> least_exp n j \<Longrightarrow> j = k"
  unfolding least_exp_def by (metis linorder_neqE_nat not_less)

text \<open>A repetition works when its phases do on a filter fresh from \<open>qb_new\<close>.\<close>

lemma rep_works:
  assumes E: "bench_ok E" and k: "least_exp (request nbits) k"
    and phases: "\<And>p mem. answers_ok hp p mem \<Longrightarrow> p \<noteq> NULL \<Longrightarrow> mem \<noteq> NULL \<Longrightarrow> k \<le> 31 \<Longrightarrow>
      \<exists>hp'. fill p (with_filter p mem k (replicate (8 * 2 ^ k) 0) hp) = Some hp' \<and>
        (\<forall>sink. probe_un p hp' sink = Some (sink + of_nat fp)) \<and>
        (\<forall>sink. probe_in p hp' sink = Some (sink + of_nat n)) \<and> qb_free p hp' = Some hp"
  shows "works (can_make E nbits hp) (n + fp) E hp (bench_rep E nbits fill probe_un probe_in)"
  unfolding works_def
proof (intro allI impI)
  fix r sink ts assume r: "r < WARMUP + REPEATS" and "samples_ok ts"
  then obtain ins miss hit where ts: "ts = (ins, miss, hit)"
    "length ins = REPEATS" "length miss = REPEATS" "length hit = REPEATS" by (auto simp: samples_ok_def)
  let ?p = "fst (answers E r hp)" and ?m = "snd (answers E r hp)"
  have ans: "answers_ok hp ?p ?m" using E by (simp add: bench_ok_def allocator_ok_def)
  show "bench_rep E nbits fill probe_un probe_in r (hp, sink, ts) =
      Some (if can_make E nbits hp r then Ran (hp, sink + of_nat (n + fp), stamped E r ts) else Exited)"
  proof (cases "can_make E nbits hp r")
    case False
    have "qb_new ?p ?m nbits hp = Some (NULL, hp)"
    proof (cases "request nbits \<le> QB_MAX_NBLOCKS")
      case True
      with False have "?p = NULL \<or> ?m = NULL" by (simp add: can_make_def)
      with qb_new_eq [OF True ans] show ?thesis by auto
    qed (simp add: qb_new_too_big)
    with False show ?thesis by (simp add: bench_rep_def ts)
  next
    case True
    then have "request nbits \<le> QB_MAX_NBLOCKS" and p: "?p \<noteq> NULL" "?m \<noteq> NULL" by (auto simp: can_make_def)
    from qb_new_eq [OF this(1) ans] p obtain j where j: "j \<le> 31" "least_exp (request nbits) j"
      and "qb_new ?p ?m nbits hp = Some (?p, with_filter ?p ?m j (replicate (8 * 2 ^ j) 0) hp)"
      by (auto simp: least_exp_def)
    moreover have "j = k" by (rule least_exp_unique [OF k j(2)])
    ultimately have k31: "k \<le> 31" and new: "qb_new ?p ?m nbits hp = Some (?p, with_filter ?p ?m k (replicate (8 * 2 ^ k) 0) hp)"
      by simp_all
    from phases [OF ans p k31] obtain hp' where ph: "fill ?p (with_filter ?p ?m k (replicate (8 * 2 ^ k) 0) hp) = Some hp'"
      "\<And>sink. probe_un ?p hp' sink = Some (sink + of_nat fp)"
      "\<And>sink. probe_in ?p hp' sink = Some (sink + of_nat n)" "qb_free ?p hp' = Some hp" by blast
    have "WARMUP \<le> r \<Longrightarrow> r - WARMUP < REPEATS" using r by linarith
    then show ?thesis
      using True ts new ph p by (simp add: bench_rep_def wr_at_def stamped_def Let_def ac_simps)
  qed
qed

section \<open>The phases on a fresh filter\<close>

text \<open>Bulk operations on keys and on hashes are folds over a list of hashes.\<close>

definition key_hashes :: "u8 list \<Rightarrow> nat \<Rightarrow> u64 list" where
  "key_hashes ks n = map (\<lambda>i. key_hash (take KLEN (drop (i * KLEN) ks))) [0..<n]"

lemma length_key_hashes [simp]: "length (key_hashes ks n) = n"
  by (simp add: key_hashes_def)

lemma read_keys: "n * KLEN \<le> length ks \<Longrightarrow> those (map (\<lambda>i. bloom_hash (drop (i * KLEN) ks) KLEN) [0..<n]) = Some (key_hashes ks n)"
proof -
  assume n: "n * KLEN \<le> length ks"
  have "KLEN \<le> length (drop (i * KLEN) ks)" if "i < n" for i using key_in_buffer [OF n that] by simp
  then have "map (\<lambda>i. bloom_hash (drop (i * KLEN) ks) KLEN) [0..<n] = map (\<lambda>i. Some (key_hash (take KLEN (drop (i * KLEN) ks)))) [0..<n]"
    by (intro map_cong refl) (simp add: bloom_hash_eq)
  then show ?thesis unfolding key_hashes_def by (simp only: those_map_Some)
qed

lemma read_hashes: "n \<le> length hs \<Longrightarrow> those (map (rd_at hs) [0..<n]) = Some (take n hs)"
proof -
  assume n: "n \<le> length hs"
  then have "map (rd_at hs) [0..<n] = map (\<lambda>i. Some (hs ! i)) [0..<n]" by (intro map_cong refl) (simp add: rd_at_def)
  moreover from n have "map ((!) hs) [0..<n] = take n hs" by (intro nth_equalityI) simp_all
  ultimately show ?thesis by (simp only: those_map_Some)
qed

lemma keys_bulk:
  assumes "n * KLEN \<le> length ks"
  shows "qb_insert_bulk p ks KLEN n hp = foldM (qb_insert_prehash p) (key_hashes ks n) hp"
    and "qb_contains_bulk p ks KLEN n hp = foldM (count_prehash p hp) (key_hashes ks n) 0"
proof -
  have ins: "insert_at p ks KLEN i hp = Option.bind (bloom_hash (drop (i * KLEN) ks) KLEN) (\<lambda>h. qb_insert_prehash p h hp)" for i hp
    by (simp add: insert_at_def insert_via_prehash)
  have cnt: "count_at p ks KLEN hp i c = Option.bind (bloom_hash (drop (i * KLEN) ks) KLEN) (\<lambda>h. count_prehash p hp h c)" for i c
    by (simp add: count_at_def contains_via_prehash count_prehash_def)
  show "qb_insert_bulk p ks KLEN n hp = foldM (qb_insert_prehash p) (key_hashes ks n) hp"
    by (simp add: insert_bulk_eq foldM_reads [OF ins] read_keys [OF assms])
  show "qb_contains_bulk p ks KLEN n hp = foldM (count_prehash p hp) (key_hashes ks n) 0"
    by (simp add: contains_bulk_eq foldM_reads [OF cnt] read_keys [OF assms])
qed

lemma hashes_bulk:
  assumes "n \<le> length hs"
  shows "qb_insert_prehash_bulk p hs n hp = foldM (qb_insert_prehash p) (take n hs) hp"
    and "qb_contains_prehash_bulk p hs n hp = foldM (count_prehash p hp) (take n hs) 0"
  by (simp_all add: insert_prehash_bulk_eq foldM_reads [OF insert_prehash_at_def] contains_prehash_bulk_eq
      foldM_reads [OF count_prehash_at_def] read_hashes [OF assms])

text \<open>What a list of insertions sets, and how many of a list of queries are answered 1.\<close>

definition marks :: "nat \<Rightarrow> u64 list \<Rightarrow> (nat \<times> nat) set" where
  "marks k hs = (\<Union>h \<in> set hs. footprint k h)"

definition false_hits :: "nat \<Rightarrow> u64 list \<Rightarrow> u64 list \<Rightarrow> nat" where
  "false_hits k ins un = length (filter (\<lambda>g. footprint k g \<subseteq> marks k ins) un)"

lemma all_inserted:
  assumes "filter_at hp p k b ws"
  shows "\<exists>ws'. foldM (qb_insert_prehash p) hs hp = Some (hp(bits b \<mapsto> Words ws')) \<and> length ws' = length ws \<and>
     bitset ws' = bitset ws \<union> marks k hs"
  using assms
proof (induction hs arbitrary: hp ws)
  case Nil
  then have "hp(bits b \<mapsto> Words ws) = hp" by (simp add: filter_at_def fun_upd_idem)
  then show ?case by (intro exI [of _ ws]) (simp add: marks_def)
next
  case (Cons h hs)
  have len: "length (set_hash k h ws) = length ws" using block_in_bounds [OF Cons.prems] by simp
  from Cons.IH [OF filter_at_update [OF Cons.prems len]] obtain ws' where
    "foldM (qb_insert_prehash p) hs (hp(bits b \<mapsto> Words (set_hash k h ws))) = Some (hp(bits b \<mapsto> Words ws'))"
    "length ws' = length ws" "bitset ws' = bitset (set_hash k h ws) \<union> marks k hs"
    using len by (auto simp del: fun_upd_apply simp: fun_upd_upd)
  with bitset_set_hash [OF Cons.prems, of h] show ?case
    by (intro exI [of _ ws']) (simp add: insert_prehash_eq [OF Cons.prems] marks_def Un_assoc del: fun_upd_apply)
qed

lemma all_counted:
  assumes "filter_at hp p k b ws"
  shows "foldM (count_prehash p hp) gs c = Some (c + length (filter (\<lambda>g. footprint k g \<subseteq> bitset ws) gs))"
  by (induction gs arbitrary: c) (simp_all add: count_prehash_def contains_prehash_eq [OF assms])

lemma phases_on_fresh:
  assumes p: "answers_ok hp p mem" "p \<noteq> NULL" "mem \<noteq> NULL" "k \<le> 31"
  shows "\<exists>hp'. foldM (qb_insert_prehash p) hs (with_filter p mem k (replicate (8 * 2 ^ k) 0) hp) = Some hp' \<and>
     foldM (count_prehash p hp') us 0 = Some (false_hits k hs us) \<and>
     foldM (count_prehash p hp') hs 0 = Some (length hs) \<and> qb_free p hp' = Some hp"
proof -
  have f0: "filter_at (with_filter p mem k (replicate (8 * 2 ^ k) 0) hp) p k (filter_struct mem k) (replicate (8 * 2 ^ k) 0)"
    by (rule filter_at_with_filter [OF p]) simp
  have "p \<noteq> mem" using p by (auto simp: answers_ok_def)
  with all_inserted [OF f0, of hs] obtain ws where
    run: "foldM (qb_insert_prehash p) hs (with_filter p mem k (replicate (8 * 2 ^ k) 0) hp) = Some (with_filter p mem k ws hp)"
    and len: "length ws = 8 * 2 ^ k" and set: "bitset ws = marks k hs"
    by (auto simp: with_filter_update)
  note count = all_counted [OF filter_at_with_filter [OF p len], of _ 0, unfolded set]
  have "filter (\<lambda>g. footprint k g \<subseteq> marks k hs) hs = hs" by (auto simp: filter_id_conv marks_def)
  with count [of us] count [of hs] run free_with_filter [OF p len] show ?thesis by (simp add: false_hits_def)
qed

lemma single_is_bulk:
  "bench_hash_bloom_single E nbits n m ks us = bench_hash_bloom E nbits n m ks us"
  "bench_prehash_single E nbits n m hs gs = bench_prehash E nbits n m hs gs"
  by (simp_all add: bench_hash_bloom_single_def bench_hash_bloom_def bench_prehash_single_def bench_prehash_def
      probe_each_eq [abs_def] probe_each_hash_eq [abs_def] insert_each_eq [abs_def] insert_each_hash_eq [abs_def])

lemma bloom_tallied:
  assumes E: "bench_ok E" and k: "least_exp (request nbits) k" and len: "n * KLEN \<le> length ks" "m * KLEN \<le> length us"
  shows "\<exists>res. tallied E (n + false_hits k (key_hashes ks n) (key_hashes us m)) n m res \<and>
     bench_hash_bloom E nbits n m ks us hp = Some (if \<forall>r < 13. can_make E nbits hp r then Ran (hp, res) else Exited)"
  unfolding bench_hash_bloom_def
  by (rule run_works [OF E rep_works [OF E k]]) (use phases_on_fresh [of hp _ _ k "key_hashes ks n" "key_hashes us m"] in
      \<open>fastforce simp: keys_bulk [OF len(1)] keys_bulk [OF len(2)]\<close>)

lemma prehash_tallied:
  assumes E: "bench_ok E" and k: "least_exp (request nbits) k" and len: "n \<le> length hs" "m \<le> length us"
  shows "\<exists>res. tallied E (n + false_hits k (take n hs) (take m us)) n m res \<and>
     bench_prehash E nbits n m hs us hp = Some (if \<forall>r < 13. can_make E nbits hp r then Ran (hp, res) else Exited)"
  unfolding bench_prehash_def
  by (rule run_works [OF E rep_works [OF E k]]) (use phases_on_fresh [of hp _ _ k "take n hs" "take m us"] len in
      \<open>fastforce simp: hashes_bulk [OF len(1)] hashes_bulk [OF len(2)] min_def\<close>)

section \<open>Sweeps\<close>

lemma sweep_eq:
  assumes "\<And>i. i < N_KEYS \<Longrightarrow> fn (init_bytes (drop (i * KLEN) keys)) \<noteq> None"
  shows "\<exists>x. \<forall>sink. sweep fn keys sink = Some (sink XOR x)"
proof -
  let ?step = "\<lambda>i sink. do { h \<leftarrow> fn (init_bytes (drop (i * KLEN) keys)); Some (sink XOR h) }"
  have "\<exists>x. \<forall>sink. foldM ?step is sink = Some (sink XOR x)" if "set is \<subseteq> {0..<N_KEYS}" for "is"
    using that
  proof (induction "is")
    case (Cons i "is")
    then obtain x where x: "\<And>sink. foldM ?step is sink = Some (sink XOR x)" by auto
    from Cons.prems assms [of i] obtain h where "fn (init_bytes (drop (i * KLEN) keys)) = Some h" by auto
    then show ?case by (intro exI [of _ "h XOR x"]) (simp add: x xor.assoc)
  qed (auto intro: exI [of _ 0])
  then show ?thesis unfolding sweep_def by (auto simp del: foldM.simps)
qed

lemma timed_sweeps:
  assumes "\<And>sink. sweep fn keys sink = Some (sink XOR x)"
  shows "n \<le> length samples \<Longrightarrow> foldM (timed_sweep E fn keys) [0..<n] (sink, samples) =
     Some (if even n then sink else sink XOR x, map (\<lambda>r. now E r 1 - now E r 0) [0..<n] @ drop n samples)"
proof (induction n)
  case (Suc n)
  let ?t = "\<lambda>n. map (\<lambda>r. now E r 1 - now E r 0) [0..<n] @ drop n samples"
  have "(?t n)[n := now E n 1 - now E n 0] = ?t (Suc n)"
    using Suc.prems by (subst set_next) simp_all
  then have step: "timed_sweep E fn keys n (y, ?t n) = Some (y XOR x, ?t (Suc n))" for y
    using Suc.prems by (simp add: timed_sweep_def wr_at_def assms Let_def del: upt_Suc)
  have split: "[0..<Suc n] = [0..<n] @ [n]" by simp
  from Suc have "foldM (timed_sweep E fn keys) [0..<n] (sink, samples) = Some (if even n then sink else sink XOR x, ?t n)" by simp
  then have "foldM (timed_sweep E fn keys) [0..<Suc n] (sink, samples) =
      Some ((if even n then sink else sink XOR x) XOR x, ?t (Suc n))"
    by (simp add: foldM_append step del: One_nat_def)
  then show ?case by (simp add: xor.assoc del: upt_Suc)
qed simp

lemma measured:
  assumes "sort_ok E" and "length (fst (stack E)) = 31" and "\<And>i. i < N_KEYS \<Longrightarrow> fn (init_bytes (drop (i * KLEN) keys)) \<noteq> None"
  shows "\<exists>st. summarize E (map (\<lambda>r. now E r 1 - now E r 0) [0..<31]) 31 N_KEYS = Some st \<and> measure E fn keys = Some (0, st)"
proof -
  let ?s = "map (\<lambda>r. now E r 1 - now E r 0) [0..<31]"
  from sweep_eq [of fn keys, OF assms(3)] obtain x where x: "\<And>sink. sweep fn keys sink = Some (sink XOR x)" by blast
  have warm: "foldM (\<lambda>_. sweep fn keys) [0..<3] 0 = Some x" by (simp add: upt_rec x)
  from timed_sweeps [of fn keys x 31 "fst (stack E)" E x, OF x] assms(2)
  have timed: "foldM (timed_sweep E fn keys) [0..<31] (x, fst (stack E)) = Some (0, ?s)" by (simp del: upt_rec_numeral)
  have "length (sort_samples E ?s) = 31"
    using assms(1) mset_eq_length [of "sort_samples E ?s" ?s] by (simp add: sort_ok_def del: upt_rec_numeral)
  then obtain st where "summarize E ?s 31 N_KEYS = Some st"
    by (cases "sort_samples E ?s") (simp_all add: summarize_def rd_at_def Let_def del: upt_rec_numeral)
  with warm timed show ?thesis by (simp add: measure_def del: upt_rec_numeral)
qed

section \<open>The pools\<close>

lemma round64_ge:
  assumes "unat m \<le> 2 ^ 63"
  shows "unat m \<le> unat (ROUND64 m)"
proof -
  let ?w = "m + 63"
  have w: "unat ?w = unat m + 63" using assms by (simp add: unat_word_ariths take_bit_nat_eq_self)
  have "?w AND NOT 63 = push_bit 6 (drop_bit 6 ?w)"
  proof (rule bit_word_eqI)
    fix j assume "j < LENGTH(64)"
    have "(63 :: size_t) = mask 6" by (simp add: mask_eq_exp_minus_1)
    then have "bit (63 :: size_t) j \<longleftrightarrow> j < 6" using \<open>j < LENGTH(64)\<close> by (simp only: bit_simps) auto
    with \<open>j < LENGTH(64)\<close> show "bit (?w AND NOT 63) j = bit (push_bit 6 (drop_bit 6 ?w)) j"
      by (auto simp: bit_simps not_less)
  qed
  then have eq: "ROUND64 m + take_bit 6 ?w = ?w" unfolding ROUND64_def by (simp only: bits_ident)
  have t: "unat (take_bit 6 ?w) \<le> 63"
  proof -
    have "unat (take_bit 6 ?w) = take_bit 6 (unat ?w)" by (rule unsigned_take_bit_eq)
    also have "\<dots> < 2 ^ 6" by (rule take_bit_nat_less_exp)
    finally show ?thesis by simp
  qed
  have "unat ?w = unat (ROUND64 m + take_bit 6 ?w)" by (simp only: eq)
  also have "\<dots> \<le> unat (ROUND64 m) + unat (take_bit 6 ?w)" by (simp add: unat_word_ariths take_bit_eq_mod)
  finally show ?thesis using w t by linarith
qed

section \<open>A run of one size\<close>

text \<open>The hashes of the keys of a pool, whatever lies behind them.\<close>

definition pool_keys :: "u64 \<Rightarrow> nat \<Rightarrow> u64 list" where
  "pool_keys seed n = key_hashes (byte_pool seed (2 * n)) n"

lemma key_hashes_pool: "key_hashes (byte_pool seed (2 * n) @ rest) n = pool_keys seed n"
proof -
  have "take KLEN (drop (i * KLEN) (byte_pool seed (2 * n) @ rest)) = take KLEN (drop (i * KLEN) (byte_pool seed (2 * n)))"
    if "i < n" for i
    using key_in_buffer [of n KLEN "byte_pool seed (2 * n)" i] that by (simp add: KLEN_def)
  then show ?thesis unfolding pool_keys_def key_hashes_def by (intro map_cong refl arg_cong [where f = key_hash]) simp
qed

lemma fill_hashes_pool: "n \<le> length dst \<Longrightarrow> fill_hashes dst n seed = Some (word_pool seed n @ drop n dst)"
  by (simp add: fill_hashes_eq word_pool_def)

lemma fill_bytes_pool:
  "n * 16 \<le> length dst \<Longrightarrow> fill_bytes dst (n * 16) seed = Some (byte_pool seed (2 * n) @ drop (n * 16) dst)"
  using fill_bytes_eq [of "2 * n" dst seed] by (simp add: mult.commute)

text \<open>The four blocks are there, and every filter of the four benchmarks can be made.\<close>

definition blocks_there :: "(nat \<Rightarrow> size_t \<Rightarrow> u8 list option) \<Rightarrow> (nat \<Rightarrow> size_t \<Rightarrow> u64 list option) \<Rightarrow> nat \<Rightarrow> nat \<Rightarrow> bool" where
  "blocks_there bytes_for words_for n m \<longleftrightarrow>
     bytes_for 0 (ROUND64 (of_nat n * 16)) \<noteq> None \<and> bytes_for 1 (ROUND64 (of_nat m * 16)) \<noteq> None \<and>
     words_for 0 (ROUND64 (of_nat n * 8)) \<noteq> None \<and> words_for 1 (ROUND64 (of_nat m * 8)) \<noteq> None"

definition filters_made :: "(nat \<Rightarrow> bench_env) \<Rightarrow> size_t \<Rightarrow> qb_heap \<Rightarrow> bool" where
  "filters_made E nbits hp \<longleftrightarrow> (\<forall>b < 4. \<forall>r < 13. can_make (E b) nbits hp r)"

text \<open>What the four benchmarks report, the single keys first: each counts all \<open>n\<close> inserted keys and those of
  the \<open>m\<close> queried ones that the footprints of the inserted cover.\<close>

definition size_reports ::
  "(nat \<Rightarrow> bench_env) \<Rightarrow> nat \<Rightarrow> nat \<Rightarrow> nat \<Rightarrow> bench_result \<times> bench_result \<times> bench_result \<times> bench_result \<Rightarrow> bool" where
  "size_reports E k n m = (\<lambda>(s, sp, b, bp).
     let keys = n + false_hits k (pool_keys 0xA1A1A1A1 n) (pool_keys 0xB2B2B2B2 m);
         hashes = n + false_hits k (word_pool 0xC3C3C3C3 n) (word_pool 0xD4D4D4D4 m)
     in tallied (E 0) keys n m s \<and> tallied (E 1) hashes n m sp \<and> tallied (E 2) keys n m b \<and> tallied (E 3) hashes n m bp)"

lemma blocks_long:
  assumes "n \<le> 2 ^ 58"
  shows "unat (of_nat n * 16 :: size_t) = n * 16" and "n * 16 \<le> unat (ROUND64 (of_nat n * 16))"
    and "n * 8 \<le> unat (ROUND64 (of_nat n * 8))"
proof -
  have "unat (of_nat n * 16 :: size_t) = n * 16 \<and> unat (of_nat n * 8 :: size_t) = n * 8"
    using assms by (simp add: unat_word_ariths take_bit_nat_eq_self unsigned_of_nat)
  with round64_ge [of "of_nat n * 16"] round64_ge [of "of_nat n * 8"] assms
  show "unat (of_nat n * 16 :: size_t) = n * 16" and "n * 16 \<le> unat (ROUND64 (of_nat n * 16))"
    and "n * 8 \<le> unat (ROUND64 (of_nat n * 8))" by simp_all
qed

lemma four_benchmarks:
  assumes E: "\<forall>b. bench_ok (E b)" and k: "least_exp (request nbits) k"
    and len: "n * 16 \<le> length ki" "m * 16 \<le> length ku" "n \<le> length hi" "m \<le> length hu"
  shows "\<exists>res. size_reports E k n m res \<and>
    do {
      ki \<leftarrow> fill_bytes ki (n * 16) 0xA1A1A1A1;
      ku \<leftarrow> fill_bytes ku (m * 16) 0xB2B2B2B2;
      hi \<leftarrow> fill_hashes hi n 0xC3C3C3C3;
      hu \<leftarrow> fill_hashes hu m 0xD4D4D4D4;
      s \<leftarrow> bench_hash_bloom_single (E 0) nbits n m ki ku hp;
      (case s of Exited \<Rightarrow> Some Exited
       | Ran (hp, s) \<Rightarrow> do {
           sp \<leftarrow> bench_prehash_single (E 1) nbits n m hi hu hp;
           (case sp of Exited \<Rightarrow> Some Exited
            | Ran (hp, sp) \<Rightarrow> do {
                b \<leftarrow> bench_hash_bloom (E 2) nbits n m ki ku hp;
                (case b of Exited \<Rightarrow> Some Exited
                 | Ran (hp, b) \<Rightarrow> do {
                     bp \<leftarrow> bench_prehash (E 3) nbits n m hi hu hp;
                     (case bp of Exited \<Rightarrow> Some Exited
                      | Ran (hp, bp) \<Rightarrow> Some (Ran (hp, s, sp, b, bp))) }) }) }) } =
      Some (if filters_made E nbits hp then Ran (hp, res) else Exited)"
proof -
  define ki' ku' where ks: "ki' = byte_pool 0xA1A1A1A1 (2 * n) @ drop (n * 16) ki" "ku' = byte_pool 0xB2B2B2B2 (2 * m) @ drop (m * 16) ku"
  define hi' hu' where hs: "hi' = word_pool 0xC3C3C3C3 n @ drop n hi" "hu' = word_pool 0xD4D4D4D4 m @ drop m hu"
  have bytes: "key_hashes ki' n = pool_keys 0xA1A1A1A1 n" "key_hashes ku' m = pool_keys 0xB2B2B2B2 m"
    "n * KLEN \<le> length ki'" "m * KLEN \<le> length ku'"
    by (simp_all add: ks key_hashes_pool KLEN_def)
  have words: "take n hi' = word_pool 0xC3C3C3C3 n" "take m hu' = word_pool 0xD4D4D4D4 m" "n \<le> length hi'" "m \<le> length hu'"
    by (simp_all add: hs word_pool_def)
  note b = bloom_tallied [OF spec [OF E] k bytes(3,4), unfolded bytes, of _ hp]
    and h = prehash_tallied [OF spec [OF E] k words(3,4), unfolded words, of _ hp]
  from b [of 0] obtain s where s: "tallied (E 0) (n + false_hits k (pool_keys 0xA1A1A1A1 n) (pool_keys 0xB2B2B2B2 m)) n m s"
    "bench_hash_bloom (E 0) nbits n m ki' ku' hp = Some (if \<forall>r < 13. can_make (E 0) nbits hp r then Ran (hp, s) else Exited)" by blast
  from h [of 1] obtain sp where sp: "tallied (E 1) (n + false_hits k (word_pool 0xC3C3C3C3 n) (word_pool 0xD4D4D4D4 m)) n m sp"
    "bench_prehash (E 1) nbits n m hi' hu' hp = Some (if \<forall>r < 13. can_make (E 1) nbits hp r then Ran (hp, sp) else Exited)" by blast
  from b [of 2] obtain b where b: "tallied (E 2) (n + false_hits k (pool_keys 0xA1A1A1A1 n) (pool_keys 0xB2B2B2B2 m)) n m b"
    "bench_hash_bloom (E 2) nbits n m ki' ku' hp = Some (if \<forall>r < 13. can_make (E 2) nbits hp r then Ran (hp, b) else Exited)" by blast
  from h [of 3] obtain bp where bp: "tallied (E 3) (n + false_hits k (word_pool 0xC3C3C3C3 n) (word_pool 0xD4D4D4D4 m)) n m bp"
    "bench_prehash (E 3) nbits n m hi' hu' hp = Some (if \<forall>r < 13. can_make (E 3) nbits hp r then Ran (hp, bp) else Exited)" by blast
  have "(\<forall>b < 4. P b) \<longleftrightarrow> P 0 \<and> P 1 \<and> P 2 \<and> P (3 :: nat)" for P
    by (auto simp: numeral_eq_Suc less_Suc_eq)
  then have made: "filters_made E nbits hp \<longleftrightarrow> (\<forall>r < 13. can_make (E 0) nbits hp r) \<and> (\<forall>r < 13. can_make (E 1) nbits hp r) \<and>
      (\<forall>r < 13. can_make (E 2) nbits hp r) \<and> (\<forall>r < 13. can_make (E 3) nbits hp r)"
    unfolding filters_made_def by simp
  from s(1) sp(1) b(1) bp(1) have "size_reports E k n m (s, sp, b, bp)" by (simp add: size_reports_def Let_def)
  then show ?thesis
    using s(2) sp(2) b(2) bp(2)
    by (intro exI [of _ "(s, sp, b, bp)"])
      (simp add: fill_bytes_pool len fill_hashes_pool single_is_bulk made flip: ks hs del: One_nat_def)
qed

lemma run_size_exact:
  assumes E: "\<forall>b. bench_ok (E b)"
    and mem: "\<forall>i sz xs. bytes_for i sz = Some xs \<longrightarrow> length xs = unat sz" "\<forall>i sz xs. words_for i sz = Some xs \<longrightarrow> 8 * length xs = unat sz"
    and n: "n \<le> 2 ^ 58" "m \<le> 2 ^ 58" and k: "least_exp (request nbits) k"
  shows "\<exists>res. size_reports E k n m res \<and>
    run_size E bytes_for words_for nbits n m hp =
      Some (if blocks_there bytes_for words_for n m \<and> filters_made E nbits hp then Ran (hp, res) else Exited)"
proof (cases "blocks_there bytes_for words_for n m")
  case False
  then have "run_size E bytes_for words_for nbits n m hp = Some Exited"
    by (auto simp: run_size_def blocks_there_def Let_def split: option.split)
  moreover from four_benchmarks [OF E k, of n "replicate (n * 16) 0" m "replicate (m * 16) 0" "replicate n 0" "replicate m 0" hp]
  obtain res where "size_reports E k n m res" by auto
  ultimately show ?thesis using False by (intro exI [of _ res]) simp
next
  case True
  then obtain ki ku hi hu where got: "bytes_for 0 (ROUND64 (of_nat n * 16)) = Some ki" "bytes_for 1 (ROUND64 (of_nat m * 16)) = Some ku"
    "words_for 0 (ROUND64 (of_nat n * 8)) = Some hi" "words_for 1 (ROUND64 (of_nat m * 8)) = Some hu"
    unfolding blocks_there_def by blast
  have len: "n * 16 \<le> length ki" "m * 16 \<le> length ku" "n \<le> length hi" "m \<le> length hu"
    using got mem blocks_long [OF n(1)] blocks_long [OF n(2)] by fastforce+
  from four_benchmarks [OF E k len, of hp] True show ?thesis
    by (simp only: run_size_def got Let_def option.case prod.case blocks_long(1) [OF n(1)] blocks_long(1) [OF n(2)]) simp
qed

section \<open>Properties\<close>

text \<open>The single-key benchmarks and the bulk benchmarks compute the same: for every environment, size
  and pool the two return the same heap, sink and summaries, exits and faults included, so they
  time the same work.\<close>

theorem bench_single_is_bulk:
  "bench_hash_bloom_single E nbits n m ks us hp = bench_hash_bloom E nbits n m ks us hp \<and>
   bench_prehash_single E nbits n m hs gs hp = bench_prehash E nbits n m hs gs hp"
  by (simp add: single_is_bulk)

definition demo_env :: bench_env where
  "demo_env = \<lparr>answers = (\<lambda>_. once), now = (\<lambda>r j. of_nat (r + j)), sort_samples = sort, rounded = Fin,
     stack = (replicate 11 5, replicate 11 6, replicate 11 7)\<rparr>"

lemma demo_env_ok: "bench_ok demo_env"
proof -
  have "sorted_wrt (\<lambda>a b. cmp_u64 a b \<le> 0) (sort xs)" for xs
    using sorted_sort [of xs] by (rule sorted_wrt_mono_rel [rotated]) (auto simp: cmp_u64_def)
  then show ?thesis by (simp add: bench_ok_def sort_ok_def samples_ok_def demo_env_def once_ok REPEATS_def)
qed

lemma demo_sort_ok: "sort_ok demo_env"
  using demo_env_ok by (simp add: bench_ok_def)

text \<open>The summaries are ordered: minimum, median and ninetieth percentile, for any rounding.\<close>

lemma quotients_ordered:
  assumes rnd: "rounds_with rnd r" and n: "0 < n" "n \<le> 2 ^ 53" and le: "a \<le> (b :: u64)"
  shows "\<exists>x y. ddiv rnd (rnd (real (unat a))) (rnd (real n)) = Fin x \<and> ddiv rnd (rnd (real (unat b))) (rnd (real n)) = Fin y \<and> x \<le> y"
proof -
  have rn: "rnd (real n) = Fin (real n)" using n by (simp add: round_small [OF rnd] round_int [OF rnd])
  have q: "\<exists>t. rnd (real (unat c)) = Fin t \<and> t = r (real (unat c)) \<and> 0 \<le> t \<and> t \<le> 2 ^ 64 \<and> ddiv rnd (Fin t) (Fin (real n)) = Fin (r (t / real n))" for c :: u64
  proof -
    define m where "m = unat c"
    have "m < 2 ^ 64" using unsigned_less [of c, where 'a = nat] by (simp add: m_def)
    then have m: "real m \<le> 2 ^ 64" using of_nat_mono [of m "2 ^ 64", where 'a = real] by simp
    have t: "0 \<le> r (real m)" "r (real m) \<le> 2 ^ 64"
      using round_ge [OF rnd, of 0 0 "real m"] round_le [OF rnd, of 1 64 "real m"] m by simp_all
    have "r (real m) / real n \<le> r (real m)" using t(1) n(1) mult_left_mono [of 1 "real n" "r (real m)"] by (simp add: divide_le_eq)
    then have "\<bar>r (real m) / real n\<bar> \<le> 2 ^ 100" using t n(1) by simp
    moreover have "rnd (real m) = Fin (r (real m))" using rnd m by (simp add: rounds_with_def)
    moreover have "real n \<noteq> 0" using n(1) by simp
    ultimately show ?thesis using t rnd unfolding m_def [symmetric] by (simp add: rounds_with_def)
  qed
  from q [of a] q [of b] obtain s t where s: "rnd (real (unat a)) = Fin s" "s = r (real (unat a))" "ddiv rnd (Fin s) (Fin (real n)) = Fin (r (s / real n))"
    and t: "rnd (real (unat b)) = Fin t" "t = r (real (unat b))" "ddiv rnd (Fin t) (Fin (real n)) = Fin (r (t / real n))" by blast
  have "real (unat a) \<le> real (unat b)" using le by (simp only: word_le_nat_alt of_nat_le_iff)
  then have "s \<le> t" unfolding s(2) t(2) by (rule round_mono [OF rnd])
  then have "r (s / real n) \<le> r (t / real n)" by (intro round_mono [OF rnd] divide_right_mono) simp_all
  with s t rn show ?thesis by auto
qed

text \<open>The reported times are in order. Whatever the clock reads, wrapped differences included,
  and however doubles are rounded, the three numbers of a row are finite and the minimum is at most
  the median, the median at most the ninetieth percentile.\<close>

theorem summary_ordered:
  assumes "sort_ok E" and "rounds_with (rounded E) r" and "0 < n_ops" and "n_ops \<le> 2 ^ 53"
    and "length samples = reps" and "0 < reps"
  shows "\<exists>a b c. summarize E samples reps n_ops = Some \<lparr>st_min = Fin a, st_med = Fin b, st_p90 = Fin c\<rparr> \<and> a \<le> b \<and> b \<le> c"
proof -
  let ?s = "sort_samples E samples"
  have mset: "mset ?s = mset samples" and srt: "sorted_wrt (\<lambda>a b. cmp_u64 a b \<le> 0) ?s" using assms(1) by (auto simp: sort_ok_def)
  have len: "length ?s = reps" using mset_eq_length [OF mset] assms(5) by simp
  have "sorted ?s" using srt by (rule sorted_wrt_mono_rel [rotated]) (auto simp: cmp_u64_def split: if_splits)
  then have le: "i \<le> j \<Longrightarrow> j < reps \<Longrightarrow> ?s ! i \<le> ?s ! j" for i j using len by (auto intro: sorted_nth_mono)
  have idx: "reps div 2 < reps" "reps * 9 div 10 < reps" "reps div 2 \<le> reps * 9 div 10" using assms(6) by auto
  note q = quotients_ordered [OF assms(2-4)]
  from q [OF le [of 0 "reps div 2"]] q [OF le [of "reps div 2" "reps * 9 div 10"]] idx assms(6) len
  show ?thesis by (fastforce simp: summarize_def rd_at_def Let_def)
qed

theorem summary_ordered_witness:
  "\<exists>a b c. summarize demo_env [9, 4, 6] 3 2 = Some \<lparr>st_min = Fin a, st_med = Fin b, st_p90 = Fin c\<rparr> \<and> a \<le> b \<and> b \<le> c"
  using summary_ordered [of demo_env, OF demo_sort_ok, of "\<lambda>x. x" 2 "[9, 4, 6]" 3] rounds_with_exact by (simp add: demo_env_def)

text \<open>The sink of a measurement is always zero: \<open>measure\<close> sweeps over the same keys an even number
  of times, 3 plus 31, so the hashes cancel, and the message that is guarded by a magic value of
  the sink is never printed, as its text says; the measurement reads nothing outside the keys.\<close>

theorem measure_sink_zero:
  assumes "sort_ok E" and "length (fst (stack E)) = 31" and "\<forall>i < N_KEYS. fn (init_bytes (drop (i * KLEN) keys)) \<noteq> None"
  shows "\<exists>st. measure E fn keys = Some (0, st)"
  using measured [of E fn keys] assms by blast

theorem measure_sink_zero_witness:
  "\<exists>st. measure (demo_env\<lparr>stack := (replicate 31 1, [], [])\<rparr>) (\<lambda>_. Some 7) [] = Some (0, st)"
  using demo_sort_ok by (intro measure_sink_zero) (simp_all add: sort_ok_def)

end
