(* ===== verification/Bench_Main.thy ===== *)
theory Bench_Main
  imports Bench_Qb
begin

text \<open>
  The two benchmark programs from \<open>main\<close> down: the clock that both read, the choice of the sizes in
  \<open>bench_qb.c\<close> by environment variables and command line, and the three measurements of
  \<open>bench_hash.c\<close>. The environment, the arguments, the clock and the blocks of memory are arguments;
  what a program prints is its result.
\<close>

section \<open>The clock\<close>

record timespec =
  tv_sec :: u64
  tv_nsec :: u64

definition now_ns :: "timespec \<Rightarrow> u64" where
  "now_ns ts = tv_sec ts * 1000000000 + tv_nsec ts"

text \<open>The copy in \<open>bench_hash.c\<close>.\<close>

definition hash_now_ns :: "timespec \<Rightarrow> u64" where
  "hash_now_ns ts = tv_sec ts * 1000000000 + tv_nsec ts"

text \<open>The comparator of \<open>bench_qb.c\<close>.\<close>

definition qb_cmp_u64 :: "u64 \<Rightarrow> u64 \<Rightarrow> int" where
  "qb_cmp_u64 x y = (if y < x then 1 else 0) - (if x < y then 1 else 0)"

text \<open>An environment whose clock gives \<open>clock r j\<close> in the repetition \<open>r\<close>.\<close>

definition with_clock :: "(timespec \<Rightarrow> u64) \<Rightarrow> (nat \<Rightarrow> nat \<Rightarrow> timespec) \<Rightarrow> bench_env \<Rightarrow> bench_env" where
  "with_clock read clock E = E\<lparr>now := \<lambda>r j. read (clock r j)\<rparr>"

section \<open>Numbers from the environment\<close>

text \<open>\<open>strtoull(s, NULL, 0)\<close> of the C library: white space, a sign, a prefix that chooses the base,
  digits, the largest value on overflow.\<close>

definition code_of :: "char \<Rightarrow> int" where
  "code_of c = of_char c"

definition is_space :: "char \<Rightarrow> bool" where
  "is_space c \<longleftrightarrow> code_of c = 32 \<or> 9 \<le> code_of c \<and> code_of c \<le> 13"

definition digit_value :: "char \<Rightarrow> int" where
  "digit_value c =
     (let n = code_of c
      in if 48 \<le> n \<and> n \<le> 57 then n - 48 else if 97 \<le> n \<and> n \<le> 122 then n - 87
         else if 65 \<le> n \<and> n \<le> 90 then n - 55 else 36)"

fun scan_digits :: "int \<Rightarrow> string \<Rightarrow> int \<Rightarrow> int" where
  "scan_digits base [] acc = acc"
| "scan_digits base (c # s) acc =
     (if digit_value c < base then scan_digits base s (acc * base + digit_value c) else acc)"

fun scan_sign :: "string \<Rightarrow> bool \<times> string" where
  "scan_sign [] = (False, [])"
| "scan_sign (c # s) = (if code_of c = 45 then (True, s) else if code_of c = 43 then (False, s) else (False, c # s))"

fun scan_base :: "string \<Rightarrow> int \<times> string" where
  "scan_base (z # x # d # s) =
     (if code_of z = 48 then if code_of x \<in> {88, 120} \<and> digit_value d < 16 then (16, d # s) else (8, z # x # d # s)
      else (10, z # x # d # s))"
| "scan_base (z # s) = (if code_of z = 48 then 8 else 10, z # s)"
| "scan_base [] = (10, [])"

definition strtoull0 :: "string \<Rightarrow> u64" where
  "strtoull0 s =
     (let (neg, s) = scan_sign (dropWhile is_space s);
          (base, s) = scan_base s;
          n = scan_digits base s 0
      in if 2 ^ 64 \<le> n then - 1 else if neg then - of_int n else of_int n)"

section \<open>\<open>bench_qb\<close>\<close>

record preset_t =
  tag :: string
  p_nbits :: size_t
  p_insert :: size_t
  p_query :: size_t

definition PRESETS :: "preset_t list" where
  "PRESETS =
     [\<lparr>tag = ''S'', p_nbits = push_bit 20 1, p_insert = 49932, p_query = 200000\<rparr>,
      \<lparr>tag = ''M'', p_nbits = push_bit 24 1, p_insert = 798915, p_query = 500000\<rparr>,
      \<lparr>tag = ''L'', p_nbits = push_bit 28 1, p_insert = 12782640, p_query = 500000\<rparr>]"

text \<open>\<open>for (int a = 1; a < argc && !want; a++)\<close>, over the arguments that are left.\<close>

fun find_arg :: "string \<Rightarrow> string list \<Rightarrow> bool \<Rightarrow> bool" where
  "find_arg t [] want = want"
| "find_arg t (a # as) want = (if want then want else find_arg t as (a = t))"

definition wanted :: "string list \<Rightarrow> preset_t \<Rightarrow> bool" where
  "wanted argv p = (let want_all = (length argv = 1) in find_arg (tag p) (drop 1 argv) want_all)"

text \<open>The runs that \<open>main\<close> makes, one after the other.\<close>

definition bench_jobs :: "(string \<rightharpoonup> string) \<Rightarrow> string list \<Rightarrow> preset_t list" where
  "bench_jobs getenv argv =
     (case (getenv ''QB_NBITS'', getenv ''QB_N_INSERT'') of
        (Some nb, Some ni) \<Rightarrow>
          [\<lparr>tag = ''custom'', p_nbits = strtoull0 nb, p_insert = strtoull0 ni, p_query = strtoull0 ni\<rparr>]
      | _ \<Rightarrow> filter (wanted argv) PRESETS)"

type_synonym job_result = "string \<times> bench_result \<times> bench_result \<times> bench_result \<times> bench_result"

text \<open>What a job finds outside the program: the environments of its benchmarks and its blocks.\<close>

record job_env =
  j_bench :: "nat \<Rightarrow> bench_env"
  j_bytes :: "nat \<Rightarrow> size_t \<Rightarrow> u8 list option"
  j_words :: "nat \<Rightarrow> size_t \<Rightarrow> u64 list option"

fun run_jobs :: "(nat \<Rightarrow> job_env) \<Rightarrow> nat \<Rightarrow> preset_t list \<Rightarrow> qb_heap \<Rightarrow> (qb_heap \<times> job_result list) run option" where
  "run_jobs E j [] hp = Some (Ran (hp, []))"
| "run_jobs E j (p # ps) hp = do {
     r \<leftarrow> run_size (j_bench (E j)) (j_bytes (E j)) (j_words (E j)) (p_nbits p) (unat (p_insert p)) (unat (p_query p)) hp;
     (case r of
        Exited \<Rightarrow> Some Exited
      | Ran (hp, res) \<Rightarrow> do {
          rest \<leftarrow> run_jobs E (j + 1) ps hp;
          (case rest of
             Exited \<Rightarrow> Some Exited
           | Ran (hp, out) \<Rightarrow> Some (Ran (hp, (tag p, res) # out))) }) }"

definition bench_qb_main ::
  "(nat \<Rightarrow> job_env) \<Rightarrow> (string \<rightharpoonup> string) \<Rightarrow> string list \<Rightarrow> qb_heap \<Rightarrow> (qb_heap \<times> job_result list) run option" where
  "bench_qb_main E getenv argv = run_jobs E 0 (bench_jobs getenv argv)"

section \<open>\<open>bench_hash\<close>\<close>

text \<open>The exit status and the rows of the table. \<open>aligned\<close> tells for which alignments and sizes
  \<open>aligned_alloc\<close> has a block; the bytes of a new block are indeterminate.\<close>

definition bench_hash_main ::
  "(nat \<Rightarrow> bench_env) \<Rightarrow> (size_t \<Rightarrow> size_t \<Rightarrow> bool) \<Rightarrow> (nat \<times> (string \<times> u64 \<times> stats_t) list) option" where
  "bench_hash_main E aligned =
     (let sz = of_nat (N_KEYS * KLEN)
      in if \<not> aligned 64 sz then Some (1, [])
         else do {
           keys \<leftarrow> fill_keys (replicate (unat sz) None) N_KEYS;
           a \<leftarrow> measure (E 0) bench_wymum keys;
           b \<leftarrow> measure (E 1) bench_xxh64 keys;
           c \<leftarrow> measure (E 2) bench_siphash13 keys;
           Some (0, [(''wymum16'', a), (''xxh64'', b), (''siphash-1-3'', c)]) })"

section \<open>Lemmas\<close>

lemma find_arg_eq: "find_arg t as want \<longleftrightarrow> want \<or> t \<in> set as"
  by (induction t as want rule: find_arg.induct) auto

lemma cmp_copies: "qb_cmp_u64 = cmp_u64"
  by (simp add: fun_eq_iff qb_cmp_u64_def cmp_u64_def)

lemma with_clock_ok: "bench_ok (with_clock rd c E) = bench_ok E"
  by (simp add: bench_ok_def sort_ok_def with_clock_def)

text \<open>Blocks of the size asked for.\<close>

definition job_ok :: "job_env \<Rightarrow> bool" where
  "job_ok E \<longleftrightarrow> (\<forall>k. bench_ok (j_bench E k)) \<and> (\<forall>k sz xs. j_bytes E k sz = Some xs \<longrightarrow> length xs = unat sz) \<and>
     (\<forall>k sz xs. j_words E k sz = Some xs \<longrightarrow> 8 * length xs = unat sz)"

definition jobs_fit :: "preset_t list \<Rightarrow> bool" where
  "jobs_fit ps \<longleftrightarrow> (\<forall>p \<in> set ps. unat (p_insert p) \<le> 2 ^ 58 \<and> unat (p_query p) \<le> 2 ^ 58)"

text \<open>When a job gets all its memory, and what it then reports.\<close>

definition job_runs :: "job_env \<Rightarrow> preset_t \<Rightarrow> qb_heap \<Rightarrow> bool" where
  "job_runs E p hp \<longleftrightarrow> blocks_there (j_bytes E) (j_words E) (unat (p_insert p)) (unat (p_query p)) \<and>
     filters_made (j_bench E) (p_nbits p) hp"

definition job_reports :: "job_env \<Rightarrow> preset_t \<Rightarrow> job_result \<Rightarrow> bool" where
  "job_reports E p = (\<lambda>(t, res). t = tag p \<and>
     (\<exists>k. least_exp (request (p_nbits p)) k \<and> size_reports (j_bench E) k (unat (p_insert p)) (unat (p_query p)) res))"

lemma job_run:
  assumes "job_ok E" and "unat (p_insert p) \<le> 2 ^ 58" and "unat (p_query p) \<le> 2 ^ 58"
  shows "\<exists>res. job_reports E p (tag p, res) \<and>
     run_size (j_bench E) (j_bytes E) (j_words E) (p_nbits p) (unat (p_insert p)) (unat (p_query p)) hp =
       Some (if job_runs E p hp then Ran (hp, res) else Exited)"
proof -
  from least_exp_exists obtain k where k: "least_exp (request (p_nbits p)) k" ..
  have "\<forall>b. bench_ok (j_bench E b)" "\<forall>i sz xs. j_bytes E i sz = Some xs \<longrightarrow> length xs = unat sz"
    "\<forall>i sz xs. j_words E i sz = Some xs \<longrightarrow> 8 * length xs = unat sz" using assms(1) by (auto simp: job_ok_def)
  from run_size_exact [OF this assms(2,3) k, of hp] k show ?thesis
    unfolding job_reports_def job_runs_def prod.case by blast
qed

lemma jobs_run:
  assumes E: "\<And>j. job_ok (E j)"
  shows "jobs_fit ps \<Longrightarrow> \<exists>out. length out = length ps \<and> (\<forall>i < length ps. job_reports (E (j + i)) (ps ! i) (out ! i)) \<and>
     run_jobs E j ps hp = Some (if \<forall>i < length ps. job_runs (E (j + i)) (ps ! i) hp then Ran (hp, out) else Exited)"
proof (induction ps arbitrary: j)
  case (Cons p ps)
  then have fit: "unat (p_insert p) \<le> 2 ^ 58" "unat (p_query p) \<le> 2 ^ 58" "jobs_fit ps" by (simp_all add: jobs_fit_def)
  from job_run [OF E fit(1,2), of j hp] obtain res where res: "job_reports (E j) p (tag p, res)"
    "run_size (j_bench (E j)) (j_bytes (E j)) (j_words (E j)) (p_nbits p) (unat (p_insert p)) (unat (p_query p)) hp =
       Some (if job_runs (E j) p hp then Ran (hp, res) else Exited)" by blast
  from Cons.IH [OF fit(3), of "j + 1"] obtain out where out: "length out = length ps"
    "\<And>i. i < length ps \<Longrightarrow> job_reports (E (j + 1 + i)) (ps ! i) (out ! i)"
    "run_jobs E (j + 1) ps hp = Some (if \<forall>i < length ps. job_runs (E (j + 1 + i)) (ps ! i) hp then Ran (hp, out) else Exited)"
    by blast
  have all: "(\<forall>i < Suc n. P i) \<longleftrightarrow> P 0 \<and> (\<forall>i < n. P (Suc i))" for P n
    by (auto simp: less_Suc_eq_0_disj)
  from res out show ?case
    by (intro exI [of _ "(tag p, res) # out"]) (simp add: all)
qed simp

lemma presets_fit: "set ps \<subseteq> set PRESETS \<Longrightarrow> jobs_fit ps"
  by (auto simp: jobs_fit_def PRESETS_def)

lemma wanted_eq: "wanted argv p \<longleftrightarrow> length argv = 1 \<or> tag p \<in> set (drop 1 argv)"
  by (simp add: wanted_def find_arg_eq)

lemma init_bytes_map [simp]: "init_bytes (map Some xs) = xs"
  by (induction xs) simp_all

lemma filled_keys: "\<exists>keys. fill_keys (replicate (unat (of_nat (N_KEYS * KLEN) :: size_t)) None) N_KEYS = Some (map Some keys) \<and>
    length keys = N_KEYS * KLEN"
proof -
  have "unat (of_nat (N_KEYS * KLEN) :: size_t) = N_KEYS * KLEN" by (simp add: N_KEYS_def KLEN_def)
  then show ?thesis
    by (intro exI [of _ "byte_pool 0xC0FFEE (2 * N_KEYS)"]) (simp add: fill_keys_eq KLEN_def mult.commute)
qed

lemma hashes_defined:
  assumes "length keys = N_KEYS * KLEN" and "i < N_KEYS"
  shows "bench_wymum (init_bytes (drop (i * KLEN) (map Some keys))) \<noteq> None"
    and "bench_xxh64 (init_bytes (drop (i * KLEN) (map Some keys))) \<noteq> None"
    and "bench_siphash13 (init_bytes (drop (i * KLEN) (map Some keys))) \<noteq> None"
proof -
  have "(i + 1) * KLEN \<le> length keys" unfolding assms(1) using assms(2) by (intro mult_le_mono1) simp
  then have len: "KLEN \<le> length (drop (i * KLEN) keys)" by simp
  then show "bench_wymum (init_bytes (drop (i * KLEN) (map Some keys))) \<noteq> None"
    by (simp add: drop_map bench_wymum_def wymum16_def rd_le_Some KLEN_def Let_def)
  from qb_xxh64_prefix [OF len, of 0] show "bench_xxh64 (init_bytes (drop (i * KLEN) (map Some keys))) \<noteq> None"
    by (simp add: drop_map bench_xxh64_def)
  from siphash_eq [OF len, of SIP_KEY] show "bench_siphash13 (init_bytes (drop (i * KLEN) (map Some keys))) \<noteq> None"
    by (simp add: drop_map bench_siphash13_def SIP_KEY_def)
qed

section \<open>Properties\<close>

text \<open>C27: the filter benchmark is sound as a whole. The runs of \<open>main\<close> of \<open>bench_qb.c\<close> are the one of the
  environment variables when both are set, and otherwise the presets that the command line names,
  all of them when it names nothing. If the number in \<open>QB_N_INSERT\<close>, where it is set, is at most 2
  to the 58, and aside from that for every environment and command line, \<open>main\<close> accesses no memory
  outside a block or a filter; it exits exactly when some run does not get its four blocks or one
  of its filters, be it that an allocation fails or that the size is above the limit of \<open>qb_new\<close>;
  and otherwise it ends with the heap it started from and reports every run in turn. There each
  of the four benchmarks works on a filter of the least power of two of blocks that holds the
  run's size, its sink is thirteen times the number of inserted keys plus the number of queried
  ones whose footprint those cover, and its rows are the summaries of the clock's differences.\<close>

theorem bench_qb_main_sound:
  assumes "\<forall>j. job_ok (E j)" and "\<forall>v. getenv ''QB_N_INSERT'' = Some v \<longrightarrow> unat (strtoull0 v) \<le> 2 ^ 58"
  shows "(\<forall>nb ni. getenv ''QB_NBITS'' = Some nb \<and> getenv ''QB_N_INSERT'' = Some ni \<longrightarrow> bench_jobs getenv argv =
         [\<lparr>tag = ''custom'', p_nbits = strtoull0 nb, p_insert = strtoull0 ni, p_query = strtoull0 ni\<rparr>]) \<and>
     (getenv ''QB_NBITS'' = None \<or> getenv ''QB_N_INSERT'' = None \<longrightarrow> bench_jobs getenv argv =
         filter (\<lambda>p. length argv = 1 \<or> tag p \<in> set (drop 1 argv)) PRESETS) \<and>
     (\<exists>out. length out = length (bench_jobs getenv argv) \<and>
        (\<forall>j < length out. job_reports (E j) (bench_jobs getenv argv ! j) (out ! j)) \<and>
        bench_qb_main E getenv argv hp =
          Some (if \<forall>j < length out. job_runs (E j) (bench_jobs getenv argv ! j) hp then Ran (hp, out) else Exited))"
proof -
  have unset: "bench_jobs getenv argv = filter (\<lambda>p. length argv = 1 \<or> tag p \<in> set (drop 1 argv)) PRESETS"
    if "getenv ''QB_NBITS'' = None \<or> getenv ''QB_N_INSERT'' = None"
    using that by (auto simp: bench_jobs_def wanted_eq [abs_def] simp del: One_nat_def split: option.split)
  have "jobs_fit (bench_jobs getenv argv)"
  proof (cases "getenv ''QB_NBITS'' = None \<or> getenv ''QB_N_INSERT'' = None")
    case True
    then show ?thesis by (simp add: unset presets_fit)
  next
    case False
    then show ?thesis using assms(2) by (auto simp: bench_jobs_def jobs_fit_def)
  qed
  from jobs_run [of E, OF spec [OF assms(1)] this, of 0 hp] obtain out where
    "length out = length (bench_jobs getenv argv)" "\<forall>j < length out. job_reports (E j) (bench_jobs getenv argv ! j) (out ! j)"
    "bench_qb_main E getenv argv hp =
      Some (if \<forall>j < length out. job_runs (E j) (bench_jobs getenv argv ! j) hp then Ran (hp, out) else Exited)"
    by (auto simp: bench_qb_main_def)
  with unset show ?thesis by (intro conjI allI impI exI [of _ out]) (auto simp: bench_jobs_def)
qed

definition demo_job :: job_env where
  "demo_job = \<lparr>j_bench = \<lambda>_. demo_env, j_bytes = \<lambda>k sz. Some (replicate (unat sz) 0),
     j_words = \<lambda>k sz. if 8 dvd unat sz then Some (replicate (unat sz div 8) 0) else None\<rparr>"

lemma demo_job_ok: "job_ok demo_job"
  using demo_env_ok by (simp add: job_ok_def demo_job_def)

definition demo_getenv :: "string \<rightharpoonup> string" where
  "demo_getenv = [''QB_NBITS'' \<mapsto> '' 0x100'', ''QB_N_INSERT'' \<mapsto> ''+3'']"

lemma demo_numbers: "strtoull0 '' 0x100'' = 256" "strtoull0 ''+3'' = 3" "strtoull0 ''-1'' = - 1"
  "strtoull0 ''017x'' = 15" "strtoull0 ''18446744073709551616'' = 18446744073709551615"
  by code_simp+

theorem bench_qb_main_sound_witness:
  "bench_jobs demo_getenv [''bench_qb''] = [\<lparr>tag = ''custom'', p_nbits = 256, p_insert = 3, p_query = 3\<rparr>] \<and>
   (\<exists>out. bench_qb_main (\<lambda>_. demo_job) demo_getenv [''bench_qb''] Map.empty = Some out)"
proof
  show "bench_jobs demo_getenv [''bench_qb''] = [\<lparr>tag = ''custom'', p_nbits = 256, p_insert = 3, p_query = 3\<rparr>]"
    by (simp add: bench_jobs_def demo_getenv_def demo_numbers)
  have "\<forall>v. demo_getenv ''QB_N_INSERT'' = Some v \<longrightarrow> unat (strtoull0 v) \<le> 2 ^ 58"
    by (simp add: demo_getenv_def demo_numbers)
  moreover have "\<forall>j :: nat. job_ok ((\<lambda>_. demo_job) j)" using demo_job_ok by simp
  ultimately have "bench_qb_main (\<lambda>_. demo_job) demo_getenv [''bench_qb''] Map.empty \<noteq> None"
    using bench_qb_main_sound [of "\<lambda>_. demo_job" demo_getenv "[''bench_qb'']" Map.empty] by auto
  then
  show "\<exists>out. bench_qb_main (\<lambda>_. demo_job) demo_getenv [''bench_qb''] Map.empty = Some out" by (simp only: not_None_eq)
qed

text \<open>Without the override a command line chooses the presets that it names, in their own order; the
  bare program runs all three.\<close>

theorem bench_jobs_selection:
  "bench_jobs Map.empty [a] = PRESETS \<and>
   (length argv \<noteq> 1 \<longrightarrow> map tag (bench_jobs Map.empty argv) = filter (\<lambda>t. t \<in> set (drop 1 argv)) [''S'', ''M'', ''L''])"
proof (intro conjI impI)
  have "wanted [a] = (\<lambda>_. True)" by (simp add: fun_eq_iff wanted_def find_arg_eq)
  then show "bench_jobs Map.empty [a] = PRESETS" by (simp add: bench_jobs_def)
  assume "length argv \<noteq> 1"
  then have "wanted argv = (\<lambda>p. tag p \<in> set (drop 1 argv))" by (simp add: fun_eq_iff wanted_def find_arg_eq)
  then show "map tag (bench_jobs Map.empty argv) = filter (\<lambda>t. t \<in> set (drop 1 argv)) [''S'', ''M'', ''L'']"
    by (simp add: bench_jobs_def PRESETS_def)
qed

text \<open>The count from the environment is not checked: 2 to the 61 keys make both products wrap to zero,
  the blocks of size zero are allocated, and the first hash is written behind one.\<close>

theorem run_size_wraps:
  "run_size E (\<lambda>k sz. Some (replicate (unat sz) 0)) (\<lambda>k sz. Some (replicate (unat sz div 8) 0)) nbits (2 ^ 61) (2 ^ 61) hp = None"
proof -
  have zero: "of_nat (2 ^ 61) * 16 = (0 :: size_t)" "of_nat (2 ^ 61) * 8 = (0 :: size_t)" by simp_all
  have "fill_hashes [] n s = None" if "0 < n" for n s
    using that by (simp add: fill_hashes_def upt_conv_Cons sm_next_eq wr_at_def)
  from this [of "2 ^ 61"] have "fill_hashes [] (2 ^ 61) s = None" for s by simp
  moreover have "unat (ROUND64 0) = 0" by code_simp
  moreover have "fill_bytes [] 0 s = Some []" for s by (simp add: fill_bytes_def fill_bytes_loop.simps)
  ultimately show ?thesis unfolding run_size_def zero by (simp add: Let_def)
qed

text \<open>A timed phase is measured exactly. For two readings of the monotonic clock in their order, with
  nanoseconds below a second and less than 2 to the 34 seconds, the wrapping difference that both
  benchmarks take is the time between them in nanoseconds.\<close>

theorem elapsed_exact:
  assumes "unat (tv_nsec a) < 10 ^ 9" and "unat (tv_nsec b) < 10 ^ 9" and "unat (tv_sec b) < 2 ^ 34"
    and "tv_sec a < tv_sec b \<or> tv_sec a = tv_sec b \<and> tv_nsec a \<le> tv_nsec b"
  shows "int (unat (now_ns b - now_ns a)) =
     (int (unat (tv_sec b)) - int (unat (tv_sec a))) * 10 ^ 9 + (int (unat (tv_nsec b)) - int (unat (tv_nsec a))) \<and>
     hash_now_ns b - hash_now_ns a = now_ns b - now_ns a"
proof
  have le: "unat (tv_sec a) \<le> unat (tv_sec b)" using assms(4) by (auto simp: word_less_nat_alt)
  have ns: "unat (now_ns t) = unat (tv_sec t) * 10 ^ 9 + unat (tv_nsec t)"
    if "unat (tv_nsec t) < 10 ^ 9" "unat (tv_sec t) < 2 ^ 34" for t
  proof -
    have "unat (tv_sec t) * 10 ^ 9 + unat (tv_nsec t) < 2 ^ 64" using that by simp
    then show ?thesis by (simp add: now_ns_def unat_word_ariths take_bit_nat_eq_self)
  qed
  have a: "unat (now_ns a) = unat (tv_sec a) * 10 ^ 9 + unat (tv_nsec a)" using ns [OF assms(1)] le assms(3) by simp
  have b: "unat (now_ns b) = unat (tv_sec b) * 10 ^ 9 + unat (tv_nsec b)" using ns [OF assms(2,3)] .
  have "unat (now_ns a) \<le> unat (now_ns b)"
    using assms(1,4) unfolding a b by (auto simp: word_less_nat_alt word_le_nat_alt)
  then have "unat (now_ns b - now_ns a) = unat (now_ns b) - unat (now_ns a)" "unat (now_ns a) \<le> unat (now_ns b)"
    by (simp_all add: unat_sub word_le_nat_alt)
  then show "int (unat (now_ns b - now_ns a)) =
     (int (unat (tv_sec b)) - int (unat (tv_sec a))) * 10 ^ 9 + (int (unat (tv_nsec b)) - int (unat (tv_nsec a)))"
    unfolding a b by (simp add: of_nat_diff algebra_simps)
  show "hash_now_ns b - hash_now_ns a = now_ns b - now_ns a" by (simp add: now_ns_def hash_now_ns_def)
qed

theorem elapsed_exact_witness:
  "int (unat (now_ns \<lparr>tv_sec = 8, tv_nsec = 5\<rparr> - now_ns \<lparr>tv_sec = 7, tv_nsec = 999999999\<rparr>)) = 6"
  using elapsed_exact [of "\<lparr>tv_sec = 7, tv_nsec = 999999999\<rparr>" "\<lparr>tv_sec = 8, tv_nsec = 5\<rparr>"] by simp

text \<open>C28: the hash benchmark is sound as a whole. Whatever the clock reads, \<open>main\<close> of \<open>bench_hash.c\<close> asks
  for one block of 3200000 bytes on a boundary of 64; it returns 1 when there is none, and
  otherwise 0 after measuring the three hash functions. It writes nothing outside the block, and no
  hash function reads outside it or a byte that was not filled. Each row is the summary of the
  clock's 31 differences, and each measurement's sink is zero, so the message guarded by a magic
  value of it is never printed.\<close>

theorem bench_hash_main_sound:
  assumes "\<forall>i. sort_ok (E i) \<and> length (fst (stack (E i))) = 31"
  shows "\<exists>st. (\<forall>i. summarize (E i) (map (\<lambda>r. now (E i) r 1 - now (E i) r 0) [0..<31]) 31 N_KEYS = Some (st i)) \<and>
     bench_hash_main E aligned =
       Some (if aligned 64 3200000 then (0, [(''wymum16'', 0, st 0), (''xxh64'', 0, st 1), (''siphash-1-3'', 0, st 2)])
             else (1, []))"
proof -
  from filled_keys obtain keys where k: "fill_keys (replicate (unat (of_nat (N_KEYS * KLEN) :: size_t)) None) N_KEYS = Some (map Some keys)"
    "length keys = N_KEYS * KLEN" by blast
  have m: "\<exists>st. summarize (E i) (map (\<lambda>r. now (E i) r 1 - now (E i) r 0) [0..<31]) 31 N_KEYS = Some st \<and>
      measure (E i) fn (map Some keys) = Some (0, st)"
    if "\<And>j. j < N_KEYS \<Longrightarrow> fn (init_bytes (drop (j * KLEN) (map Some keys))) \<noteq> None" for i fn
    using assms that by (intro measured) simp_all
  from m [of bench_wymum, OF hashes_defined(1) [OF k(2)]] obtain st where
    st: "\<And>i. summarize (E i) (map (\<lambda>r. now (E i) r 1 - now (E i) r 0) [0..<31]) 31 N_KEYS = Some (st i)" by metis
  have "measure (E i) fn (map Some keys) = Some (0, st i)"
    if "\<forall>j < N_KEYS. fn (init_bytes (drop (j * KLEN) (map Some keys))) \<noteq> None" for i fn
  proof -
    from m [of fn i] that obtain u where "summarize (E i) (map (\<lambda>r. now (E i) r 1 - now (E i) r 0) [0..<31]) 31 N_KEYS = Some u"
      "measure (E i) fn (map Some keys) = Some (0, u)" by blast
    with st [of i] show ?thesis by (simp only: option.inject)
  qed
  with hashes_defined [OF k(2)] have "measure (E 0) bench_wymum (map Some keys) = Some (0, st 0)"
    "measure (E 1) bench_xxh64 (map Some keys) = Some (0, st 1)" "measure (E 2) bench_siphash13 (map Some keys) = Some (0, st 2)"
    by blast+
  note rows = this k(1)
  have sz: "aligned 64 (of_nat (N_KEYS * KLEN)) = aligned 64 3200000" by (simp add: N_KEYS_def KLEN_def)
  have "bench_hash_main E aligned =
       Some (if aligned 64 3200000 then (0, [(''wymum16'', 0, st 0), (''xxh64'', 0, st 1), (''siphash-1-3'', 0, st 2)])
             else (1, []))"
    by (cases "aligned 64 3200000") (simp_all only: bench_hash_main_def Let_def sz rows Option.bind.simps if_True if_False not_True_eq_False
        not_False_eq_True)
  with st show ?thesis by blast
qed

theorem bench_hash_main_sound_witness:
  "\<exists>a b c. bench_hash_main (\<lambda>_. demo_env\<lparr>stack := (replicate 31 1, [], [])\<rparr>) (\<lambda>_ _. True) =
     Some (0, [(''wymum16'', 0, a), (''xxh64'', 0, b), (''siphash-1-3'', 0, c)])"
proof -
  have "\<forall>i :: nat. sort_ok ((\<lambda>_. demo_env\<lparr>stack := (replicate 31 1, [], [])\<rparr>) i) \<and>
      length (fst (stack ((\<lambda>_. demo_env\<lparr>stack := (replicate 31 1, [], [])\<rparr>) i))) = 31"
    using demo_sort_ok by (simp add: sort_ok_def)
  from bench_hash_main_sound [OF this, of "\<lambda>_ _. True"] show ?thesis by auto
qed

end
