(* ===== verification/Hello.thy ===== *)
theory Hello
  imports Fuzz_Harness Fuse_Alloc
begin

text \<open>
  \<open>examples/hello_quickbloom.c\<close>: \<open>main\<close> with its words, and the theorem that it never reports a word that
  it inserted as missing. The C library's allocator and logarithm and the rounding of doubles are
  arguments; what is printed is the result.
\<close>

section \<open>Definitions\<close>

definition strlen :: "u8 list \<Rightarrow> nat" where
  "strlen s = length (takeWhile (\<lambda>c. c \<noteq> 0) s)"

text \<open>\<open>"Love"\<close>, \<open>"is"\<close>, \<open>"in"\<close>, \<open>"bloom"\<close> and \<open>"absent"\<close>, \<open>"missing"\<close>, \<open>"ghost"\<close>.\<close>

definition hello_present :: "u8 list list" where
  "hello_present = [[0x4c, 0x6f, 0x76, 0x65, 0], [0x69, 0x73, 0], [0x69, 0x6e, 0], [0x62, 0x6c, 0x6f, 0x6f, 0x6d, 0]]"

definition hello_missing :: "u8 list list" where
  "hello_missing = [[0x61, 0x62, 0x73, 0x65, 0x6e, 0x74, 0], [0x6d, 0x69, 0x73, 0x73, 0x69, 0x6e, 0x67, 0],
     [0x67, 0x68, 0x6f, 0x73, 0x74, 0]]"

text \<open>The exit status, the answers for the present and the missing words, and the heap.\<close>

definition hello_main ::
  "bool \<Rightarrow> (real \<Rightarrow> dbl) \<Rightarrow> (dbl \<Rightarrow> dbl) \<Rightarrow> allocator \<Rightarrow> qb_heap \<Rightarrow> (nat \<times> nat list \<times> nat list \<times> qb_heap) outcome option" where
  "hello_main ndebug rnd flog alloc hp = do {
     made \<leftarrow> qb_sized ndebug rnd flog alloc 10000 hp;
     (case made of
        Aborted \<Rightarrow> Some Aborted
      | Done (f, hp) \<Rightarrow>
          if f = NULL then Some (Done (1, [], [], hp))
          else do {
            hp \<leftarrow> foldM (\<lambda>s. qb_insert f s (strlen s)) hello_present hp;
            present \<leftarrow> those (map (\<lambda>s. qb_contains f s (strlen s) hp) hello_present);
            missing \<leftarrow> those (map (\<lambda>s. qb_contains f s (strlen s) hp) hello_missing);
            hp \<leftarrow> qb_free f hp;
            Some (Done (0, present, missing, hp)) }) }"

section \<open>Words\<close>

lemma words_inserted:
  assumes "filter_at hp p k b ws"
  shows "\<exists>ws'. foldM (\<lambda>s. qb_insert p s (strlen s)) ss hp = Some (hp(bits b \<mapsto> Words ws')) \<and> length ws' = length ws \<and>
     bitset ws \<subseteq> bitset ws' \<and> (\<forall>s \<in> set ss. footprint k (key_hash (take (strlen s) s)) \<subseteq> bitset ws')"
  using assms
proof (induction ss arbitrary: hp ws)
  case Nil
  then have "hp(bits b \<mapsto> Words ws) = hp" by (simp add: filter_at_def fun_upd_idem)
  then show ?case by (intro exI [of _ ws]) simp
next
  case (Cons s ss)
  let ?h = "key_hash (take (strlen s) s)"
  have "strlen s \<le> length s" by (simp add: strlen_def length_takeWhile_le)
  then have ins: "qb_insert p s (strlen s) hp = Some (hp(bits b \<mapsto> Words (set_hash k ?h ws)))"
    by (simp add: insert_via_prehash bloom_hash_eq insert_prehash_eq [OF Cons.prems] del: fun_upd_apply)
  have len: "length (set_hash k ?h ws) = length ws" using block_in_bounds [OF Cons.prems] by simp
  from Cons.IH [OF filter_at_update [OF Cons.prems len]] obtain ws' where
    "foldM (\<lambda>s. qb_insert p s (strlen s)) ss (hp(bits b \<mapsto> Words (set_hash k ?h ws))) = Some (hp(bits b \<mapsto> Words ws'))"
    "length ws' = length ws" "bitset (set_hash k ?h ws) \<subseteq> bitset ws'"
    "\<forall>s \<in> set ss. footprint k (key_hash (take (strlen s) s)) \<subseteq> bitset ws'"
    using len by (auto simp del: fun_upd_apply simp: fun_upd_upd)
  with ins bitset_set_hash [OF Cons.prems] show ?case
    by (intro exI [of _ ws']) (auto simp del: fun_upd_apply)
qed

lemma words_found:
  assumes "filter_at hp p k b ws"
  shows "those (map (\<lambda>s. qb_contains p s (strlen s) hp) ss) =
     Some (map (\<lambda>s. if footprint k (key_hash (take (strlen s) s)) \<subseteq> bitset ws then 1 else 0) ss)"
proof -
  have "strlen s \<le> length s" for s by (simp add: strlen_def length_takeWhile_le)
  then have "qb_contains p s (strlen s) hp = Some (if footprint k (key_hash (take (strlen s) s)) \<subseteq> bitset ws then 1 else 0)" for s
    by (simp add: contains_via_prehash bloom_hash_eq contains_prehash_eq [OF assms])
  then show ?thesis by (simp only: those_map_Some)
qed

section \<open>Properties\<close>

text \<open>The example never prints \<open>MISS (BUG)\<close>. Whatever the allocator answers and however doubles
  are rounded, \<open>main\<close> of \<open>hello_quickbloom.c\<close> returns 1 when the filter cannot be made, and
  otherwise 0 after finding all four inserted words; it frees what it allocated.\<close>

theorem hello_finds_all:
  assumes "allocator_ok alloc" and "rounds_with rnd r" and "rnd (1 / 100) = Fin x" and "log_value flog x l"
  shows "hello_main ndebug rnd flog alloc hp = Some (Done (1, [], [], hp)) \<or>
    (\<exists>missing. length missing = 3 \<and> set missing \<subseteq> {0, 1} \<and>
      hello_main ndebug rnd flog alloc hp = Some (Done (0, [1, 1, 1, 1], missing, hp)))"
proof -
  have "(0 :: nat) < 10000" and "(10000 :: nat) \<le> 2 ^ 51" by simp_all
  from sized_result [OF assms this, of ndebug hp] show ?thesis
  proof
    assume "qb_sized ndebug rnd flog alloc 10000 hp = Some (Done (NULL, hp))"
    then show ?thesis by (simp add: hello_main_def)
  next
    assume "\<exists>k p mem. k \<le> 31 \<and> answers_ok hp p mem \<and> p \<noteq> NULL \<and> mem \<noteq> NULL \<and>
       qb_sized ndebug rnd flog alloc 10000 hp = Some (Done (p, with_filter p mem k (replicate (8 * 2 ^ k) 0) hp))"
    then obtain k p mem where p: "answers_ok hp p mem" "p \<noteq> NULL" "mem \<noteq> NULL" "k \<le> 31" and
      made: "qb_sized ndebug rnd flog alloc 10000 hp = Some (Done (p, with_filter p mem k (replicate (8 * 2 ^ k) 0) hp))"
      by blast
    have f0: "filter_at (with_filter p mem k (replicate (8 * 2 ^ k) 0) hp) p k (filter_struct mem k) (replicate (8 * 2 ^ k) 0)"
      by (rule filter_at_with_filter [OF p]) simp
    have "p \<noteq> mem" using p by (auto simp: answers_ok_def)
    with words_inserted [OF f0, of hello_present] obtain ws where
      run: "foldM (\<lambda>s. qb_insert p s (strlen s)) hello_present (with_filter p mem k (replicate (8 * 2 ^ k) 0) hp) = Some (with_filter p mem k ws hp)"
      and len: "length ws = 8 * 2 ^ k" and set: "\<forall>s \<in> set hello_present. footprint k (key_hash (take (strlen s) s)) \<subseteq> bitset ws"
      by (auto simp: with_filter_update)
    note found = words_found [OF filter_at_with_filter [OF p len]]
    let ?miss = "map (\<lambda>s. if footprint k (key_hash (take (strlen s) s)) \<subseteq> bitset ws then 1 else 0 :: nat) hello_missing"
    have "map (\<lambda>s. if footprint k (key_hash (take (strlen s) s)) \<subseteq> bitset ws then 1 else 0 :: nat) hello_present = map (\<lambda>_. 1) hello_present"
      using set by (intro map_cong refl) simp
    also have "\<dots> = [1, 1, 1, 1]" by (simp add: hello_present_def)
    finally have "hello_main ndebug rnd flog alloc hp = Some (Done (0, [1, 1, 1, 1], ?miss, hp))"
      using free_with_filter [OF p len] p(2) by (simp only: hello_main_def made Option.bind.simps outcome.case prod.case
        if_False run found)
    moreover have "length ?miss = 3" and "set ?miss \<subseteq> {0, 1}" by (auto simp: hello_missing_def)
    ultimately show ?thesis by blast
  qed
qed

theorem hello_finds_all_witness:
  "\<exists>code present missing. hello_main False Fin (\<lambda>_. Fin (- 5)) once Map.empty = Some (Done (code, present, missing, Map.empty)) \<and>
     0 \<notin> set present"
proof -
  have "log_value (\<lambda>_. Fin (- 5)) (1 / 100) (- 5)" by (simp add: log_value_def)
  from hello_finds_all [OF once_ok rounds_with_exact refl this, of False Map.empty] show ?thesis
    by (elim disjE exE conjE) auto
qed

end
