(* ===== verification/Test_Driver.thy ===== *)
theory Test_Driver
  imports Fuzz_Harness Fuse_Alloc
begin

text \<open>
  The native test driver, \<open>test/test_quickbloom.c\<close>. A test passes with a heap or fails with the
  message of its \<open>ASSERT\<close> (up to the numbers in it), which ends the program. What the tests print
  is left out. The arguments
  that are not the program's: \<open>alloc\<close> answers the library's allocations, \<open>mal i\<close> the driver's own
  \<open>malloc\<close> number \<open>i\<close>, \<open>rnd\<close> and \<open>flog\<close> are the rounding and the logarithm of \<open>Qb_Estimate\<close>. The
  driver's arrays are lists of keys; each test seeds the generator before it draws from it, so the
  generator's state is not handed from test to test. The theorem says which of the assertions can fail.
\<close>

section \<open>Definitions\<close>

datatype 'a verdict = Failed string | Passed 'a

definition ASSERT :: "bool \<Rightarrow> string \<Rightarrow> unit verdict option" where
  "ASSERT c msg = Some (if c then Passed () else Failed msg)"

definition and_then :: "'a verdict option \<Rightarrow> ('a \<Rightarrow> 'b verdict option) \<Rightarrow> 'b verdict option" where
  "and_then v f = do { r \<leftarrow> v; (case r of Failed m \<Rightarrow> Some (Failed m) | Passed x \<Rightarrow> f x) }"

text \<open>A failed \<open>assert\<close> in the library.\<close>

definition checked :: "'a outcome option \<Rightarrow> 'a verdict option" where
  "checked v = do { r \<leftarrow> v; (case r of Aborted \<Rightarrow> Some (Failed ''abort'') | Done x \<Rightarrow> Some (Passed x)) }"

text \<open>The generator: its two words, and a draw.\<close>

type_synonym pcg = "u64 \<times> u64"

definition pcg_next :: "pcg \<Rightarrow> u64 \<times> pcg" where
  "pcg_next st =
     (let x = fst st; y = snd st;
          x = x XOR push_bit 23 x;
          z = x XOR y XOR drop_bit 17 x XOR drop_bit 26 y
      in (z + y, (y, z)))"

definition pcg_seed :: "u64 \<Rightarrow> pcg" where
  "pcg_seed s = (s, s XOR 0xDEADBEEF)"

text \<open>The \<open>len\<close> bytes it writes.\<close>

fun fill_random :: "nat \<Rightarrow> pcg \<Rightarrow> u8 list \<times> pcg" where
  "fill_random len st =
     (if 8 \<le> len then
        let (v, st) = pcg_next st; (rest, st) = fill_random (len - 8) st in (le_bytes 8 v @ rest, st)
      else if 0 < len then let (v, st) = pcg_next st in (take len (le_bytes 8 v), st)
      else ([], st))"

declare fill_random.simps [simp del]

definition mark_miss :: "u8 list \<Rightarrow> u8 list" where
  "mark_miss buf = buf[0 := buf ! 0 OR 0x80]"

definition N_INSERT :: nat where
  "N_INSERT = 50000"

definition N_QUERY :: nat where
  "N_QUERY = 50000"

text \<open>The bodies of the loops that fill a key, for the index and the generator.\<close>

definition key_16 :: "nat \<Rightarrow> pcg \<Rightarrow> u8 list \<times> pcg" where
  "key_16 i st = (let (k, st) = fill_random 16 st in (k[0 := k ! 0 AND 0x7f], st))"

definition key_miss :: "nat \<Rightarrow> pcg \<Rightarrow> u8 list \<times> pcg" where
  "key_miss i st = (let (k, st) = fill_random 16 st in (mark_miss k, st))"

definition key_varlen :: "nat \<Rightarrow> pcg \<Rightarrow> u8 list \<times> pcg" where
  "key_varlen i st = (let (k, st) = fill_random (1 + i mod 64) st in (k[0 := k ! 0 AND 0x7f], st))"

definition key_counter :: "nat \<Rightarrow> pcg \<Rightarrow> u8 list \<times> pcg" where
  "key_counter i st = (le_bytes 8 (of_nat i :: u64) @ replicate 8 0, st)"

definition key_ascii :: "nat \<Rightarrow> pcg \<Rightarrow> u8 list \<times> pcg" where
  "key_ascii i st =
     ((map (\<lambda>j. 0x41 + of_nat (j mod 16)) [0..<16])
        [0 := of_nat (i mod 26 + 0x41), 1 := of_nat (i div 26) AND 0x7f], st)"

definition key_uuid :: "nat \<Rightarrow> pcg \<Rightarrow> u8 list \<times> pcg" where
  "key_uuid i st =
     (let (k, st) = fill_random 16 st
      in (k[6 := 0x40 OR (k ! 6 AND 0x0f), 8 := 0x80 OR (k ! 8 AND 0x3f)], st))"

definition key_far :: "nat \<Rightarrow> pcg \<Rightarrow> u8 list \<times> pcg" where
  "key_far i st = (le_bytes 8 (of_nat i + push_bit 40 1 :: u64) @ replicate 8 0, st)"

text \<open>The loops that fill and insert, that check what was inserted, and that count hits.\<close>

fun insert_keys ::
  "(nat \<Rightarrow> pcg \<Rightarrow> u8 list \<times> pcg) \<Rightarrow> addr \<Rightarrow> nat list \<Rightarrow> pcg \<Rightarrow> qb_heap \<Rightarrow> (u8 list list \<times> pcg \<times> qb_heap) option" where
  "insert_keys key f [] st hp = Some ([], st, hp)"
| "insert_keys key f (i # is) st hp =
     (let (k, st) = key i st
      in do {
        hp \<leftarrow> qb_insert f k (length k) hp;
        (ks, st, hp) \<leftarrow> insert_keys key f is st hp;
        Some (k # ks, st, hp) })"

fun insert_hashes :: "addr \<Rightarrow> nat \<Rightarrow> pcg \<Rightarrow> qb_heap \<Rightarrow> (u64 list \<times> qb_heap) option" where
  "insert_hashes f 0 st hp = Some ([], hp)"
| "insert_hashes f (Suc n) st hp =
     (let (h, st) = pcg_next st
      in do {
        hp \<leftarrow> qb_insert_prehash f h hp;
        (hs, hp) \<leftarrow> insert_hashes f n st hp;
        Some (h # hs, hp) })"

fun check_keys :: "addr \<Rightarrow> string \<Rightarrow> u8 list list \<Rightarrow> qb_heap \<Rightarrow> unit verdict option" where
  "check_keys f msg [] hp = Some (Passed ())"
| "check_keys f msg (k # ks) hp = do {
     c \<leftarrow> qb_contains f k (length k) hp;
     and_then (ASSERT (c \<noteq> 0) msg) (\<lambda>_. check_keys f msg ks hp) }"

fun check_hashes :: "addr \<Rightarrow> string \<Rightarrow> u64 list \<Rightarrow> qb_heap \<Rightarrow> unit verdict option" where
  "check_hashes f msg [] hp = Some (Passed ())"
| "check_hashes f msg (h # hs) hp = do {
     c \<leftarrow> qb_contains_prehash f h hp;
     and_then (ASSERT (c \<noteq> 0) msg) (\<lambda>_. check_hashes f msg hs hp) }"

fun count_hits :: "(nat \<Rightarrow> pcg \<Rightarrow> u8 list \<times> pcg) \<Rightarrow> addr \<Rightarrow> nat list \<Rightarrow> pcg \<Rightarrow> qb_heap \<Rightarrow> nat option" where
  "count_hits key f [] st hp = Some 0"
| "count_hits key f (i # is) st hp =
     (let (k, st) = key i st
      in do {
        c \<leftarrow> qb_contains f k (length k) hp;
        n \<leftarrow> count_hits key f is st hp;
        Some (n + (if c \<noteq> 0 then 1 else 0)) })"

definition make_filter :: "allocator \<Rightarrow> size_t \<Rightarrow> qb_heap \<Rightarrow> (addr \<times> qb_heap) option" where
  "make_filter alloc nbits hp = qb_new (fst (alloc hp)) (snd (alloc hp)) nbits hp"

definition below_ceiling :: "(real \<Rightarrow> dbl) \<Rightarrow> nat \<Rightarrow> nat \<Rightarrow> bool" where
  "below_ceiling rnd fps n = dlt (ddiv_pos rnd (rnd (real fps)) (real n)) (rnd (5 / 100))"

definition finish :: "addr \<Rightarrow> qb_heap \<Rightarrow> qb_heap verdict option" where
  "finish f hp = map_option Passed (qb_free f hp)"

definition test_free_null :: "qb_heap \<Rightarrow> qb_heap verdict option" where
  "test_free_null hp = finish NULL hp"

definition test_new_zero :: "allocator \<Rightarrow> qb_heap \<Rightarrow> qb_heap verdict option" where
  "test_new_zero alloc hp = do {
     (f, hp) \<leftarrow> make_filter alloc 0 hp;
     and_then (ASSERT (f \<noteq> NULL) ''qb_new(0) returned NULL'') (\<lambda>_. do {
       let key = replicate 16 0;
       hp \<leftarrow> qb_insert f key 16 hp;
       c \<leftarrow> qb_contains f key 16 hp;
       and_then (ASSERT (c \<noteq> 0) ''qb_new(0) contains after insert'') (\<lambda>_. finish f hp) }) }"

definition test_round_trip_16 ::
  "(real \<Rightarrow> dbl) \<Rightarrow> allocator \<Rightarrow> (nat \<Rightarrow> nat \<Rightarrow> u8 list option) \<Rightarrow> qb_heap \<Rightarrow> qb_heap verdict option" where
  "test_round_trip_16 rnd alloc mal hp = do {
     (f, hp) \<leftarrow> make_filter alloc (of_nat (N_INSERT * 16)) hp;
     and_then (ASSERT (f \<noteq> NULL) ''qb_new returned NULL'') (\<lambda>_.
     and_then (ASSERT (mal 0 (N_INSERT * 16) \<noteq> None) ''alloc inserted keys'') (\<lambda>_. do {
       (keys, st, hp) \<leftarrow> insert_keys key_16 f [0..<N_INSERT] (pcg_seed 0xC0FFEE) hp;
       and_then (check_keys f ''false negative'' keys hp) (\<lambda>_. do {
         fps \<leftarrow> count_hits key_miss f [0..<N_QUERY] st hp;
         and_then (ASSERT (below_ceiling rnd fps N_QUERY) ''FP rate too high'') (\<lambda>_. finish f hp) }) })) }"

definition test_round_trip_varlen :: "allocator \<Rightarrow> qb_heap \<Rightarrow> qb_heap verdict option" where
  "test_round_trip_varlen alloc hp = do {
     (f, hp) \<leftarrow> make_filter alloc (of_nat (N_INSERT * 16)) hp;
     and_then (ASSERT (f \<noteq> NULL) ''qb_new returned NULL'') (\<lambda>_. do {
       (keys, st, hp) \<leftarrow> insert_keys key_varlen f [0..<2000] (pcg_seed 0xABCDEF) hp;
       and_then (check_keys f ''varlen false negative'' keys hp) (\<lambda>_. finish f hp) }) }"

definition test_prehash :: "allocator \<Rightarrow> qb_heap \<Rightarrow> qb_heap verdict option" where
  "test_prehash alloc hp = do {
     (f, hp) \<leftarrow> make_filter alloc (10000 * 16) hp;
     and_then (ASSERT (f \<noteq> NULL) ''qb_new'') (\<lambda>_. do {
       (hashes, hp) \<leftarrow> insert_hashes f 1000 (pcg_seed 0xFACEFEED) hp;
       and_then (check_hashes f ''prehash false negative'' hashes hp) (\<lambda>_. finish f hp) }) }"

definition test_round_trip_structured ::
  "bool \<Rightarrow> (real \<Rightarrow> dbl) \<Rightarrow> (dbl \<Rightarrow> dbl) \<Rightarrow> allocator \<Rightarrow> qb_heap \<Rightarrow> qb_heap verdict option" where
  "test_round_trip_structured ndebug rnd flog alloc hp =
     and_then (checked (qb_sized ndebug rnd flog alloc 20000 hp)) (\<lambda>(f, hp).
     and_then (ASSERT (f \<noteq> NULL) ''qb_new'') (\<lambda>_. do {
       (a, st, hp) \<leftarrow> insert_keys key_counter f [0..<5000] (0, 0) hp;
       (b, st, hp) \<leftarrow> insert_keys key_ascii f [0..<5000] st hp;
       (c, st, hp) \<leftarrow> insert_keys key_uuid f [0..<5000] (pcg_seed 0xC0DEC0DE) hp;
       and_then (check_keys f ''structured false negative'' (a @ b @ c) hp) (\<lambda>_. do {
         fps \<leftarrow> count_hits key_far f [0..<5000] st hp;
         and_then (ASSERT (below_ceiling rnd fps 5000) ''structured FP rate too high'') (\<lambda>_. finish f hp) }) }))"

text \<open>One of the calls of \<open>qb_deserialize\<close> that must be refused.\<close>

definition refuse :: "allocator \<Rightarrow> u8 list option \<Rightarrow> size_t \<Rightarrow> string \<Rightarrow> qb_heap \<Rightarrow> qb_heap verdict option" where
  "refuse alloc buf nbytes msg hp = do {
     (g, hp) \<leftarrow> qb_load alloc buf nbytes hp;
     and_then (ASSERT (g = NULL) msg) (\<lambda>_. Some (Passed hp)) }"

definition memcmp_eq :: "u8 list option \<Rightarrow> u8 list option \<Rightarrow> nat \<Rightarrow> bool option" where
  "memcmp_eq a b n = do {
     a \<leftarrow> a;
     b \<leftarrow> b;
     if n \<le> length a \<and> n \<le> length b then Some (take n a = take n b) else None }"

definition refuse_invalid :: "allocator \<Rightarrow> u8 list option \<Rightarrow> qb_heap \<Rightarrow> qb_heap verdict option" where
  "refuse_invalid alloc buf hp =
     and_then (refuse alloc None 32 ''deserialize(NULL) -> NULL'' hp) (\<lambda>hp.
     and_then (refuse alloc buf 0 ''deserialize(0 bytes) -> NULL'' hp) (\<lambda>hp.
     and_then (refuse alloc buf 33 ''deserialize(non-32-multiple) -> NULL'' hp) (\<lambda>hp.
     and_then (refuse alloc buf 96 ''deserialize(3 blocks, non-pow2) -> NULL'' hp) (\<lambda>hp.
     refuse alloc buf (push_bit 40 1) ''deserialize rejects nbytes > QB_DESERIALIZE_MAX_BYTES'' hp))))"

text \<open>\<open>test_serialize_round_trip\<close> in three parts: from the call of \<open>qb_deserialize\<close> on, from the first
  call of \<open>qb_serialized_size\<close> on, and the whole.\<close>

definition reload_image ::
  "bool \<Rightarrow> allocator \<Rightarrow> (nat \<Rightarrow> nat \<Rightarrow> u8 list option) \<Rightarrow> addr \<Rightarrow> u8 list list \<Rightarrow> size_t \<Rightarrow> u8 list option \<Rightarrow> qb_heap \<Rightarrow>
     qb_heap verdict option" where
  "reload_image ndebug alloc mal f keys nbytes buf hp = do {
     (g, hp) \<leftarrow> qb_load alloc buf nbytes hp;
     and_then (ASSERT (g \<noteq> NULL) ''deserialize returned NULL'') (\<lambda>_.
     and_then (checked (qb_serialized_size ndebug g hp)) (\<lambda>n.
     and_then (ASSERT (n = nbytes) ''round-trip serialized_size'') (\<lambda>_.
     and_then (check_keys g ''round-trip false negative'' keys hp) (\<lambda>_.
     and_then (checked (qb_serialize ndebug g (mal 2 (unat nbytes)) hp)) (\<lambda>buf2. do {
       same \<leftarrow> memcmp_eq buf buf2 (unat nbytes);
       and_then (ASSERT same ''byte image differs after round trip'') (\<lambda>_.
       and_then (refuse_invalid alloc buf hp) (\<lambda>hp.
       and_then (finish g hp) (finish f))) }))))) }"

definition check_image ::
  "bool \<Rightarrow> allocator \<Rightarrow> (nat \<Rightarrow> nat \<Rightarrow> u8 list option) \<Rightarrow> addr \<Rightarrow> u8 list list \<Rightarrow> qb_heap \<Rightarrow> qb_heap verdict option" where
  "check_image ndebug alloc mal f keys hp =
     and_then (checked (qb_serialized_size ndebug f hp)) (\<lambda>nbytes.
     and_then (ASSERT (0 < nbytes \<and> nbytes mod 32 = 0) ''serialized_size sanity'') (\<lambda>_.
     and_then (ASSERT (mal 1 (unat nbytes) \<noteq> None) ''alloc serialize buf'') (\<lambda>_.
     and_then (checked (qb_serialize ndebug f (mal 1 (unat nbytes)) hp)) (\<lambda>buf.
     reload_image ndebug alloc mal f keys nbytes buf hp))))"

definition test_serialize_round_trip ::
  "bool \<Rightarrow> allocator \<Rightarrow> (nat \<Rightarrow> nat \<Rightarrow> u8 list option) \<Rightarrow> qb_heap \<Rightarrow> qb_heap verdict option" where
  "test_serialize_round_trip ndebug alloc mal hp = do {
     (f, hp) \<leftarrow> make_filter alloc (of_nat (N_INSERT * 16)) hp;
     and_then (ASSERT (f \<noteq> NULL) ''qb_new'') (\<lambda>_. do {
       (keys, st, hp) \<leftarrow> insert_keys key_16 f [0..<5000] (pcg_seed 0xDEADBEEF) hp;
       check_image ndebug alloc mal f keys hp }) }"

definition estimated ::
  "bool \<Rightarrow> (real \<Rightarrow> dbl) \<Rightarrow> (dbl \<Rightarrow> dbl) \<Rightarrow> size_t \<Rightarrow> dbl \<Rightarrow> size_t verdict option" where
  "estimated ndebug rnd flog n fp = checked (qb_estimate_bits rnd flog ndebug n fp)"

definition test_estimate_bits :: "bool \<Rightarrow> (real \<Rightarrow> dbl) \<Rightarrow> (dbl \<Rightarrow> dbl) \<Rightarrow> unit verdict option" where
  "test_estimate_bits ndebug rnd flog =
     (let est = estimated ndebug rnd flog; p01 = rnd (1 / 100); p001 = rnd (1 / 1000)
      in and_then (est 0 p01) (\<lambda>m.
         and_then (ASSERT (256 \<le> m) ''estimate(0) >= 256'') (\<lambda>_.
         and_then (est 100 p01) (\<lambda>m.
         and_then (ASSERT (256 \<le> m) ''estimate(small) >= 256'') (\<lambda>_.
         and_then (est 1000000 p01) (\<lambda>m.
         and_then (ASSERT (5 * 1000000 \<le> m) ''1% FP: at least 5 bits/key'') (\<lambda>_.
         and_then (ASSERT (m \<le> 20 * 1000000) ''1% FP: at most 20 bits/key'') (\<lambda>_.
         and_then (est 1000000 p001) (\<lambda>a.
         and_then (est 1000000 p01) (\<lambda>b.
         and_then (ASSERT (b < a) ''0.1% FP needs more bits than 1% FP'') (\<lambda>_.
         if \<not> ndebug then Some (Passed ())
         else
           and_then (est 1000 (Fin 0)) (\<lambda>m.
           and_then (ASSERT (0 < m) ''fp=0  doesn't crash'') (\<lambda>_.
           and_then (est 1000 (Fin 1)) (\<lambda>m.
           and_then (ASSERT (0 < m) ''fp=1  doesn't crash'') (\<lambda>_.
           and_then (est 1000 (Fin (- 1))) (\<lambda>m.
           ASSERT (0 < m) ''negative fp doesn't crash''))))))))))))))))"

definition test_main ::
  "bool \<Rightarrow> (real \<Rightarrow> dbl) \<Rightarrow> (dbl \<Rightarrow> dbl) \<Rightarrow> allocator \<Rightarrow> (nat \<Rightarrow> nat \<Rightarrow> u8 list option) \<Rightarrow> qb_heap \<Rightarrow>
     qb_heap verdict option" where
  "test_main ndebug rnd flog alloc mal hp =
     and_then (test_free_null hp) (\<lambda>hp.
     and_then (test_new_zero alloc hp) (\<lambda>hp.
     and_then (test_round_trip_16 rnd alloc mal hp) (\<lambda>hp.
     and_then (test_round_trip_varlen alloc hp) (\<lambda>hp.
     and_then (test_round_trip_structured ndebug rnd flog alloc hp) (\<lambda>hp.
     and_then (test_prehash alloc hp) (\<lambda>hp.
     and_then (test_serialize_round_trip ndebug alloc mal hp) (\<lambda>hp.
     and_then (test_estimate_bits ndebug rnd flog) (\<lambda>_. Some (Passed hp)))))))))"

section \<open>Verdicts\<close>

text \<open>A test passes with the heap it was given, or fails at one of the assertions on a false positive
  rate, or, unless every allocation succeeds, at one of those on an allocation.\<close>

definition rate_failures :: "string set" where
  "rate_failures = {''FP rate too high'', ''structured FP rate too high''}"

definition alloc_failures :: "string set" where
  "alloc_failures = {''qb_new(0) returned NULL'', ''qb_new returned NULL'', ''alloc inserted keys'', ''qb_new'',
     ''alloc serialize buf'', ''deserialize returned NULL''}"

definition all_succeed :: "allocator \<Rightarrow> (nat \<Rightarrow> nat \<Rightarrow> u8 list option) \<Rightarrow> bool" where
  "all_succeed alloc mal \<longleftrightarrow> (\<forall>hp. fst (alloc hp) \<noteq> NULL \<and> snd (alloc hp) \<noteq> NULL) \<and> (\<forall>i n. mal i n \<noteq> None)"

definition verdict_ok :: "bool \<Rightarrow> 'a \<Rightarrow> 'a verdict option \<Rightarrow> bool" where
  "verdict_ok sure x v \<longleftrightarrow> v = Some (Passed x) \<or>
     (\<exists>m. v = Some (Failed m) \<and> (m \<in> rate_failures \<or> m \<in> alloc_failures \<and> \<not> sure))"

lemma and_then_simps [simp]:
  "and_then (Some (Passed x)) f = f x" "and_then (Some (Failed m)) f = Some (Failed m)" "and_then None f = None"
  by (simp_all add: and_then_def)

lemma ASSERT_True [simp]: "ASSERT True msg = Some (Passed ())"
  by (simp add: ASSERT_def)

lemma checked_Done [simp]: "checked (Some (Done x)) = Some (Passed x)"
  by (simp add: checked_def)

lemma verdict_then: "verdict_ok sure x v \<Longrightarrow> verdict_ok sure y (f x) \<Longrightarrow> verdict_ok sure y (and_then v f)"
  by (auto simp: verdict_ok_def)

lemma verdict_passed [simp]: "verdict_ok sure x (Some (Passed x))"
  by (simp add: verdict_ok_def)

lemma verdict_rate: "msg \<in> rate_failures \<Longrightarrow> verdict_ok sure () (ASSERT c msg)"
  by (simp add: verdict_ok_def ASSERT_def)

lemma verdict_alloc: "msg \<in> alloc_failures \<Longrightarrow> \<not> sure \<or> c \<Longrightarrow> verdict_ok sure () (ASSERT c msg)"
  by (auto simp: verdict_ok_def ASSERT_def)

section \<open>The loops on a live filter\<close>

lemma insert_whole:
  "filter_at hp p k b ws \<Longrightarrow> qb_insert p key (length key) hp = Some (hp(bits b \<mapsto> Words (set_hash k (key_hash key) ws)))"
  by (simp add: insert_via_prehash bloom_hash_eq insert_prehash_eq del: fun_upd_apply)

lemma contains_whole:
  "filter_at hp p k b ws \<Longrightarrow> qb_contains p key (length key) hp = Some (if footprint k (key_hash key) \<subseteq> bitset ws then 1 else 0)"
  by (simp add: contains_via_prehash bloom_hash_eq contains_prehash_eq)

lemma same_words: "filter_at hp p k b ws \<Longrightarrow> hp(bits b \<mapsto> Words ws) = hp"
  by (simp add: filter_at_def fun_upd_idem)

lemma insert_keys_ok:
  assumes "filter_at hp p k b ws"
  shows "\<exists>keys st' ws'. insert_keys key p is st hp = Some (keys, st', hp(bits b \<mapsto> Words ws')) \<and> length ws' = length ws \<and>
     bitset ws \<subseteq> bitset ws' \<and> (\<forall>x \<in> set keys. footprint k (key_hash x) \<subseteq> bitset ws')"
  using assms
proof (induction "is" arbitrary: st hp ws)
  case Nil
  then show ?case using same_words by (intro exI [of _ "[]"] exI [of _ st] exI [of _ ws]) simp
next
  case (Cons i "is")
  obtain x st1 where x: "key i st = (x, st1)" by (cases "key i st")
  have len: "length (set_hash k (key_hash x) ws) = length ws" using block_in_bounds [OF Cons.prems] by simp
  from Cons.IH [OF filter_at_update [OF Cons.prems len], of st1] obtain keys st' ws' where
    "insert_keys key p is st1 (hp(bits b \<mapsto> Words (set_hash k (key_hash x) ws))) = Some (keys, st', hp(bits b \<mapsto> Words ws'))"
    "length ws' = length ws" "bitset (set_hash k (key_hash x) ws) \<subseteq> bitset ws'"
    "\<forall>x \<in> set keys. footprint k (key_hash x) \<subseteq> bitset ws'"
    using len by (auto simp del: fun_upd_apply)
  with x insert_whole [OF Cons.prems] bitset_set_hash [OF Cons.prems] show ?case
    by (intro exI [of _ "x # keys"] exI [of _ st'] exI [of _ ws']) (auto simp del: fun_upd_apply)
qed

lemma insert_hashes_ok:
  assumes "filter_at hp p k b ws"
  shows "\<exists>hs ws'. insert_hashes p n st hp = Some (hs, hp(bits b \<mapsto> Words ws')) \<and> length ws' = length ws \<and>
     bitset ws \<subseteq> bitset ws' \<and> (\<forall>h \<in> set hs. footprint k h \<subseteq> bitset ws')"
  using assms
proof (induction n arbitrary: st hp ws)
  case 0
  then show ?case using same_words by (intro exI [of _ "[]"] exI [of _ ws]) simp
next
  case (Suc n)
  obtain h st1 where h: "pcg_next st = (h, st1)" by (cases "pcg_next st")
  have len: "length (set_hash k h ws) = length ws" using block_in_bounds [OF Suc.prems] by simp
  from Suc.IH [OF filter_at_update [OF Suc.prems len], of st1] obtain hs ws' where
    "insert_hashes p n st1 (hp(bits b \<mapsto> Words (set_hash k h ws))) = Some (hs, hp(bits b \<mapsto> Words ws'))"
    "length ws' = length ws" "bitset (set_hash k h ws) \<subseteq> bitset ws'" "\<forall>h \<in> set hs. footprint k h \<subseteq> bitset ws'"
    using len by (auto simp del: fun_upd_apply)
  with h insert_prehash_eq [OF Suc.prems] bitset_set_hash [OF Suc.prems] show ?case
    by (intro exI [of _ "h # hs"] exI [of _ ws']) (auto simp del: fun_upd_apply)
qed

lemma check_keys_ok:
  "filter_at hp p k b ws \<Longrightarrow> \<forall>x \<in> set keys. footprint k (key_hash x) \<subseteq> bitset ws \<Longrightarrow>
     check_keys p msg keys hp = Some (Passed ())"
  by (induction keys) (simp_all add: contains_whole)

lemma check_hashes_ok:
  "filter_at hp p k b ws \<Longrightarrow> \<forall>h \<in> set hs. footprint k h \<subseteq> bitset ws \<Longrightarrow>
     check_hashes p msg hs hp = Some (Passed ())"
  by (induction hs) (simp_all add: contains_prehash_eq)

lemma count_hits_ok: "filter_at hp p k b ws \<Longrightarrow> \<exists>n. count_hits key p is st hp = Some n"
proof (induction "is" arbitrary: st)
  case (Cons i "is")
  obtain x st1 where "key i st = (x, st1)" by (cases "key i st")
  with Cons.IH [OF Cons.prems, of st1] contains_whole [OF Cons.prems, of x] show ?case by auto
qed simp

text \<open>The same loops on a filter fresh from an allocation: all that changes are its bits.\<close>

definition fresh_filter :: "addr \<Rightarrow> addr \<Rightarrow> nat \<Rightarrow> qb_heap \<Rightarrow> bool" where
  "fresh_filter p mem k hp \<longleftrightarrow> answers_ok hp p mem \<and> p \<noteq> NULL \<and> mem \<noteq> NULL \<and> k \<le> 31"

lemma fresh_at: "fresh_filter p mem k hp \<Longrightarrow> length ws = 8 * 2 ^ k \<Longrightarrow>
    filter_at (with_filter p mem k ws hp) p k (filter_struct mem k) ws"
  by (simp add: fresh_filter_def filter_at_with_filter)

lemma fresh_update: "fresh_filter p mem k hp \<Longrightarrow>
    (with_filter p mem k ws hp)(mem \<mapsto> Words ws') = with_filter p mem k ws' hp"
  by (rule with_filter_update) (auto simp: fresh_filter_def answers_ok_def)

lemma fresh_finish: "fresh_filter p mem k hp \<Longrightarrow> length ws = 8 * 2 ^ k \<Longrightarrow>
    finish p (with_filter p mem k ws hp) = Some (Passed hp)"
  by (simp add: finish_def fresh_filter_def free_with_filter)

lemma fresh_inserts:
  assumes "fresh_filter p mem k hp" and "length ws = 8 * 2 ^ k"
  obtains keys st' ws' where
    "insert_keys key p is st (with_filter p mem k ws hp) = Some (keys, st', with_filter p mem k ws' hp)"
    "length ws' = 8 * 2 ^ k" "bitset ws \<subseteq> bitset ws'" "\<forall>x \<in> set keys. footprint k (key_hash x) \<subseteq> bitset ws'"
  using insert_keys_ok [OF fresh_at [OF assms], of key "is" st] assms by (auto simp: fresh_update)

lemma make_filter_cases:
  assumes "allocator_ok alloc" and "request nbits \<le> QB_MAX_NBLOCKS"
  obtains (null) "make_filter alloc nbits hp = Some (NULL, hp)" "\<not> all_succeed alloc mal"
  | (made) p mem k where "fresh_filter p mem k hp"
      "make_filter alloc nbits hp = Some (p, with_filter p mem k (replicate (8 * 2 ^ k) 0) hp)" "p \<noteq> NULL"
        "unat (request nbits) \<le> 2 ^ k" "\<forall>i < k. 2 ^ i < unat (request nbits)"
proof -
  have ans: "answers_ok hp (fst (alloc hp)) (snd (alloc hp))" using assms(1) by (simp add: allocator_ok_def)
  from qb_new_eq [OF assms(2) ans] obtain k where k: "k \<le> 31" "unat (request nbits) \<le> 2 ^ k"
      "\<forall>i < k. 2 ^ i < unat (request nbits)" and
    new: "make_filter alloc nbits hp =
       Some (if fst (alloc hp) = NULL \<or> snd (alloc hp) = NULL then (NULL, hp)
             else (fst (alloc hp), with_filter (fst (alloc hp)) (snd (alloc hp)) k (replicate (8 * 2 ^ k) 0) hp))"
    unfolding make_filter_def by blast
  show thesis
  proof (cases "fst (alloc hp) = NULL \<or> snd (alloc hp) = NULL")
    case True
    then show thesis using new by (intro null) (auto simp: all_succeed_def)
  next
    case False
    then show thesis using new k ans by (intro made [of "fst (alloc hp)" "snd (alloc hp)" k]) (auto simp: fresh_filter_def)
  qed
qed

section \<open>The tests\<close>

lemma free_null_ok: "test_free_null hp = Some (Passed hp)"
  by (simp add: test_free_null_def finish_def qb_free_def)

lemma small_request: "unat nbits \<le> 2 ^ 20 \<Longrightarrow> request nbits \<le> QB_MAX_NBLOCKS"
  by (simp add: word_le_nat_alt unat_request blocks_needed_def QB_MAX_NBLOCKS_def)

lemma driver_request: "unat (of_nat (N_INSERT * 16) :: size_t) = 800000"
  by (simp add: N_INSERT_def)

text \<open>How every test begins.\<close>

lemma with_new_filter:
  assumes "allocator_ok alloc" and "unat nbits \<le> 2 ^ 20" and "msg \<in> alloc_failures"
    and "\<And>p mem k. fresh_filter p mem k hp \<Longrightarrow> p \<noteq> NULL \<Longrightarrow> k \<le> 25 \<Longrightarrow>
      verdict_ok (all_succeed alloc mal) hp (body p (with_filter p mem k (replicate (8 * 2 ^ k) 0) hp))"
  shows "verdict_ok (all_succeed alloc mal) hp (do {
     (f, hp) \<leftarrow> make_filter alloc nbits hp;
     and_then (ASSERT (f \<noteq> NULL) msg) (\<lambda>_. body f hp) })"
proof (rule make_filter_cases [OF assms(1) small_request [OF assms(2)], of hp mal])
  assume "make_filter alloc nbits hp = Some (NULL, hp)" "\<not> all_succeed alloc mal"
  then show ?thesis using assms(3) by (simp add: verdict_ok_def ASSERT_def)
next
  fix p mem k
  assume f: "fresh_filter p mem k hp" "p \<noteq> NULL" and k: "\<forall>i < k. 2 ^ i < unat (request nbits)" and
    new: "make_filter alloc nbits hp = Some (p, with_filter p mem k (replicate (8 * 2 ^ k) 0) hp)"
  have "unat (request nbits) \<le> 2 ^ 25" using assms(2) by (simp add: unat_request blocks_needed_def)
  then have "k \<le> 25" using k by (meson leD not_le_imp_less)
  with assms(4) [OF f] new f(2) show ?thesis by simp
qed

lemma new_zero_ok:
  assumes "allocator_ok alloc"
  shows "verdict_ok (all_succeed alloc mal) hp (test_new_zero alloc hp)"
  unfolding test_new_zero_def
proof (rule with_new_filter [OF assms])
  fix p mem k
  assume f: "fresh_filter p mem k hp"
  let ?key = "replicate 16 0 :: u8 list" and ?ws = "replicate (8 * 2 ^ k) 0 :: u32 list"
  let ?ws' = "set_hash k (key_hash ?key) ?ws"
  have len: "length ?ws' = 8 * 2 ^ k" using block_in_bounds [OF fresh_at [OF f, of ?ws]] by simp
  have ins: "qb_insert p ?key 16 (with_filter p mem k ?ws hp) = Some (with_filter p mem k ?ws' hp)"
    using insert_whole [OF fresh_at [OF f], of ?ws ?key] by (simp add: fresh_update [OF f])
  have con: "qb_contains p ?key 16 (with_filter p mem k ?ws' hp) = Some 1"
    using contains_whole [OF fresh_at [OF f len], of ?key] bitset_set_hash [OF fresh_at [OF f, of ?ws], of "key_hash ?key"] by simp
  show "verdict_ok (all_succeed alloc mal) hp (do {
       let key = replicate 16 0;
       hp \<leftarrow> qb_insert p key 16 (with_filter p mem k ?ws hp);
       c \<leftarrow> qb_contains p key 16 hp;
       and_then (ASSERT (c \<noteq> 0) ''qb_new(0) contains after insert'') (\<lambda>_. finish p hp) })"
    by (simp only: Option.bind.simps Let_def ins con not_False_eq_True
      ASSERT_True and_then_simps fresh_finish [OF f len] verdict_passed one_neq_zero)
qed (simp_all add: alloc_failures_def)

lemma fresh_inserted:
  assumes "fresh_filter p mem k hp"
  obtains keys st' ws where
    "insert_keys key p is st (with_filter p mem k (replicate (8 * 2 ^ k) 0) hp) = Some (keys, st', with_filter p mem k ws hp)"
    "length ws = 8 * 2 ^ k" "\<forall>x \<in> set keys. footprint k (key_hash x) \<subseteq> bitset ws"
    "filter_at (with_filter p mem k ws hp) p k (filter_struct mem k) ws"
  using fresh_inserts [OF assms, of "replicate (8 * 2 ^ k) 0"] fresh_at [OF assms] by (metis length_replicate)

lemma rated_ok:
  assumes "fresh_filter p mem k hp" and "length ws = 8 * 2 ^ k" and "msg \<in> rate_failures"
  shows "verdict_ok sure hp (do {
     fps \<leftarrow> count_hits key p is st (with_filter p mem k ws hp);
     and_then (ASSERT (below_ceiling rnd fps n) msg) (\<lambda>_. finish p (with_filter p mem k ws hp)) })"
proof -
  obtain fps where "count_hits key p is st (with_filter p mem k ws hp) = Some fps"
    using count_hits_ok [OF fresh_at [OF assms(1,2)]] by blast
  then show ?thesis by (auto intro!: verdict_then [OF verdict_rate [OF assms(3)]] simp: fresh_finish [OF assms(1,2)])
qed

lemma round_trip_16_ok:
  assumes "allocator_ok alloc"
  shows "verdict_ok (all_succeed alloc mal) hp (test_round_trip_16 rnd alloc mal hp)"
  unfolding test_round_trip_16_def
proof (rule with_new_filter [OF assms])
  fix p mem k
  assume f: "fresh_filter p mem k hp"
  let ?hp = "with_filter p mem k (replicate (8 * 2 ^ k) 0) hp"
  obtain keys st ws where
    run: "insert_keys key_16 p [0..<N_INSERT] (pcg_seed 0xC0FFEE) ?hp = Some (keys, st, with_filter p mem k ws hp)" and
    ws: "length ws = 8 * 2 ^ k" and set: "\<forall>x \<in> set keys. footprint k (key_hash x) \<subseteq> bitset ws" and
    at: "filter_at (with_filter p mem k ws hp) p k (filter_struct mem k) ws"
    by (rule fresh_inserted [OF f])
  have "\<not> all_succeed alloc mal \<or> mal 0 (N_INSERT * 16) \<noteq> None" unfolding all_succeed_def by blast
  then have buf: "verdict_ok (all_succeed alloc mal) () (ASSERT (mal 0 (N_INSERT * 16) \<noteq> None) ''alloc inserted keys'')"
    by (intro verdict_alloc) (simp_all add: alloc_failures_def)
  show "verdict_ok (all_succeed alloc mal) hp
     (and_then (ASSERT (mal 0 (N_INSERT * 16) \<noteq> None) ''alloc inserted keys'') (\<lambda>_. do {
       (keys, st, hp) \<leftarrow> insert_keys key_16 p [0..<N_INSERT] (pcg_seed 0xC0FFEE) ?hp;
       and_then (check_keys p ''false negative'' keys hp) (\<lambda>_. do {
         fps \<leftarrow> count_hits key_miss p [0..<N_QUERY] st hp;
         and_then (ASSERT (below_ceiling rnd fps N_QUERY) ''FP rate too high'') (\<lambda>_. finish p hp) }) }))"
    by (rule verdict_then [OF buf], simp only: run Option.bind.simps prod.case check_keys_ok [OF at set] and_then_simps,
      rule rated_ok [OF f ws], simp add: rate_failures_def)
qed (simp only: driver_request, simp, simp add: alloc_failures_def)

lemma round_trip_varlen_ok:
  assumes "allocator_ok alloc"
  shows "verdict_ok (all_succeed alloc mal) hp (test_round_trip_varlen alloc hp)"
  unfolding test_round_trip_varlen_def
proof (rule with_new_filter [OF assms])
  fix p mem k
  assume f: "fresh_filter p mem k hp"
  let ?hp = "with_filter p mem k (replicate (8 * 2 ^ k) 0) hp"
  obtain keys st ws where
    run: "insert_keys key_varlen p [0..<2000] (pcg_seed 0xABCDEF) ?hp = Some (keys, st, with_filter p mem k ws hp)" and
    ws: "length ws = 8 * 2 ^ k" and set: "\<forall>x \<in> set keys. footprint k (key_hash x) \<subseteq> bitset ws" and
    at: "filter_at (with_filter p mem k ws hp) p k (filter_struct mem k) ws"
    by (rule fresh_inserted [OF f])
  show "verdict_ok (all_succeed alloc mal) hp (do {
       (keys, st, hp) \<leftarrow> insert_keys key_varlen p [0..<2000] (pcg_seed 0xABCDEF) ?hp;
       and_then (check_keys p ''varlen false negative'' keys hp) (\<lambda>_. finish p hp) })"
    by (simp only: Option.bind.simps prod.case and_then_simps run check_keys_ok [OF at set]
      fresh_finish [OF f ws] verdict_passed)
qed (simp only: driver_request, simp, simp add: alloc_failures_def)

lemma prehash_ok:
  assumes "allocator_ok alloc"
  shows "verdict_ok (all_succeed alloc mal) hp (test_prehash alloc hp)"
  unfolding test_prehash_def
proof (rule with_new_filter [OF assms])
  fix p mem k
  assume f: "fresh_filter p mem k hp"
  let ?ws = "replicate (8 * 2 ^ k) 0 :: u32 list"
  obtain hs ws where run: "insert_hashes p 1000 (pcg_seed 0xFACEFEED) (with_filter p mem k ?ws hp) = Some (hs, with_filter p mem k ws hp)"
    and ws: "length ws = 8 * 2 ^ k" and set: "\<forall>h \<in> set hs. footprint k h \<subseteq> bitset ws"
    using insert_hashes_ok [OF fresh_at [OF f, of ?ws], of 1000 "pcg_seed 0xFACEFEED"] by (auto simp: fresh_update [OF f])
  show "verdict_ok (all_succeed alloc mal) hp (do {
       (hashes, hp) \<leftarrow> insert_hashes p 1000 (pcg_seed 0xFACEFEED) (with_filter p mem k ?ws hp);
       and_then (check_hashes p ''prehash false negative'' hashes hp) (\<lambda>_. finish p hp) })"
    by (simp only: Option.bind.simps prod.case and_then_simps run check_hashes_ok [OF fresh_at [OF f ws] set]
      fresh_finish [OF f ws] verdict_passed)
qed (simp_all add: alloc_failures_def)

section \<open>The sizes\<close>

text \<open>What the driver's sizes ask of the C library and the floating-point unit: the logarithm is right
  within a tenth, and a rate is rounded with a small relative error.\<close>

definition log_near :: "(dbl \<Rightarrow> dbl) \<Rightarrow> bool" where
  "log_near flog \<longleftrightarrow> (\<forall>x. 0 < x \<and> x < 1 \<longrightarrow> (\<exists>l. flog (Fin x) = Fin l \<and> \<bar>l - ln x\<bar> \<le> 1 / 10))"

definition rounds_near :: "(real \<Rightarrow> dbl) \<Rightarrow> bool" where
  "rounds_near rnd \<longleftrightarrow> (\<forall>x. 1 / 10000 \<le> x \<and> x \<le> 1 \<longrightarrow> (\<exists>y. rnd x = Fin y \<and> \<bar>y - x\<bar> \<le> x / 2 ^ 50))"

lemma ln2_lower: "5 / 8 \<le> ln (2 :: real)"
proof -
  have "exp (1 :: real) \<le> 3" by (rule exp_le)
  then have "exp (1 :: real) ^ 5 \<le> 3 ^ 5" by (rule power_mono) simp
  moreover have "exp (5 / 8 :: real) ^ 8 = exp 1 ^ 5" by (simp flip: exp_of_nat_mult)
  ultimately have "exp (5 / 8 :: real) ^ 8 \<le> 2 ^ 8" by simp
  then have "exp (5 / 8 :: real) \<le> 2" by (rule power_le_imp_le_base [where n = 7, unfolded Suc_eq_plus1, simplified]) simp
  then show ?thesis by (simp only: ln_ge_iff zero_less_numeral)
qed

lemma ln_between:
  assumes "1 / 2 ^ a \<le> x" and "x \<le> 1 / 2 ^ b"
  shows "- real a * (3 / 4) \<le> ln x" and "ln x \<le> - real b * (5 / 8)"
proof -
  have pos: "0 < x" using assms(1) by (rule less_le_trans [rotated]) simp
  have pow: "ln (1 / 2 ^ n :: real) = - real n * ln 2" for n by (simp add: ln_div ln_realpow)
  have "- real a * (3 / 4) \<le> - real a * ln 2" using ln2_bounds by (intro mult_left_mono_neg) simp_all
  also have "\<dots> \<le> ln x" using assms(1) pos unfolding pow [symmetric] by (intro ln_mono) simp_all
  finally show "- real a * (3 / 4) \<le> ln x" .
  have "ln x \<le> - real b * ln 2" using assms(2) pos unfolding pow [symmetric] by (intro ln_mono) simp_all
  also have "\<dots> \<le> - real b * (5 / 8)" using ln2_lower by (intro mult_left_mono_neg) simp_all
  finally show "ln x \<le> - real b * (5 / 8)" .
qed

lemma rate_log:
  assumes "rounds_near rnd" and "log_near flog"
    and "1 / 2 ^ a < q - q / 2 ^ 50" and "q + q / 2 ^ 50 < 1 / 2 ^ b" and "1 / 10000 \<le> q" and "0 < b" and "b \<le> 10" and "a \<le> 10"
  shows "\<exists>x l. rnd q = Fin x \<and> log_value flog x l \<and> - real a * (3 / 4) - 1 / 10 \<le> l \<and> l \<le> - real b * (5 / 8) + 1 / 10"
proof -
  have "(1 / 2 ^ b :: real) \<le> 1" by simp
  moreover have "0 < q / 2 ^ 50" using assms(5) by simp
  ultimately have "q \<le> 1" using assms(4) by linarith
  then obtain x where x: "rnd q = Fin x" "\<bar>x - q\<bar> \<le> q / 2 ^ 50"
    using assms(1,5) unfolding rounds_near_def by blast
  then have b: "1 / 2 ^ a \<le> x" "x \<le> 1 / 2 ^ b" using assms(3,4) by linarith+
  have x01: "0 < x" "x < 1"
  proof -
    show "0 < x" using b(1) by (rule less_le_trans [rotated]) simp
    have "(1 / 2 ^ b :: real) < 1" using assms(6) by simp
    with b(2) show "x < 1" by linarith
  qed
  then obtain l where l: "flog (Fin x) = Fin l" "\<bar>l - ln x\<bar> \<le> 1 / 10" using assms(2) unfolding log_near_def by blast
  note n = ln_between [OF b]
  have lo: "- real a * (3 / 4) - 1 / 10 \<le> l" and hi: "l \<le> - real b * (5 / 8) + 1 / 10" using l(2) n by linarith+
  have "real a \<le> 10" "1 \<le> real b" using assms(6,8) by linarith+
  then have "- 746 \<le> l" "l \<le> 0" using lo hi by linarith+
  with x01 l(1) have "log_value flog x l" by (simp add: log_value_def)
  with x(1) lo hi show ?thesis by blast
qed

lemma rate_01:
  assumes "rounds_near rnd" and "log_near flog"
  obtains x l where "rnd (1 / 100) = Fin x" "log_value flog x l" "- 535 / 100 \<le> l" "l \<le> - 365 / 100"
proof -
  from rate_log [OF assms, of 7 "1 / 100" 6] obtain x l where "rnd (1 / 100) = Fin x" "log_value flog x l"
    "- real 7 * (3 / 4) - 1 / 10 \<le> l" "l \<le> - real 6 * (5 / 8) + 1 / 10" by force
  then show thesis by (intro that [of x l]) simp_all
qed

lemma rate_001:
  assumes "rounds_near rnd" and "log_near flog"
  obtains x l where "rnd (1 / 1000) = Fin x" "log_value flog x l" "- 76 / 10 \<le> l" "l \<le> - 5525 / 1000"
proof -
  from rate_log [OF assms, of 10 "1 / 1000" 9] obtain x l where "rnd (1 / 1000) = Fin x" "log_value flog x l"
    "- real 10 * (3 / 4) - 1 / 10 \<le> l" "l \<le> - real 9 * (5 / 8) + 1 / 10" by force
  then show thesis by (intro that [of x l]) simp_all
qed

lemma budget_ge:
  assumes rnd: "rounds_with rnd r" and "real a \<le> - real n * l" and "real c \<le> real a / LN2_SQ" and "a \<le> 2 ^ 53" and "c \<le> 2 ^ 53"
  shows "real c \<le> bit_budget r l n"
proof -
  have "real a \<le> r (- real n * l)" by (rule round_nat_ge [OF rnd assms(4,2)])
  then have "real a / LN2_SQ \<le> r (- real n * l) / LN2_SQ" using LN2_SQ_bounds by (intro divide_right_mono) simp_all
  then have "real c \<le> r (r (- real n * l) / LN2_SQ)" using assms(3) by (intro round_nat_ge [OF rnd assms(5)]) linarith
  then show ?thesis unfolding bit_budget_def by (intro round_nat_ge [OF rnd assms(5)]) linarith
qed

lemma budget_le:
  assumes rnd: "rounds_with rnd r" and "- real n * l \<le> real a" and "real a / LN2_SQ \<le> real c" and "a \<le> 2 ^ 53" and "256 \<le> c" and "c < 2 ^ 53"
  shows "bit_budget r l n \<le> real (c + 1)"
proof -
  have "r (- real n * l) \<le> real a" by (rule round_nat_le [OF rnd assms(4,2)])
  then have "r (- real n * l) / LN2_SQ \<le> real a / LN2_SQ" using LN2_SQ_bounds by (intro divide_right_mono) simp_all
  then have "r (r (- real n * l) / LN2_SQ) \<le> real c" using assms(3,6) by (intro round_nat_le [OF rnd]) linarith+
  then show ?thesis unfolding bit_budget_def using assms(5,6) by (intro round_nat_le [OF rnd]) (simp_all add: max_def)
qed

text \<open>The estimates the driver asks for, and how they lie.\<close>

lemma estimate_between:
  assumes rnd: "rounds_with rnd r" and log: "log_value flog x l" and n: "n \<noteq> 0" "unat n \<le> 2 ^ 51"
    and ge: "real a \<le> - real (unat n) * l" "real c \<le> real a / LN2_SQ" "a \<le> 2 ^ 53" "c \<le> 2 ^ 53"
    and le: "- real (unat n) * l \<le> real b" "real b / LN2_SQ \<le> real d" "b \<le> 2 ^ 53" "256 \<le> d" "d < 2 ^ 53"
  obtains m where "qb_estimate_bits rnd flog ndebug n (Fin x) = Some (Done m)" "c \<le> unat m" "unat m \<le> d + 1" "256 \<le> unat m"
proof -
  let ?m = "of_int (floor (bit_budget r l (unat n))) :: size_t"
  note w = budget_word [OF rnd log n(2)]
  have "real c \<le> bit_budget r l (unat n)" by (rule budget_ge [OF rnd ge])
  then have "c \<le> nat (floor (bit_budget r l (unat n)))" by (simp add: le_nat_floor)
  moreover have "bit_budget r l (unat n) \<le> real (d + 1)" by (rule budget_le [OF rnd le])
  then have "nat (floor (bit_budget r l (unat n))) \<le> d + 1" by linarith
  ultimately show thesis using that [of ?m] estimate_eq [OF rnd log n] w by simp
qed

lemma estimate_0: "qb_estimate_bits rnd flog ndebug 0 fp = Some (Done 256)"
  by (simp add: qb_estimate_bits_def)

lemma estimate_invalid: "qb_estimate_bits rnd flog True 1000 (Fin 0) = Some (Done 32000)"
  "qb_estimate_bits rnd flog True 1000 (Fin 1) = Some (Done 32000)"
  "qb_estimate_bits rnd flog True 1000 (Fin (- 1)) = Some (Done 32000)"
  by (simp_all add: qb_estimate_bits_def)

lemma estimates_01:
  assumes "rounds_with rnd r" and "rounds_near rnd" and "log_near flog"
  obtains m1 m2 m3 where "qb_estimate_bits rnd flog ndebug 100 (rnd (1 / 100)) = Some (Done m1)" "256 \<le> unat m1"
    "qb_estimate_bits rnd flog ndebug 20000 (rnd (1 / 100)) = Some (Done m2)" "unat m2 \<le> 2 ^ 20"
    "qb_estimate_bits rnd flog ndebug 1000000 (rnd (1 / 100)) = Some (Done m3)" "5000000 \<le> unat m3" "unat m3 \<le> 11200001"
proof -
  obtain x l where x: "rnd (1 / 100) = Fin x" "log_value flog x l" "- 535 / 100 \<le> l" "l \<le> - 365 / 100"
    by (rule rate_01 [OF assms(2,3)])
  obtain m1 where m1: "qb_estimate_bits rnd flog ndebug 100 (Fin x) = Some (Done m1)" "256 \<le> unat m1"
    by (rule estimate_between [OF assms(1) x(2), of 100 0 0 535 1200 ndebug]) (use x(3,4) in \<open>simp_all add: LN2_SQ_def\<close>)
  obtain m2 where m2: "qb_estimate_bits rnd flog ndebug 20000 (Fin x) = Some (Done m2)" "unat m2 \<le> 230000 + 1"
    by (rule estimate_between [OF assms(1) x(2), of 20000 0 0 107000 230000 ndebug]) (use x(3,4) in \<open>simp_all add: LN2_SQ_def\<close>)
  obtain m3 where m3: "qb_estimate_bits rnd flog ndebug 1000000 (Fin x) = Some (Done m3)" "7500000 \<le> unat m3"
      "unat m3 \<le> 11200000 + 1"
    by (rule estimate_between [OF assms(1) x(2), of 1000000 3650000 7500000 5350000 11200000 ndebug])
      (use x(3,4) in \<open>simp_all add: LN2_SQ_def\<close>)
  show thesis by (rule that [of m1 m2 m3]) (use m1 m2 m3 x(1) in simp_all)
qed

lemma estimate_001:
  assumes "rounds_with rnd r" and "rounds_near rnd" and "log_near flog"
  obtains m where "qb_estimate_bits rnd flog ndebug 1000000 (rnd (1 / 1000)) = Some (Done m)" "11400000 \<le> unat m"
proof -
  obtain x l where x: "rnd (1 / 1000) = Fin x" "log_value flog x l" "- 76 / 10 \<le> l" "l \<le> - 5525 / 1000"
    by (rule rate_001 [OF assms(2,3)])
  obtain m where m: "qb_estimate_bits rnd flog ndebug 1000000 (Fin x) = Some (Done m)" "11400000 \<le> unat m"
    by (rule estimate_between [OF assms(1) x(2), of 1000000 5525000 11400000 7600000 16000000 ndebug])
      (use x(3,4) in \<open>simp_all add: LN2_SQ_def\<close>)
  show thesis by (rule that [of m]) (use m x(1) in simp_all)
qed

lemma estimate_bits_ok:
  assumes "rounds_with rnd r" and "rounds_near rnd" and "log_near flog"
  shows "test_estimate_bits ndebug rnd flog = Some (Passed ())"
proof -
  obtain m1 m2 m3 where m: "qb_estimate_bits rnd flog ndebug 100 (rnd (1 / 100)) = Some (Done m1)" "256 \<le> unat m1"
    "qb_estimate_bits rnd flog ndebug 1000000 (rnd (1 / 100)) = Some (Done m3)" "5000000 \<le> unat m3" "unat m3 \<le> 11200001"
    by (rule estimates_01 [OF assms])
  obtain m4 where m4: "qb_estimate_bits rnd flog ndebug 1000000 (rnd (1 / 1000)) = Some (Done m4)" "11400000 \<le> unat m4"
    by (rule estimate_001 [OF assms])
  have "256 \<le> m1" "5 * 1000000 \<le> m3" "m3 \<le> 20 * 1000000" "m3 < m4"
    using m(2,4,5) m4(2) by (simp_all add: word_le_nat_alt word_less_nat_alt)
  then show ?thesis
    using m(1,3) m4(1) by (cases ndebug) (simp_all add: test_estimate_bits_def estimated_def estimate_0 estimate_invalid)
qed

lemma structured_ok:
  assumes "allocator_ok alloc" and "rounds_with rnd r" and "rounds_near rnd" and "log_near flog"
  shows "verdict_ok (all_succeed alloc mal) hp (test_round_trip_structured ndebug rnd flog alloc hp)"
proof -
  obtain nbits where est: "qb_estimate_bits rnd flog ndebug 20000 (rnd (1 / 100)) = Some (Done nbits)" "unat nbits \<le> 2 ^ 20"
    by (rule estimates_01 [OF assms(2-4)])
  define body where "body f hp = do {
       (a, st, hp) \<leftarrow> insert_keys key_counter f [0..<5000] (0, 0) hp;
       (b, st, hp) \<leftarrow> insert_keys key_ascii f [0..<5000] st hp;
       (c, st, hp) \<leftarrow> insert_keys key_uuid f [0..<5000] (pcg_seed 0xC0DEC0DE) hp;
       and_then (check_keys f ''structured false negative'' (a @ b @ c) hp) (\<lambda>_. do {
         fps \<leftarrow> count_hits key_far f [0..<5000] st hp;
         and_then (ASSERT (below_ceiling rnd fps 5000) ''structured FP rate too high'') (\<lambda>_. finish f hp) }) }" for f hp
  have "checked (qb_sized ndebug rnd flog alloc 20000 hp) = map_option Passed (make_filter alloc nbits hp)"
    using est(1) by (simp add: qb_sized_def make_filter_def checked_def map_option_case split: option.split)
  then have "test_round_trip_structured ndebug rnd flog alloc hp = do {
      (f, hp) \<leftarrow> make_filter alloc nbits hp;
      and_then (ASSERT (f \<noteq> NULL) ''qb_new'') (\<lambda>_. body f hp) }"
    by (cases "make_filter alloc nbits hp") (simp_all add: test_round_trip_structured_def body_def)
  also have "verdict_ok (all_succeed alloc mal) hp \<dots>"
  proof (rule with_new_filter [OF assms(1) est(2)])
    fix p mem k
    assume f: "fresh_filter p mem k hp"
    let ?hp = "with_filter p mem k (replicate (8 * 2 ^ k) 0) hp"
    obtain a st ws where a: "insert_keys key_counter p [0..<5000] (0, 0) ?hp = Some (a, st, with_filter p mem k ws hp)"
      "length ws = 8 * 2 ^ k" "\<forall>x \<in> set a. footprint k (key_hash x) \<subseteq> bitset ws" by (rule fresh_inserted [OF f])
    obtain b st' ws' where b: "insert_keys key_ascii p [0..<5000] st (with_filter p mem k ws hp) = Some (b, st', with_filter p mem k ws' hp)"
      "length ws' = 8 * 2 ^ k" "bitset ws \<subseteq> bitset ws'" "\<forall>x \<in> set b. footprint k (key_hash x) \<subseteq> bitset ws'"
      by (rule fresh_inserts [OF f a(2)])
    obtain c st2 vs where c: "insert_keys key_uuid p [0..<5000] (pcg_seed 0xC0DEC0DE) (with_filter p mem k ws' hp)
        = Some (c, st2, with_filter p mem k vs hp)"
      "length vs = 8 * 2 ^ k" "bitset ws' \<subseteq> bitset vs" "\<forall>x \<in> set c. footprint k (key_hash x) \<subseteq> bitset vs"
      by (rule fresh_inserts [OF f b(2)])
    have "\<forall>x \<in> set (a @ b @ c). footprint k (key_hash x) \<subseteq> bitset vs" using a(3) b(3,4) c(3,4) unfolding set_append ball_Un by blast
    note check = check_keys_ok [OF fresh_at [OF f c(2)] this]
    show "verdict_ok (all_succeed alloc mal) hp (body p ?hp)"
      unfolding body_def by (simp only: a(1) b(1) c(1) Option.bind.simps prod.case check and_then_simps)
        (rule rated_ok [OF f c(2)], simp add: rate_failures_def)
  qed (simp add: alloc_failures_def)
  finally show ?thesis .
qed

lemma refuse_ok:
  "buf = None \<or> \<not> accepted QB_DESERIALIZE_MAX_BYTES nbytes \<Longrightarrow> refuse alloc buf nbytes msg hp = Some (Passed hp)"
  by (simp add: refuse_def qb_load_def deserialize_rejects)

lemma refuse_invalid_ok: "refuse_invalid alloc buf hp = Some (Passed hp)"
proof -
  have "\<not> accepted QB_DESERIALIZE_MAX_BYTES 0 \<and> \<not> accepted QB_DESERIALIZE_MAX_BYTES 33 \<and>
      \<not> accepted QB_DESERIALIZE_MAX_BYTES 96 \<and> \<not> accepted QB_DESERIALIZE_MAX_BYTES (push_bit 40 1)"
    by code_simp
  then show ?thesis by (simp add: refuse_invalid_def refuse_ok)
qed

lemma memcmp_same: "n \<le> length a \<Longrightarrow> memcmp_eq (Some a) (Some a) n = Some True"
  by (simp add: memcmp_eq_def)

lemma image_size_sane:
  assumes "k \<le> 25" shows "0 < 2 ^ k * SBBF_BLOCK_BYTES \<and> 2 ^ k * SBBF_BLOCK_BYTES mod 32 = 0"
proof -
  have "accepted QB_DESERIALIZE_MAX_BYTES (2 ^ k * SBBF_BLOCK_BYTES)"
    using default_limit [OF assms] assms by (auto simp: accepted_iff intro!: exI [of _ k])
  then show ?thesis by (simp add: accepted_def SBBF_BLOCK_BYTES_def word_neq_0_conv)
qed

text \<open>The second half of the round trip: a filter and its image.\<close>

lemma reload_cases:
  assumes "allocator_ok alloc" and "filter_at hp p k b ws" and "k \<le> 25"
  obtains (null) "qb_load alloc (Some (bytes_of ws)) (2 ^ k * SBBF_BLOCK_BYTES) hp = Some (NULL, hp)" "\<not> all_succeed alloc mal"
  | (made) q mem where "fresh_filter q mem k hp" "q \<noteq> NULL"
      "qb_load alloc (Some (bytes_of ws)) (2 ^ k * SBBF_BLOCK_BYTES) hp = Some (q, with_filter q mem k ws hp)"
proof -
  have ws: "length ws = 8 * 2 ^ k" and k: "k \<le> 31" using assms(2,3) by (simp_all add: filter_at_def)
  have ans: "answers_ok hp (fst (alloc hp)) (snd (alloc hp))" using assms(1) by (simp add: allocator_ok_def)
  have "unat (2 ^ k * SBBF_BLOCK_BYTES) \<le> length (bytes_of ws)" using k ws by (simp add: bytes_of_blocks)
  from deserialize_eq [OF refl k default_limit [OF assms(3)] this ans] reload_words [OF ws, of "[]"]
  have load: "qb_load alloc (Some (bytes_of ws)) (2 ^ k * SBBF_BLOCK_BYTES) hp =
     Some (if fst (alloc hp) = NULL \<or> snd (alloc hp) = NULL then (NULL, hp)
           else (fst (alloc hp), with_filter (fst (alloc hp)) (snd (alloc hp)) k ws hp))"
    by (simp add: qb_load_def)
  show thesis
  proof (cases "fst (alloc hp) = NULL \<or> snd (alloc hp) = NULL")
    case True
    then show thesis using load by (intro null) (auto simp: all_succeed_def)
  next
    case False
    then show thesis using load k ans by (intro made [of "fst (alloc hp)" "snd (alloc hp)"]) (auto simp: fresh_filter_def)
  qed
qed

lemma serialize_fits:
  assumes "filter_at hp p k b ws" and "buffers_ok m" and "m (unat (2 ^ k * SBBF_BLOCK_BYTES)) = Some dst"
  shows "qb_serialize ndebug p (Some dst) hp = Some (Done (Some (bytes_of ws)))"
proof -
  have "k \<le> 31" using assms(1) by (simp add: filter_at_def)
  then have "length dst = 32 * 2 ^ k" using assms(2,3) by (auto simp: buffers_ok_def bytes_of_blocks)
  then show ?thesis using serialize_eq [OF assms(1), of dst ndebug] by simp
qed

lemma reload_image_ok:
  assumes "allocator_ok alloc" and "buffers_ok (mal 2)" and "\<forall>n. mal 2 n \<noteq> None"
    and f: "fresh_filter p mem k hp" and ws: "length ws = 8 * 2 ^ k" and k: "k \<le> 25"
    and set: "\<forall>x \<in> set keys. footprint k (key_hash x) \<subseteq> bitset ws"
  shows "verdict_ok (all_succeed alloc mal) hp
    (reload_image ndebug alloc mal p keys (2 ^ k * SBBF_BLOCK_BYTES) (Some (bytes_of ws)) (with_filter p mem k ws hp))"
proof (rule reload_cases [OF assms(1) fresh_at [OF f ws] k, of mal])
  assume "qb_load alloc (Some (bytes_of ws)) (2 ^ k * SBBF_BLOCK_BYTES) (with_filter p mem k ws hp)
      = Some (NULL, with_filter p mem k ws hp)" "\<not> all_succeed alloc mal"
  then show ?thesis by (simp add: reload_image_def verdict_ok_def ASSERT_def alloc_failures_def)
next
  fix q mem'
  let ?n = "2 ^ k * SBBF_BLOCK_BYTES"
  assume g: "fresh_filter q mem' k (with_filter p mem k ws hp)" and q: "q \<noteq> NULL"
    and load: "qb_load alloc (Some (bytes_of ws)) ?n (with_filter p mem k ws hp)
      = Some (q, with_filter q mem' k ws (with_filter p mem k ws hp))"
  note at = fresh_at [OF g ws]
  obtain dst where dst: "mal 2 (unat ?n) = Some dst" using assms(3) by blast
  have size: "checked (qb_serialized_size ndebug q (with_filter q mem' k ws (with_filter p mem k ws hp))) = Some (Passed ?n)"
    using serialized_size_eq [OF at] by simp
  have "unat ?n = 32 * 2 ^ k" using k by (intro bytes_of_blocks) simp
  then have cmp: "memcmp_eq (Some (bytes_of ws)) (Some (bytes_of ws)) (unat ?n) = Some True"
    using ws by (intro memcmp_same) simp
  show ?thesis
    by (simp only: reload_image_def load Option.bind.simps prod.case q not_False_eq_True ASSERT_True and_then_simps size
      simp_thms check_keys_ok [OF at set] dst serialize_fits [OF at assms(2) dst] checked_Done cmp refuse_invalid_ok
      fresh_finish [OF g ws] fresh_finish [OF f ws] verdict_passed)
qed

lemma check_image_ok:
  assumes "allocator_ok alloc" and "buffers_ok (mal 1)" and "buffers_ok (mal 2)" and "\<forall>n. mal 2 n \<noteq> None"
    and f: "fresh_filter p mem k hp" and ws: "length ws = 8 * 2 ^ k" and k: "k \<le> 25"
    and set: "\<forall>x \<in> set keys. footprint k (key_hash x) \<subseteq> bitset ws"
  shows "verdict_ok (all_succeed alloc mal) hp (check_image ndebug alloc mal p keys (with_filter p mem k ws hp))"
proof -
  let ?n = "2 ^ k * SBBF_BLOCK_BYTES"
  note at = fresh_at [OF f ws]
  have size: "checked (qb_serialized_size ndebug p (with_filter p mem k ws hp)) = Some (Passed ?n)"
    using serialized_size_eq [OF at] by simp
  show ?thesis
  proof (cases "mal 1 (unat ?n)")
    case None
    then have no: "\<not> all_succeed alloc mal" unfolding all_succeed_def by blast
    have "ASSERT (mal 1 (unat ?n) \<noteq> None) ''alloc serialize buf'' = Some (Failed ''alloc serialize buf'')"
      by (simp only: ASSERT_def None) simp
    then show ?thesis
      by (simp only: check_image_def size and_then_simps image_size_sane [OF k] simp_thms ASSERT_True)
        (simp add: verdict_ok_def alloc_failures_def no)
  next
    case (Some dst)
    show ?thesis
      by (simp only: check_image_def size and_then_simps image_size_sane [OF k] simp_thms ASSERT_True Some
        option.distinct not_False_eq_True serialize_fits [OF at assms(2) Some] checked_Done
        reload_image_ok [where mal = mal, OF assms(1,3,4) f ws k set])
  qed
qed

lemma serialize_round_trip_ok:
  assumes "allocator_ok alloc" and "\<forall>i. buffers_ok (mal i)" and "\<forall>n. mal 2 n \<noteq> None"
  shows "verdict_ok (all_succeed alloc mal) hp (test_serialize_round_trip ndebug alloc mal hp)"
  unfolding test_serialize_round_trip_def
proof (rule with_new_filter [OF assms(1)])
  fix p mem k
  assume f: "fresh_filter p mem k hp" and k: "k \<le> 25"
  let ?start = "with_filter p mem k (replicate (8 * 2 ^ k) 0) hp"
  obtain keys st ws where
    run: "insert_keys key_16 p [0..<5000] (pcg_seed 0xDEADBEEF) ?start = Some (keys, st, with_filter p mem k ws hp)" and
    ws: "length ws = 8 * 2 ^ k" and set: "\<forall>x \<in> set keys. footprint k (key_hash x) \<subseteq> bitset ws"
    by (rule fresh_inserted [OF f])
  from assms(2) have bufs: "buffers_ok (mal 1)" "buffers_ok (mal 2)" by blast+
  show "verdict_ok (all_succeed alloc mal) hp (do {
       (keys, st, hp) \<leftarrow> insert_keys key_16 p [0..<5000] (pcg_seed 0xDEADBEEF) ?start;
       check_image ndebug alloc mal p keys hp })"
    by (simp only: run Option.bind.simps prod.case check_image_ok [where mal = mal, OF assms(1) bufs assms(3) f ws k set])
qed (simp only: driver_request, simp, simp add: alloc_failures_def)

section \<open>Properties\<close>

text \<open>C26: of all the assertions of the test driver, only those on a false positive rate and those on an
  allocation can ever fail. Whatever the allocators answer (but for the second image buffer, whose
  \<open>malloc\<close> the driver does not check), the driver never faults, and it passes and has then freed
  every filter, or stops at one of those; if every allocation succeeds, only a false positive rate
  can stop it. In particular no test ever sees a false negative or a broken round trip.\<close>

theorem test_driver_never_fails:
  assumes "allocator_ok alloc" and "\<forall>i. buffers_ok (mal i)" and "\<forall>n. mal 2 n \<noteq> None"
    and "rounds_with rnd r" and "rounds_near rnd" and "log_near flog"
  shows "test_main ndebug rnd flog alloc mal hp = Some (Passed hp) \<or>
    (\<exists>m. test_main ndebug rnd flog alloc mal hp = Some (Failed m) \<and>
       (m \<in> rate_failures \<or> m \<in> alloc_failures \<and> \<not> all_succeed alloc mal))"
proof -
  have "verdict_ok (all_succeed alloc mal) hp (test_main ndebug rnd flog alloc mal hp)"
    unfolding test_main_def free_null_ok and_then_simps estimate_bits_ok [OF assms(4-6)]
    by (rule verdict_then [OF new_zero_ok [OF assms(1)]] verdict_then [OF round_trip_16_ok [OF assms(1)]]
      verdict_then [OF round_trip_varlen_ok [OF assms(1)]] verdict_then [OF structured_ok [OF assms(1,4-6)]]
      verdict_then [OF prehash_ok [OF assms(1)]] verdict_then [OF serialize_round_trip_ok [OF assms(1-3)]] verdict_passed)+
  then show ?thesis by (simp add: verdict_ok_def)
qed

text \<open>An allocator with room for two filters.\<close>

definition twice :: allocator where
  "twice hp = (if hp 64 = None \<and> hp 96 = None then (64, 96)
     else if hp 128 = None \<and> hp 160 = None then (128, 160) else (0, 0))"

lemma twice_ok: "allocator_ok twice"
  by (auto simp: allocator_ok_def twice_def answers_ok_def fresh_def)

lemma near_exact: "rounds_near Fin"
  by (auto simp: rounds_near_def)

lemma log_near_ln: "log_near (\<lambda>d. case d of Fin x \<Rightarrow> Fin (ln x) | _ \<Rightarrow> NaN)"
  by (simp add: log_near_def)

theorem test_driver_never_fails_witness:
  "\<exists>v. test_main False Fin (\<lambda>d. case d of Fin x \<Rightarrow> Fin (ln x) | _ \<Rightarrow> NaN) twice (\<lambda>i n. Some (replicate n 0)) Map.empty = Some v \<and>
     v \<noteq> Failed ''false negative'' \<and> v \<noteq> Failed ''byte image differs after round trip''"
proof -
  have "\<forall>i. buffers_ok ((\<lambda>i n. Some (replicate n 0)) i)" by (simp add: buffers_ok_def)
  from test_driver_never_fails [OF twice_ok this _ rounds_with_exact near_exact log_near_ln, of False Map.empty]
  show ?thesis by (auto simp: rate_failures_def alloc_failures_def)
qed

end
