(* ===== verification/Spec2Isabelle.thy ===== *)
theory Spec2Isabelle
  imports Qb_Api Qb_Races Parquet_Compat Fuzz_Harness Classic Krassovsky Xorfuse_History Fuse_Sentinel Bench_Main Hello Test_Driver
begin

text \<open>
  A verification of quickbloom, a split block Bloom filter in C, of the filters it is compared with
  and of the programs that drive them. Every definition is translated from the C source; the
  theorems say what the code promises and where it does not.

  \<^bold>\<open>How C is read.\<close> A fixed-width integer is a word and wraps; a buffer is a list, and a read or
  write outside it is \<open>None\<close>, as is a shift by the width or more, a conversion out of range and a
  loop that never ends. So \<open>f x = Some y\<close> says that the call is defined, returns, and returns
  \<open>y\<close>. Filters live in an explicit heap (\<open>Qb_Machine\<close>: a map from addresses to structures,
  word arrays and raw blocks, with \<open>malloc\<close>, \<open>posix_memalign\<close>, \<open>free\<close> and alignment); the
  AVX2 intrinsics are functions on lists of lanes. What is not the program's is an argument: the
  addresses an allocator answers (\<open>answers_ok\<close>: fresh, aligned, different, or \<open>NULL\<close>), what a
  fresh block holds, the C library's \<open>qsort\<close> and \<open>log\<close>, the rounding of doubles (\<open>rounds_with\<close>:
  monotone, exact on small integers), the readings of a clock, and whether \<open>assert\<close> is compiled.

  \<^bold>\<open>The parts, the theories and the sources.\<close>

  \<^item> \<open>Qb_Prelude\<close>, \<open>Qb_Machine\<close>: words, little-endian bytes, a fold that can fault; heap and vectors.
  \<^item> \<open>Qb_Contract\<close>, \<open>Qb_Loops\<close>: the interfaces, as locales. A filter that only gains bits has no
    false negatives; a loop unrolled by any factor with its remainder is the plain loop. They are
    interpreted on the four dynamic filters and on the bulk loops.
  \<^item> \<open>Qb_Hash\<close>, \<open>Qb_Filter\<close>, \<open>Qb_Bulk\<close>, \<open>Qb_Lifecycle\<close>, \<open>Qb_Serialize\<close>: \<open>quickbloom.c\<close>. The
    hash of a key, \<open>mask_for\<close> and \<open>block_for\<close>, the single operations, the unrolled bulk loops,
    \<open>qb_new\<close> and \<open>qb_free\<close>, the byte image. \<open>filter_at\<close> is the invariant of a live filter,
    \<open>bitset\<close> its abstraction: each operation is shown to keep the one and to act on the other as
    a union or a subset test.
  \<^item> \<open>Qb_Api\<close>: \<open>quickbloom.h\<close>. Sequences of public calls as a step relation; by rule induction no
    reachable heap lets a call on a live handle fault, leak or touch another filter.
  \<^item> \<open>Qb_Concurrent\<close>, \<open>Qb_Races\<close>: the threading note of the header, with 32-bit lanes as the atomic
    accesses. An operation that no other thread interrupts is the translated function; writers on
    different blocks (one writer among them) miss no completed insertion, writers on one block can
    lose one but never set a foreign bit.
  \<^item> \<open>Qb_Estimate\<close>: \<open>qb_util.c\<close>, the bits for a number of items and a false positive rate.
  \<^item> \<open>Xxh64\<close>, \<open>Impala\<close>, \<open>Parquet_Compat\<close>: \<open>tools/xxh64.h\<close>, \<open>comparisons/bloom_impala.c\<close>, and
    the equivalence of that scalar filter of the Parquet format with quickbloom.
  \<^item> \<open>Fasthash_Copies\<close>: the copies of \<open>fasthash64_var\<close> in three comparison filters, each from its own
    file, and that they are the function of \<open>quickbloom.c\<close>.
  \<^item> \<open>Classic\<close>: \<open>comparisons/bloom_classic.c\<close>, the textbook filter.
  \<^item> \<open>Krassovsky_Masks\<close>, \<open>Krassovsky\<close>: \<open>comparisons/bloom_krassovsky.c\<close>, its table of masks and its
    scalar and vector paths.
  \<^item> \<open>Fuse_Hash\<close>, \<open>Fuse_Alloc\<close>, \<open>Fuse_Populate\<close>: \<open>comparisons/binaryfusefilter.h\<close>, hashing and query,
    sizing, and the construction with its six scratch arrays. \<open>Fuse_Place\<close>, \<open>Fuse_Count\<close>,
    \<open>Fuse_Peel\<close> and \<open>Fuse_Dedup\<close> prove its phases, one invariant each, and \<open>Fuse_Build\<close> the whole,
    repeated keys included; \<open>Fuse_Sentinel\<close> runs it on keys for which it goes wrong.
  \<^item> \<open>Xorfuse\<close>: \<open>comparisons/bloom_xorfuse.c\<close>, which builds that static filter on the first query;
    \<open>Xorfuse_History\<close>: any sequence of insertions and queries on such a handle, by rule induction.
  \<^item> \<open>Fuzz_Harness\<close>: the three fuzz targets of \<open>tools/\<close>; a trap is a value, and the targets' own scratch
    buffers are tracked from \<open>malloc\<close> to \<open>free\<close>.
  \<^item> \<open>Siphash_Spec\<close>: SipHash-c-d as its authors define it, with their test vector, independent of the code.
  \<^item> \<open>Bench_Hash\<close>, \<open>Bench_Qb\<close>, \<open>Bench_Main\<close>: \<open>tools/bench_hash.c\<close>, \<open>tools/bench_qb.c\<close> and
    \<open>tools/xxh64_helper.c\<close>. What the benchmarks report is stated exactly: the count of hits of every
    benchmark as a function of the two pools, and the rows as summaries of the clock's differences.
    The keys of \<open>bench_hash.c\<close> lie in memory that is indeterminate until written, and reading such
    a byte is a fault.
  \<^item> \<open>Hello\<close>: \<open>examples/hello_quickbloom.c\<close>.
  \<^item> \<open>Test_Driver\<close>: \<open>test/test_quickbloom.c\<close>, every test and \<open>main\<close>. Of its assertions only those on an
    allocation and on a false positive rate can fail.

  \<^bold>\<open>What the groups of lemmas show.\<close> No false negatives for all five filters (for the
  fuse filter once its build has succeeded, on hashes as under Bounds); the functional
  behaviour of every operation of quickbloom on every branch, errors included; that the optimised
  routines (AVX2, unrolled, batched, multiply-high) equal their scalar forms; that images make a
  round trip and malformed ones are refused; that loops end; and, as theorems too, the boundaries of these promises: sizes that wrap,
  limits that a build can set wrongly, a failed build of the fuse filter that
  counts as built, a guard that is lost when keys are repeated.

  \<^bold>\<open>Bounds.\<close> There is no fuel: loops are recursive functions with a measure, and the few that can run
  for ever (\<open>pow2_from\<close>, \<open>free_segment\<close>, \<open>peel_loop\<close>) are partial functions whose termination is a
  theorem. The construction of the fuse filter repeats its round \<open>XOR_MAX_ITERATIONS = 100\<close> times at
  most, as the code does. Its theorems take keys that are all different, or keys none of which
  hashes to zero under one of the hundred seeds and a \<open>qsort\<close> that only reorders, and its sizing
  at most \<open>2 ^ 28\<close> of them, where the arithmetic is shown to be in range; beyond that \<open>allocate_overflow\<close>
  shows where it is not. The sizing helper is treated up to \<open>2 ^ 51\<close> items, which doubles count
  exactly.

  The filter benchmark is treated for pools of up to \<open>2 ^ 58\<close> keys, whose sizes in bytes fit
  a \<open>size_t\<close>; above that they wrap (\<open>run_size_wraps\<close>). The buffer of the fuse filter's shim is counted in
  \<open>nat\<close>: its doubling is not followed past \<open>2 ^ 60\<close> words.

  \<^bold>\<open>Not modelled.\<close> Printing (what a program prints is its result); signed zeros of doubles;
  indeterminate bytes other than those of the keys of \<open>bench_hash.c\<close> (elsewhere a fresh block holds
  arbitrary values); the four frees of \<open>run_size\<close>, whose pools are values. The Python harness and tests, the two Rust shims and the build
  files are not C and are left out.
\<close>

end
